(* ===== verification/Prelude.thy ===== *)
theory Prelude
  imports Complex_Main "HOL-Library.AList"
begin

text \<open>
  Shared vocabulary of the development: the theorem collections the component proofs draw on,
  and the list and dictionary facts used by more than one component. Python dictionaries keep
  insertion order and are modelled as association lists: \<open>d[k] = v\<close> is \<^const>\<open>AList.update\<close>
  (in place for a present key, appended for a fresh one), \<open>d.pop(k, None)\<close> is
  \<^const>\<open>AList.delete\<close> and \<open>d.get(k)\<close> is \<^const>\<open>map_of\<close>.
\<close>

named_theorems frame_simps \<open>which fields an operation leaves unchanged\<close>
named_theorems inv_intros \<open>an operation preserves an invariant\<close>

section \<open>Sorted sequences with a last element\<close>

lemma sorted_snoc:
  fixes xs :: "'a::linorder list"
  assumes "sorted xs" and "\<forall>y\<in>set xs. y \<le> x"
  shows "sorted (xs @ [x])"
  using assms by (simp add: sorted_append)

section \<open>Dictionaries as association lists\<close>

lemma dict_get_set [simp]: "map_of (AList.update k v al) = (map_of al)(k \<mapsto> v)"
  by (rule update_conv')

lemma dict_get_pop [simp]: "map_of (AList.delete k al) = (map_of al)(k := None)"
  by (rule delete_conv')

lemma update_fresh: "k \<notin> fst ` set al \<Longrightarrow> AList.update k v al = al @ [(k, v)]"
  by (induction al) auto

lemma set_delete_subset: "set (AList.delete k al) \<subseteq> set al"
  by (auto simp: AList.delete_eq)

lemma set_update_subset: "set (AList.update k v al) \<subseteq> insert (k, v) (set al)"
  by (induction al) auto

end
