(* ===== verification/PyFloat.thy ===== *)
theory PyFloat
  imports Prelude "HOL-Library.Log_Nat"
begin

text \<open>
  Python's \<open>float\<close> (IEEE 754 binary64) as the simulator uses it: virtual times, latencies,
  probabilities and slow-link factors are floats, and the code compares, adds, multiplies and
  takes the maximum of them and asks \<open>math.isnan\<close> and \<open>math.isfinite\<close>. A finite float is the
  real number it stands for; every arithmetic result is the exact real result rounded to the
  nearest binary64 number, ties to even (\<open>rnd\<close>), and overflows to an infinity. The sign of
  zero is not kept: the code never reads it. The lemmas show what the simulator relies on:
  rounding is monotone, leaves floats alone, and yields a float.
\<close>

section \<open>Rounding to binary64\<close>

text \<open>The exponent of a positive real: \<open>2 powi bexp x \<le> x < 2 powi (bexp x + 1)\<close>.\<close>

definition bexp :: "real \<Rightarrow> int" where
  "bexp x = (if 1 \<le> x then bitlen \<lfloor>x\<rfloor> - 1 else - bitlen (\<lceil>1 / x\<rceil> - 1))"

text \<open>The spacing of floats around \<open>x\<close>: 53 significant bits, bounded by the subnormals.\<close>

definition ulp :: "real \<Rightarrow> real" where
  "ulp x = 2 powi (max (bexp x - 52) (- 1074))"

definition round_even :: "real \<Rightarrow> int" where
  "round_even y = (let n = \<lfloor>y\<rfloor>; d = y - of_int n in
     if d < 1 / 2 then n else if d > 1 / 2 then n + 1 else if even n then n else n + 1)"

definition rnd_pos :: "real \<Rightarrow> real" where
  "rnd_pos x = of_int (round_even (x / ulp x)) * ulp x"

definition rnd :: "real \<Rightarrow> real" where
  "rnd x = (if x = 0 then 0 else if 0 < x then rnd_pos x else - rnd_pos (- x))"

text \<open>The reals that are binary64 numbers, up to the overflow bound.\<close>

definition is_double :: "real \<Rightarrow> bool" where
  "is_double x \<longleftrightarrow> rnd x = x"

subsection \<open>The exponent\<close>

lemma powi_nat: "0 \<le> k \<Longrightarrow> (2::real) powi k = 2 ^ nat k"
  by (simp add: power_int_def)

lemma powi_pos [simp]: "0 < (2::real) powi k"
  by (simp add: zero_less_power_int)

lemma powi_mono: "j \<le> k \<Longrightarrow> (2::real) powi j \<le> 2 powi k"
  by (rule power_int_increasing) auto

lemma powi_strict: "j < k \<Longrightarrow> (2::real) powi j < 2 powi k"
  by (rule power_int_strict_increasing) auto

lemma powi_less_cancel: "(2::real) powi j < 2 powi k \<Longrightarrow> j < k"
  using powi_mono [of k j] by (simp flip: not_le) (meson linorder_not_le)

lemma bexp_bounds_ge1:
  assumes "1 \<le> x"
  shows "2 powi bexp x \<le> x \<and> x < 2 powi (bexp x + 1)"
proof -
  have pos: "0 < \<lfloor>x\<rfloor>" using assms by linarith
  have b1: "1 \<le> bitlen \<lfloor>x\<rfloor>"
    using pos bitlen_eq_zero_iff [of "\<lfloor>x\<rfloor>"] bitlen_nonneg [of "\<lfloor>x\<rfloor>"] by linarith
  from bitlen_bounds [OF pos]
  have l: "(2::int) ^ nat (bitlen \<lfloor>x\<rfloor> - 1) \<le> \<lfloor>x\<rfloor>" and u: "\<lfloor>x\<rfloor> < 2 ^ nat (bitlen \<lfloor>x\<rfloor>)"
    by auto
  from l have "(2::real) ^ nat (bitlen \<lfloor>x\<rfloor> - 1) \<le> x"
    by (metis le_floor_iff of_int_numeral of_int_power)
  moreover from u have "x < (2::real) ^ nat (bitlen \<lfloor>x\<rfloor>)"
    by (metis floor_less_iff of_int_numeral of_int_power)
  ultimately show ?thesis
    using assms b1 by (simp add: bexp_def powi_nat)
qed

lemma bexp_bounds_lt1:
  assumes "0 < x" and "x < 1"
  shows "2 powi bexp x \<le> x \<and> x < 2 powi (bexp x + 1)"
proof -
  define y where "y = 1 / x"
  define n where "n = \<lceil>y\<rceil> - 1"
  have y1: "1 < y" using assms by (simp add: y_def)
  have n1: "0 < n" using y1 by (simp add: n_def)
  define b where "b = bitlen n"
  have b1: "1 \<le> b"
    using n1 bitlen_eq_zero_iff [of n] bitlen_nonneg [of n] unfolding b_def by linarith
  from bitlen_bounds [OF n1]
  have l: "(2::int) ^ nat (b - 1) \<le> n" and u: "n < 2 ^ nat b"
    by (auto simp: b_def)
  from l have "(2::real) ^ nat (b - 1) \<le> of_int n"
    by (metis of_int_le_iff of_int_numeral of_int_power)
  then have l': "(2::real) ^ nat (b - 1) < y"
    by (simp add: n_def) linarith
  from u have "\<lceil>y\<rceil> \<le> 2 ^ nat b" by (simp add: n_def)
  then have u': "y \<le> 2 ^ nat b"
    by (metis ceiling_le_iff of_int_numeral of_int_power)
  have e: "bexp x = - b" using assms by (simp add: bexp_def b_def n_def y_def)
  have p: "(2::real) powi (- b) = 1 / 2 ^ nat b" "(2::real) powi (- b + 1) = 1 / 2 ^ nat (b - 1)"
    using b1 by (simp_all add: power_int_def field_simps)
  have "1 / 2 ^ nat b \<le> x"
    using u' assms(1) by (simp add: y_def field_simps)
  moreover have "x < 1 / 2 ^ nat (b - 1)"
    using l' assms(1) by (simp add: y_def field_simps)
  ultimately show ?thesis unfolding e p by (rule conjI)
qed

lemma bexp_bounds:
  assumes "0 < x"
  shows "2 powi bexp x \<le> x" and "x < 2 powi (bexp x + 1)"
  using bexp_bounds_ge1 [of x] bexp_bounds_lt1 [of x] assms by (cases "1 \<le> x"; simp)+

lemma bexp_mono: "0 < x \<Longrightarrow> x \<le> y \<Longrightarrow> bexp x \<le> bexp y"
proof -
  assume "0 < x" and "x \<le> y"
  then have "(2::real) powi bexp x < 2 powi (bexp y + 1)"
    using bexp_bounds [of x] bexp_bounds [of y] by linarith
  then show ?thesis by (drule_tac powi_less_cancel) simp
qed


subsection \<open>Rounding to an integer\<close>

lemma round_even_cases:
  "round_even y = \<lfloor>y\<rfloor> \<or> round_even y = \<lfloor>y\<rfloor> + 1"
  by (simp add: round_even_def Let_def)

lemma round_even_int [simp]: "round_even (of_int n) = n"
  by (simp add: round_even_def)

lemma round_even_mono:
  assumes "x \<le> y"
  shows "round_even x \<le> round_even y"
proof (cases "\<lfloor>x\<rfloor> = \<lfloor>y\<rfloor>")
  case True
  with assms show ?thesis by (auto simp: round_even_def Let_def)
next
  case False
  with assms have "\<lfloor>x\<rfloor> + 1 \<le> \<lfloor>y\<rfloor>" using floor_mono [of x y] by linarith
  with round_even_cases [of x] round_even_cases [of y] show ?thesis by linarith
qed

lemma round_even_le: "y \<le> of_int n \<Longrightarrow> round_even y \<le> n"
  using round_even_mono [of y "of_int n"] by simp

lemma round_even_ge: "of_int n \<le> y \<Longrightarrow> n \<le> round_even y"
  using round_even_mono [of "of_int n" y] by simp

subsection \<open>Rounding to a float\<close>

lemma ulp_pos [simp]: "0 < ulp x"
  by (simp add: ulp_def)

lemma ulp_mono: "0 < x \<Longrightarrow> x \<le> y \<Longrightarrow> ulp x \<le> ulp y"
  by (auto simp: ulp_def intro!: powi_mono dest: bexp_mono)

text \<open>A power of two not below the spacing is a whole number of spacings.\<close>

lemma powi_multiple:
  assumes "max (e - 52) (- 1074) \<le> k"
  shows "(2::real) powi k = of_int (2 ^ nat (k - max (e - 52) (- 1074))) * 2 powi (max (e - 52) (- 1074))"
proof -
  let ?m = "max (e - 52) (- 1074)"
  have "(2::real) powi k = 2 powi ((k - ?m) + ?m)" by simp
  also have "\<dots> = 2 powi (k - ?m) * 2 powi ?m" by (rule power_int_add) simp
  finally show ?thesis using assms by (simp add: powi_nat)
qed

lemma rnd_pos_le_powi:
  assumes "x \<le> 2 powi k" and "max (bexp x - 52) (- 1074) \<le> k"
  shows "rnd_pos x \<le> 2 powi k"
proof -
  let ?N = "(2::int) ^ nat (k - max (bexp x - 52) (- 1074))"
  have eq: "(2::real) powi k = of_int ?N * ulp x"
    unfolding ulp_def by (rule powi_multiple [OF assms(2)])
  with assms(1) have "x / ulp x \<le> of_int ?N" by (simp add: divide_le_eq)
  then have "round_even (x / ulp x) \<le> ?N" by (rule round_even_le)
  then have "of_int (round_even (x / ulp x)) * ulp x \<le> of_int ?N * ulp x"
    by (intro mult_right_mono) (simp_all only: of_int_le_iff ulp_pos [THEN less_imp_le])
  then show ?thesis by (simp only: rnd_pos_def eq)
qed

lemma rnd_pos_ge_powi:
  assumes "2 powi k \<le> x" and "max (bexp x - 52) (- 1074) \<le> k"
  shows "2 powi k \<le> rnd_pos x"
proof -
  let ?N = "(2::int) ^ nat (k - max (bexp x - 52) (- 1074))"
  have eq: "(2::real) powi k = of_int ?N * ulp x"
    unfolding ulp_def by (rule powi_multiple [OF assms(2)])
  with assms(1) have "of_int ?N \<le> x / ulp x" by (simp add: le_divide_eq)
  then have "?N \<le> round_even (x / ulp x)" by (rule round_even_ge)
  then have "of_int ?N * ulp x \<le> of_int (round_even (x / ulp x)) * ulp x"
    by (intro mult_right_mono) (simp_all only: of_int_le_iff ulp_pos [THEN less_imp_le])
  then show ?thesis by (simp only: rnd_pos_def eq)
qed

lemma rnd_pos_nonneg:
  assumes "0 < x"
  shows "0 \<le> rnd_pos x"
proof -
  have "0 \<le> round_even (x / ulp x)" using assms by (intro round_even_ge) (simp add: less_imp_le)
  then show ?thesis by (simp add: rnd_pos_def less_imp_le)
qed

lemma rnd_pos_mono:
  assumes "0 < x" and "x \<le> y"
  shows "rnd_pos x \<le> rnd_pos y"
proof (cases "ulp x = ulp y")
  case True
  have "x / ulp y \<le> y / ulp y" using assms by (simp add: divide_right_mono less_imp_le)
  then have "round_even (x / ulp y) \<le> round_even (y / ulp y)" by (rule round_even_mono)
  with True show ?thesis
    by (simp add: rnd_pos_def mult_right_mono less_imp_le)
next
  case False
  have le: "bexp x \<le> bexp y" by (rule bexp_mono [OF assms])
  from False have "bexp x \<noteq> bexp y" by (auto simp: ulp_def)
  with le have lt: "bexp x < bexp y" by simp
  with False have ey: "- 1074 < bexp y - 52"
    by (auto simp: ulp_def max_def split: if_splits)
  have "x < 2 powi (bexp x + 1)" by (rule bexp_bounds [OF assms(1)])
  also have "\<dots> \<le> 2 powi bexp y" using lt by (intro powi_mono) simp
  finally have "rnd_pos x \<le> 2 powi bexp y"
    using lt ey by (intro rnd_pos_le_powi) auto
  also have "\<dots> \<le> rnd_pos y"
    using assms ey bexp_bounds(1) [of y] by (intro rnd_pos_ge_powi) auto
  finally show ?thesis .
qed

lemma rnd_zero [simp]: "rnd 0 = 0"
  by (simp add: rnd_def)

lemma rnd_minus: "rnd (- x) = - rnd x"
  by (simp add: rnd_def)

lemma rnd_mono: "x \<le> y \<Longrightarrow> rnd x \<le> rnd y"
  using rnd_pos_mono [of x y] rnd_pos_mono [of "- y" "- x"] rnd_pos_nonneg [of y]
    rnd_pos_nonneg [of "- x"]
  by (auto simp: rnd_def)

lemma rnd_nonneg: "0 \<le> x \<Longrightarrow> 0 \<le> rnd x"
  using rnd_mono [of 0 x] by simp


lemma rnd_nonpos: "x \<le> 0 \<Longrightarrow> rnd x \<le> 0"
  using rnd_mono [of x 0] by simp

subsection \<open>Floats are fixed points of rounding\<close>

lemma is_double_small:
  assumes "0 < N" and "N < 2 ^ 53" and "- 1074 \<le> e"
  shows "is_double (of_int N * 2 powi e)"
proof -
  define z where "z = of_int N * (2::real) powi e"
  let ?m = "max (bexp z - 52) (- 1074)"
  have z: "0 < z" using assms(1) by (simp add: z_def)
  have "of_int N < (2::real) ^ 53"
    using assms(2) by (metis of_int_less_iff of_int_numeral of_int_power)
  then have "of_int N < (2::real) powi 53" by (simp add: powi_nat)
  then have "z < 2 powi 53 * 2 powi e" by (simp add: z_def)
  also have "\<dots> = 2 powi (53 + e)" by (rule power_int_add [symmetric]) simp
  finally have "(2::real) powi bexp z < 2 powi (53 + e)"
    using bexp_bounds(1) [OF z] by linarith
  then have m: "?m \<le> e" using assms(3) by (auto dest: powi_less_cancel)
  define K where "K = (2::int) ^ nat (e - ?m)"
  have "(2::real) powi e = of_int K * ulp z"
    unfolding K_def ulp_def by (rule powi_multiple [OF m])
  then have zN: "z = of_int (N * K) * ulp z" by (simp add: z_def)
  then have "z / ulp z = of_int (N * K)"
    using ulp_pos [of z] by (metis less_irrefl nonzero_mult_div_cancel_right)
  then have "rnd_pos z = z"
    using zN by (simp only: rnd_pos_def round_even_int)
  with z show ?thesis by (simp add: is_double_def rnd_def z_def)
qed

lemma is_double_minus [simp]: "is_double (- x) = is_double x"
  by (simp add: is_double_def rnd_minus)

lemma is_double_zero [simp]: "is_double 0"
  by (simp add: is_double_def)

lemma is_double_scaled:
  assumes "\<bar>N\<bar> \<le> 2 ^ 53" and "- 1074 \<le> e"
  shows "is_double (of_int N * 2 powi e)"
proof -
  have pos: "is_double (of_int n * 2 powi e)" if "0 < n" and "n \<le> 2 ^ 53" for n :: int
  proof (cases "n = 2 ^ 53")
    case True
    have "is_double (of_int (2 ^ 52) * 2 powi (e + 1))"
      using assms(2) by (intro is_double_small) auto
    also have "of_int (2 ^ 52) * 2 powi (e + 1) = of_int n * (2::real) powi e"
      by (simp add: True power_int_add)
    finally show ?thesis .
  next
    case False
    with that assms(2) show ?thesis by (intro is_double_small) auto
  qed
  consider "0 < N" | "N = 0" | "N < 0" by linarith
  then show ?thesis
  proof cases
    case 3
    then have "is_double (of_int (- N) * 2 powi e)" using assms by (intro pos) auto
    then show ?thesis by simp
  qed (use assms pos in auto)
qed

lemma is_double_int: "\<bar>N\<bar> \<le> 2 ^ 53 \<Longrightarrow> is_double (of_int N)"
  using is_double_scaled [of N 0] by simp

lemma is_double_numeral: "(numeral k :: int) \<le> 2 ^ 53 \<Longrightarrow> is_double (numeral k)"
  using is_double_int [of "numeral k"] by simp

lemma is_double_one [simp]: "is_double 1"
  using is_double_int [of 1] by simp

lemma is_double_rnd [simp]: "is_double (rnd x)"
proof -
  have pos: "is_double (rnd_pos y)" if "0 < y" for y
  proof -
    let ?m = "max (bexp y - 52) (- 1074)"
    have "y < 2 powi (bexp y + 1)" by (rule bexp_bounds [OF that])
    also have "\<dots> \<le> 2 powi (53 + ?m)" by (intro powi_mono) simp
    also have "\<dots> = 2 powi 53 * ulp y" unfolding ulp_def by (rule power_int_add) simp
    finally have "y / ulp y \<le> of_int (2 ^ 53)"
      by (simp add: divide_le_eq powi_nat)
    then have "round_even (y / ulp y) \<le> 2 ^ 53" by (rule round_even_le)
    moreover have "0 \<le> round_even (y / ulp y)"
      using that by (intro round_even_ge) (simp add: less_imp_le)
    ultimately show ?thesis
      unfolding rnd_pos_def ulp_def by (intro is_double_scaled) auto
  qed
  then show ?thesis by (auto simp: rnd_def)
qed

lemma rnd_double: "is_double x \<Longrightarrow> rnd x = x"
  by (simp add: is_double_def)

lemma rnd_ge_double: "is_double a \<Longrightarrow> a \<le> x \<Longrightarrow> a \<le> rnd x"
  using rnd_mono [of a x] by (simp add: rnd_double)

lemma rnd_le_double: "is_double b \<Longrightarrow> x \<le> b \<Longrightarrow> rnd x \<le> b"
  using rnd_mono [of x b] by (simp add: rnd_double)


section \<open>Float values and the operations the simulator uses\<close>

datatype pyfloat = NegInf | Fin real | PosInf | NaN

text \<open>Results of this size and beyond overflow.\<close>

definition over :: real where
  "over = 2 ^ 1024"

lemma over_pos [simp]: "0 < over" "0 \<le> over" "- over < 0"
  by (simp_all add: over_def)

lemma over_big: "x \<le> 2 ^ 1000 \<Longrightarrow> x < over"
proof -
  assume "x \<le> 2 ^ 1000"
  also have "(2::real) ^ 1000 < over" unfolding over_def by (rule power_strict_increasing) auto
  finally show ?thesis .
qed

text \<open>The values a Python program can hold: a finite one is a binary64 number.\<close>

definition pf_ok :: "pyfloat \<Rightarrow> bool" where
  "pf_ok x = (case x of Fin r \<Rightarrow> is_double r \<and> \<bar>r\<bar> < over | _ \<Rightarrow> True)"

definition isnan :: "pyfloat \<Rightarrow> bool" where
  "isnan x = (case x of NaN \<Rightarrow> True | _ \<Rightarrow> False)"

definition isfinite :: "pyfloat \<Rightarrow> bool" where
  "isfinite x = (case x of Fin _ \<Rightarrow> True | _ \<Rightarrow> False)"

text \<open>
  A linear order with NaN on top, so that the library's sorting and \<open>Min\<close> apply. Python's own
  comparisons agree with it except that every comparison with NaN is false.
\<close>

instantiation pyfloat :: linorder
begin

fun less_eq_pyfloat :: "pyfloat \<Rightarrow> pyfloat \<Rightarrow> bool" where
  "less_eq_pyfloat NegInf y = True"
| "less_eq_pyfloat (Fin a) y = (case y of NegInf \<Rightarrow> False | Fin b \<Rightarrow> a \<le> b | _ \<Rightarrow> True)"
| "less_eq_pyfloat PosInf y = (y = PosInf \<or> y = NaN)"
| "less_eq_pyfloat NaN y = (y = NaN)"

definition less_pyfloat :: "pyfloat \<Rightarrow> pyfloat \<Rightarrow> bool" where
  "less_pyfloat x y = (x \<le> y \<and> \<not> y \<le> x)"

instance
proof
  fix x y z :: pyfloat
  show "(x < y) = (x \<le> y \<and> \<not> y \<le> x)" by (simp add: less_pyfloat_def)
  show "x \<le> x" by (cases x) auto
  show "x \<le> y \<Longrightarrow> y \<le> z \<Longrightarrow> x \<le> z" by (cases x; cases y; cases z) auto
  show "x \<le> y \<Longrightarrow> y \<le> x \<Longrightarrow> x = y" by (cases x; cases y) auto
  show "x \<le> y \<or> y \<le> x" by (cases x; cases y) auto
qed

end

lemma Fin_less_iff [simp]: "Fin a < Fin b \<longleftrightarrow> a < b"
  by (auto simp: less_pyfloat_def)

lemma pf_less_simps [simp]:
  "Fin a < PosInf" "Fin a < NaN" "NegInf < Fin a" "PosInf < NaN" "NegInf < PosInf" "NegInf < NaN"
  "\<not> PosInf < Fin a" "\<not> NaN < x" "\<not> x < NegInf" "x \<le> NaN"
  by (cases x; simp add: less_pyfloat_def)+

definition py_lt :: "pyfloat \<Rightarrow> pyfloat \<Rightarrow> bool" where
  "py_lt x y = (\<not> isnan x \<and> \<not> isnan y \<and> x < y)"

definition py_le :: "pyfloat \<Rightarrow> pyfloat \<Rightarrow> bool" where
  "py_le x y = (\<not> isnan x \<and> \<not> isnan y \<and> x \<le> y)"

definition py_eq :: "pyfloat \<Rightarrow> pyfloat \<Rightarrow> bool" where
  "py_eq x y = (\<not> isnan x \<and> \<not> isnan y \<and> x = y)"

text \<open>\<open>max(x, y)\<close> keeps its first argument unless the second compares greater.\<close>

definition py_max :: "pyfloat \<Rightarrow> pyfloat \<Rightarrow> pyfloat" where
  "py_max x y = (if py_lt x y then y else x)"

text \<open>A real result, rounded; past the largest float it is an infinity.\<close>

definition of_exact :: "real \<Rightarrow> pyfloat" where
  "of_exact r = (let x = rnd r in
     if over \<le> x then PosInf else if x \<le> - over then NegInf else Fin x)"

definition py_neg :: "pyfloat \<Rightarrow> pyfloat" where
  "py_neg x = (case x of NegInf \<Rightarrow> PosInf | Fin a \<Rightarrow> Fin (- a) | PosInf \<Rightarrow> NegInf | NaN \<Rightarrow> NaN)"

fun py_add :: "pyfloat \<Rightarrow> pyfloat \<Rightarrow> pyfloat" where
  "py_add (Fin a) (Fin b) = of_exact (a + b)"
| "py_add NaN y = NaN"
| "py_add x NaN = NaN"
| "py_add PosInf NegInf = NaN"
| "py_add NegInf PosInf = NaN"
| "py_add PosInf y = PosInf"
| "py_add NegInf y = NegInf"
| "py_add x PosInf = PosInf"
| "py_add x NegInf = NegInf"

definition py_sub :: "pyfloat \<Rightarrow> pyfloat \<Rightarrow> pyfloat" where
  "py_sub x y = py_add x (py_neg y)"

fun py_mul :: "pyfloat \<Rightarrow> pyfloat \<Rightarrow> pyfloat" where
  "py_mul (Fin a) (Fin b) = of_exact (a * b)"
| "py_mul NaN y = NaN"
| "py_mul x NaN = NaN"
| "py_mul (Fin a) PosInf = (if a = 0 then NaN else if 0 < a then PosInf else NegInf)"
| "py_mul (Fin a) NegInf = (if a = 0 then NaN else if 0 < a then NegInf else PosInf)"
| "py_mul PosInf (Fin b) = (if b = 0 then NaN else if 0 < b then PosInf else NegInf)"
| "py_mul NegInf (Fin b) = (if b = 0 then NaN else if 0 < b then NegInf else PosInf)"
| "py_mul PosInf y = y"
| "py_mul NegInf y = py_neg y"


subsection \<open>Facts about the operations\<close>

lemma pf_ok_simps [simp]:
  "pf_ok PosInf" "pf_ok NegInf" "pf_ok NaN" "pf_ok (Fin r) \<longleftrightarrow> is_double r \<and> \<bar>r\<bar> < over"
  by (simp_all add: pf_ok_def)

lemma isnan_simps [simp]:
  "isnan NaN" "\<not> isnan (Fin r)" "\<not> isnan PosInf" "\<not> isnan NegInf" "isnan x \<longleftrightarrow> x = NaN"
  by (simp_all add: isnan_def split: pyfloat.splits)

lemma isfinite_iff: "isfinite x \<longleftrightarrow> (\<exists>r. x = Fin r)"
  by (simp add: isfinite_def split: pyfloat.splits)

lemma isfinite_simps [simp]:
  "isfinite (Fin r)" "\<not> isfinite PosInf" "\<not> isfinite NegInf" "\<not> isfinite NaN"
  by (simp_all add: isfinite_def)

lemma py_lt_Fin [simp]: "py_lt (Fin a) (Fin b) \<longleftrightarrow> a < b"
  by (simp add: py_lt_def)

lemma py_le_Fin [simp]: "py_le (Fin a) (Fin b) \<longleftrightarrow> a \<le> b"
  by (simp add: py_le_def)

lemma of_exact_not_NaN [simp]: "of_exact r \<noteq> NaN"
  by (simp add: of_exact_def Let_def)

lemma of_exact_ok [simp]: "pf_ok (of_exact r)"
  by (auto simp: of_exact_def Let_def not_le abs_less_iff)

lemma of_exact_id: "pf_ok (Fin a) \<Longrightarrow> of_exact a = Fin a"
  by (auto simp: of_exact_def Let_def rnd_double)

lemma of_exact_finite: "0 \<le> rnd x \<Longrightarrow> rnd x < over \<Longrightarrow> of_exact x = Fin (rnd x)"
  using over_pos(1) unfolding of_exact_def Let_def by auto

lemma of_exact_mono: "a \<le> b \<Longrightarrow> of_exact a \<le> of_exact b"
  using rnd_mono [of a b] by (auto simp: of_exact_def Let_def)

lemma of_exact_ge: "pf_ok (Fin a) \<Longrightarrow> a \<le> x \<Longrightarrow> Fin a \<le> of_exact x"
  using of_exact_mono [of a x] by (simp add: of_exact_id)

lemma of_exact_le: "pf_ok (Fin b) \<Longrightarrow> x \<le> b \<Longrightarrow> of_exact x \<le> Fin b"
  using of_exact_mono [of x b] by (simp add: of_exact_id)

lemma py_add_ok [simp]: "pf_ok (py_add x y)"
  by (cases "(x, y)" rule: py_add.cases) auto

lemma py_neg_ok [simp]: "pf_ok (py_neg x) = pf_ok x"
  by (cases x) (auto simp: py_neg_def)

lemma py_mul_ok [simp]: "pf_ok (py_mul x y)"
  by (cases "(x, y)" rule: py_mul.cases) (auto simp: py_neg_def)

text \<open>Adding a non-negative delay to a finite time never goes back and never yields NaN.\<close>

lemma py_add_forward:
  assumes "pf_ok (Fin t)" and "Fin 0 \<le> d" and "d \<noteq> NaN"
  shows "Fin t \<le> py_add (Fin t) d" and "py_add (Fin t) d \<noteq> NaN"
  using assms of_exact_ge [of t] by (cases d; auto)+

lemma py_mul_nonneg:
  assumes "0 < a" and "Fin 0 \<le> y" and "y \<noteq> NaN"
  shows "Fin 0 \<le> py_mul (Fin a) y \<and> (y \<noteq> Fin 0 \<longrightarrow> py_mul (Fin a) y \<noteq> NaN)"
  using assms of_exact_ge [of 0] by (cases y) auto

lemma py_max_eq: "x \<noteq> NaN \<Longrightarrow> y \<noteq> NaN \<Longrightarrow> py_max x y = max x y"
  by (auto simp: py_max_def py_lt_def max_def)

section \<open>The upper end of an interval drawn through rounding\<close>

text \<open>
  \<open>random.uniform(a, b)\<close> computes \<open>a + (b - a) * random()\<close> with three roundings. Its result
  does not pass \<open>b\<close>: the product with a number below one rounds to strictly less than the
  rounded width whenever that width was rounded up.
\<close>

definition tiny :: real where
  "tiny = 2 powi (- 1074)"

lemma double_multiple:
  assumes "is_double x" and "0 < x"
  shows "\<exists>N. x = of_int N * tiny"
proof -
  let ?m = "max (bexp x - 52) (- 1074)"
  let ?K = "(2::int) ^ nat (?m + 1074)"
  have "ulp x = (2::real) powi ((?m + 1074) + (- 1074))" by (simp add: ulp_def)
  also have "\<dots> = 2 powi (?m + 1074) * tiny" unfolding tiny_def by (rule power_int_add) simp
  also have "(2::real) powi (?m + 1074) = of_int ?K" by (simp add: powi_nat)
  finally have u: "ulp x = of_int ?K * tiny" .
  have "x = of_int (round_even (x / ulp x)) * ulp x"
    using assms by (simp add: is_double_def rnd_def rnd_pos_def)
  also have "\<dots> = of_int (round_even (x / ulp x) * ?K) * tiny"
    by (subst (2) u) simp
  finally show ?thesis by (rule exI)
qed

lemma rnd_subnormal_exact:
  assumes "x = of_int N * tiny" and "0 < x" and "bexp x - 52 \<le> - 1074"
  shows "rnd x = x"
proof -
  have "max (bexp x - 52) (- 1074) = - 1074" using assms(3) by (rule max_absorb2)
  then have u: "x = of_int N * ulp x" using assms(1) by (simp only: ulp_def tiny_def)
  then have "x / ulp x = of_int N"
    using ulp_pos [of x] by (metis less_irrefl nonzero_mult_div_cancel_right)
  with u assms(2) show ?thesis by (simp add: rnd_def rnd_pos_def)
qed

text \<open>A normal float times a factor of at most \<open>1 - 2^-53\<close> rounds below itself.\<close>

text \<open>Less than half a unit above a multiple of the unit, a number is rounded down to it.\<close>

lemma rnd_below_half:
  fixes M :: int
  assumes u: "u = ulp d" and d: "d = of_int M * u" and M: "2 ^ 52 + 1 \<le> (of_int M :: real)"
    and pe: "(2::real) powi bexp d = 2 ^ 52 * u"
    and lo: "of_int (M - 1) * u < z" and hi: "z < (of_int M - 1 / 2) * u"
  shows "rnd z = of_int (M - 1) * u"
proof -
  have upos: "0 < u" by (simp add: u)
  have "0 \<le> of_int (M - 1) * u" using M upos by (intro mult_nonneg_nonneg) auto
  then have zpos: "0 < z" using lo by (rule le_less_trans)
  have "2 ^ 52 * u \<le> of_int (M - 1) * u" using M upos by (intro mult_right_mono) auto
  then have "2 powi bexp d \<le> z" using lo pe by simp
  then have "(2::real) powi bexp d < 2 powi (bexp z + 1)"
    using bexp_bounds(2) [OF zpos] by simp
  then have "bexp d \<le> bexp z" by (auto dest: powi_less_cancel)
  moreover have "z < d" using hi upos by (simp add: d algebra_simps)
  then have "bexp z \<le> bexp d" using zpos by (intro bexp_mono) auto
  ultimately have uz: "ulp z = u" by (simp add: u ulp_def)
  have q: "of_int (M - 1) < z / u" "z / u < of_int M - 1 / 2"
    using lo hi upos by (simp_all add: less_divide_eq divide_less_eq)
  then have fl: "\<lfloor>z / u\<rfloor> = M - 1" by (intro floor_unique) auto
  have "z / u - of_int (M - 1) < 1 / 2"
    using q(2) unfolding of_int_diff of_int_1 by linarith
  then have "round_even (z / u) = M - 1"
    unfolding round_even_def Let_def fl by (rule if_P)
  then show ?thesis using zpos by (simp add: rnd_def rnd_pos_def uz)
qed

lemma rnd_scaled_less:
  assumes d: "is_double d" "0 < d" and normal: "- 1074 < bexp d - 52"
    and r: "0 \<le> r" "r \<le> 1 - 1 / 2 ^ 53"
  shows "rnd (d * r) < d"
proof -
  define u where "u = ulp d"
  define M where "M = round_even (d / u)"
  have u: "0 < u" by (simp add: u_def)
  have dM: "d = of_int M * u"
    using d by (simp add: is_double_def rnd_def rnd_pos_def M_def u_def)
  have "(2::real) powi bexp d = 2 powi 52 * u"
    using normal by (simp add: u_def ulp_def max_def power_int_diff)
  then have pe: "(2::real) powi bexp d = 2 ^ 52 * u" by (simp add: powi_nat)
  have "2 ^ 52 * u \<le> of_int M * u"
    using bexp_bounds(1) [OF d(2)] by (simp only: pe dM [symmetric])
  then have "(2::real) ^ 52 \<le> of_int M" using u by simp
  then have M: "(2::int) ^ 52 \<le> M"
    by (metis of_int_le_iff of_int_numeral of_int_power)
  have "d * r \<le> d * (1 - 1 / 2 ^ 53)" using r d by (intro mult_left_mono) auto
  also have "\<dots> = (of_int M - of_int M / 2 ^ 53) * u" by (simp add: dM algebra_simps)
  finally have y: "d * r \<le> (of_int M - of_int M / 2 ^ 53) * u" .
  have half: "u / 2 = 2 powi (bexp d - 53)"
    using normal by (simp add: u_def ulp_def max_def power_int_diff)
  show ?thesis
  proof (cases "M = 2 ^ 52")
    case True
    have "d * r \<le> of_int (2 ^ 53 - 1) * 2 powi (bexp d - 53)"
      using y by (simp add: True half [symmetric])
    moreover have "is_double (of_int (2 ^ 53 - 1) * 2 powi (bexp d - 53))"
      using normal by (intro is_double_scaled) auto
    ultimately have "rnd (d * r) \<le> of_int (2 ^ 53 - 1) * 2 powi (bexp d - 53)"
      by (intro rnd_le_double)
    also have "\<dots> < of_int M * u" using u by (simp add: True half [symmetric])
    finally show ?thesis by (simp only: dM [symmetric])
  next
    case False
    with M have M': "(2::int) ^ 52 + 1 \<le> M" by simp
    then have "(of_int (2 ^ 52 + 1) :: real) \<le> of_int M" by (simp only: of_int_le_iff)
    then have Mr: "(2::real) ^ 52 + 1 \<le> of_int M" by simp
    have pred: "of_int (M - 1) * u < d" using u by (simp add: dM)
    show ?thesis
    proof (cases "d * r \<le> of_int (M - 1) * u")
      case True
      have "M \<le> 2 ^ 53"
      proof -
        have "d / u \<le> of_int (2 ^ 53)"
          using bexp_bounds(2) [OF d(2)] u pe by (simp add: divide_le_eq power_int_add)
        then show ?thesis unfolding M_def by (rule round_even_le)
      qed
      then have "is_double (of_int (M - 1) * u)"
        using M normal unfolding u_def ulp_def by (intro is_double_scaled) auto
      with True have "rnd (d * r) \<le> of_int (M - 1) * u" by (intro rnd_le_double)
      with pred show ?thesis by simp
    next
      case False
      have "d * r < (of_int M - 1 / 2) * u"
      proof -
        note y
        also have "(of_int M - of_int M / 2 ^ 53) * u < (of_int M - 1 / 2) * u"
          using Mr u by (intro mult_strict_right_mono) auto
        finally show ?thesis .
      qed
      then have "rnd (d * r) = of_int (M - 1) * u"
        using False by (intro rnd_below_half [OF u_def dM Mr pe]) simp_all
      with pred show ?thesis by simp
    qed
  qed
qed


text \<open>Scaling a rounded difference of floats by less than one stays below the exact difference.\<close>

lemma rnd_scaled_width:
  assumes ab: "is_double a" "is_double b" "0 \<le> a" "a \<le> b"
    and r: "0 \<le> r" "r \<le> 1 - 1 / 2 ^ 53"
  shows "rnd (rnd (b - a) * r) \<le> b - a"
proof -
  define x where "x = b - a"
  define d where "d = rnd x"
  have x0: "0 \<le> x" using ab by (simp add: x_def)
  have d0: "0 \<le> d" using x0 by (simp add: d_def rnd_nonneg)
  have dr: "d * r \<le> d" using d0 r by (simp add: mult_left_le)
  then have td: "rnd (d * r) \<le> d" by (simp add: d_def rnd_le_double)
  show ?thesis
  proof (cases "d \<le> x")
    case True
    with td show ?thesis by (simp add: d_def x_def)
  next
    case False
    then have xd: "x < d" by simp
    then have dpos: "0 < d" and xpos: "0 < x" using x0 by (auto simp: d_def less_le)
    have normal_x: "- 1074 < bexp x - 52"
    proof (rule ccontr)
      assume "\<not> ?thesis"
      moreover obtain N where "x = of_int N * tiny"
      proof -
        have ex: "\<exists>N. c = of_int N * tiny" if "is_double c" "0 \<le> c" for c
          using that double_multiple [of c] by (cases "c = 0") (auto intro: exI [of _ 0])
        from ab ex [of a] ex [of b] obtain A B
          where "a = of_int A * tiny" "b = of_int B * tiny" by auto
        then have "x = of_int (B - A) * tiny"
          unfolding x_def by (simp only: of_int_diff left_diff_distrib)
        then show ?thesis by (rule that)
      qed
      ultimately have "rnd x = x" using xpos by (intro rnd_subnormal_exact) auto
      with xd show False by (simp add: d_def)
    qed
    have normal_d: "- 1074 < bexp d - 52"
      using normal_x bexp_mono [OF xpos, of d] xd by simp
    have less: "rnd (d * r) < d"
      by (rule rnd_scaled_less [OF _ dpos normal_d r]) (simp add: d_def)
    show ?thesis
    proof (rule ccontr)
      assume "\<not> ?thesis"
      then have "x \<le> rnd (d * r)" by (simp add: d_def x_def)
      then have "d \<le> rnd (d * r)" unfolding d_def by (intro rnd_le_double) auto
      with less show False by simp
    qed
  qed
qed

end
