(* ===== verification/Errors.thy ===== *)
theory Errors
  imports PyFloat
begin

text \<open>
  The exceptions a run can end with (\<open>src/seedloop/errors.py\<close> and the Python exceptions the
  library raises or meets), their class hierarchy, and the notes the library attaches to an
  exception that is already in flight. An exception is its kind and its notes; a user exception
  carries a tag that stands for the object. An interrupt (\<open>KeyboardInterrupt\<close>, \<open>SystemExit\<close>) and a
  \<open>CancelledError\<close> are \<open>BaseException\<close>s that are not \<open>Exception\<close>s.
\<close>

datatype exn_kind =
    SeedloopError string
  | BoundaryError string
  | DeadlockError
  | LivelockError
  | TeardownError
  | InvariantError string pyfloat
  | EntropyLeakError string
  | UsageError string
  | PyError string
  | UserError nat
  | Interrupt nat

datatype exn_note =
    AlsoFailed exn_kind  \<comment> \<open>"another after-step check also failed this step: ..."\<close>
  | Described exn_kind  \<comment> \<open>"seedloop: Type: message"\<close>
  | FailingSeed int  \<comment> \<open>"seedloop: failing seed=..."\<close>
  | ReplayHint int  \<comment> \<open>"seedloop: reproduce with seedloop.replay(scenario, seed=...)"\<close>

datatype exn = Exn (ekind: exn_kind) (enotes: "exn_note list")

definition exn :: "exn_kind \<Rightarrow> exn" where
  "exn k = Exn k []"

definition add_note :: "exn_note \<Rightarrow> exn \<Rightarrow> exn" where
  "add_note n e = Exn (ekind e) (enotes e @ [n])"

text \<open>The classes \<open>except\<close> clauses name.\<close>

datatype exn_class =
    SeedloopErrorC | BoundaryErrorC | DeadlockErrorC | LivelockErrorC | TeardownErrorC
  | InvariantErrorC | EntropyLeakErrorC | UsageErrorC | ExceptionC | BaseExceptionC

fun class_of :: "exn_kind \<Rightarrow> exn_class" where
  "class_of (SeedloopError _) = SeedloopErrorC"
| "class_of (BoundaryError _) = BoundaryErrorC"
| "class_of DeadlockError = DeadlockErrorC"
| "class_of LivelockError = LivelockErrorC"
| "class_of TeardownError = TeardownErrorC"
| "class_of (InvariantError _ _) = InvariantErrorC"
| "class_of (EntropyLeakError _) = EntropyLeakErrorC"
| "class_of (UsageError _) = UsageErrorC"
| "class_of (PyError n) = (if n = ''CancelledError'' then BaseExceptionC else ExceptionC)"
| "class_of (UserError _) = ExceptionC"
| "class_of (Interrupt _) = BaseExceptionC"

text \<open>The base class each class statement names.\<close>

fun base_class :: "exn_class \<Rightarrow> exn_class option" where
  "base_class SeedloopErrorC = Some ExceptionC"
| "base_class BoundaryErrorC = Some SeedloopErrorC"
| "base_class DeadlockErrorC = Some SeedloopErrorC"
| "base_class LivelockErrorC = Some SeedloopErrorC"
| "base_class TeardownErrorC = Some SeedloopErrorC"
| "base_class InvariantErrorC = Some SeedloopErrorC"
| "base_class EntropyLeakErrorC = Some BoundaryErrorC"
| "base_class UsageErrorC = Some SeedloopErrorC"
| "base_class ExceptionC = Some BaseExceptionC"
| "base_class BaseExceptionC = None"

fun depth :: "exn_class \<Rightarrow> nat" where
  "depth BaseExceptionC = 0"
| "depth ExceptionC = 1"
| "depth SeedloopErrorC = 2"
| "depth EntropyLeakErrorC = 4"
| "depth _ = 3"

text \<open>\<open>issubclass\<close>: a class, or one reached through base classes.\<close>

function is_subclass :: "exn_class \<Rightarrow> exn_class \<Rightarrow> bool" where
  "is_subclass c d = (c = d \<or> (case base_class c of None \<Rightarrow> False | Some b \<Rightarrow> is_subclass b d))"
  by pat_completeness auto
termination
proof (relation "measure (\<lambda>(c, d). depth c)")
  fix c d :: exn_class and b
  assume "base_class c = Some b"
  then show "((b, d), c, d) \<in> measure (\<lambda>(c, d). depth c)" by (cases c) auto
qed simp

declare is_subclass.simps [simp del]

definition isinstance_exn :: "exn \<Rightarrow> exn_class \<Rightarrow> bool" where
  "isinstance_exn e c = is_subclass (class_of (ekind e)) c"

definition is_exception :: "exn \<Rightarrow> bool" where
  "is_exception e = isinstance_exn e ExceptionC"

lemma is_subclass_eval:
  "is_subclass BaseExceptionC d = (d = BaseExceptionC)"
  "is_subclass ExceptionC d = (d = ExceptionC \<or> d = BaseExceptionC)"
  "is_subclass SeedloopErrorC d = (d \<in> {SeedloopErrorC, ExceptionC, BaseExceptionC})"
  "c \<in> {BoundaryErrorC, DeadlockErrorC, LivelockErrorC, TeardownErrorC, InvariantErrorC, UsageErrorC} \<Longrightarrow>
    is_subclass c d = (d \<in> {c, SeedloopErrorC, ExceptionC, BaseExceptionC})"
  "is_subclass EntropyLeakErrorC d =
    (d \<in> {EntropyLeakErrorC, BoundaryErrorC, SeedloopErrorC, ExceptionC, BaseExceptionC})"
proof -
  show b: "is_subclass BaseExceptionC d = (d = BaseExceptionC)"
    by (auto simp: is_subclass.simps [of BaseExceptionC])
  show e: "is_subclass ExceptionC d = (d = ExceptionC \<or> d = BaseExceptionC)"
    by (auto simp: is_subclass.simps [of ExceptionC] b)
  show s: "is_subclass SeedloopErrorC d = (d \<in> {SeedloopErrorC, ExceptionC, BaseExceptionC})"
    by (auto simp: is_subclass.simps [of SeedloopErrorC] e)
  show m: "is_subclass c d = (d \<in> {c, SeedloopErrorC, ExceptionC, BaseExceptionC})"
    if "c \<in> {BoundaryErrorC, DeadlockErrorC, LivelockErrorC, TeardownErrorC, InvariantErrorC, UsageErrorC}"
    for c d
  proof -
    have "is_subclass SeedloopErrorC d = (d \<in> {SeedloopErrorC, ExceptionC, BaseExceptionC})"
      by (auto simp: is_subclass.simps [of SeedloopErrorC] is_subclass.simps [of ExceptionC]
          is_subclass.simps [of BaseExceptionC])
    moreover have "base_class c = Some SeedloopErrorC" using that by auto
    ultimately show ?thesis by (auto simp: is_subclass.simps [of c])
  qed
  show "is_subclass EntropyLeakErrorC d =
    (d \<in> {EntropyLeakErrorC, BoundaryErrorC, SeedloopErrorC, ExceptionC, BaseExceptionC})"
    by (auto simp: is_subclass.simps [of EntropyLeakErrorC] m)
qed

text \<open>What \<open>Handle._run\<close> and \<open>Task.__step\<close> let through: \<open>KeyboardInterrupt\<close>, \<open>SystemExit\<close>.\<close>

definition is_interrupt :: "exn \<Rightarrow> bool" where
  "is_interrupt e = (case ekind e of Interrupt _ \<Rightarrow> True | _ \<Rightarrow> False)"

lemma is_exception_iff:
  "is_exception e \<longleftrightarrow> \<not> is_interrupt e \<and> ekind e \<noteq> PyError ''CancelledError''"
  by (cases "ekind e") (auto simp: is_exception_def isinstance_exn_def is_subclass_eval is_interrupt_def)

section \<open>Outcomes\<close>

text \<open>
  How a call ends: normally, with an exception, or not at all. \<open>Diverged\<close> is the value of a call
  whose loop has no end in the model; the Python call would not return.
\<close>

datatype outcome = Done | Raised exn | Diverged

text \<open>Sequencing: what follows runs only after a normal end.\<close>

definition and_then :: "'s \<times> outcome \<Rightarrow> ('s \<Rightarrow> 's \<times> outcome) \<Rightarrow> 's \<times> outcome" where
  "and_then r f = (case r of (s, Done) \<Rightarrow> f s | (s, e) \<Rightarrow> (s, e))"

lemma and_then_simps [simp]:
  "and_then (s, Done) f = f s"
  "and_then (s, Raised e) f = (s, Raised e)"
  "and_then (s, Diverged) f = (s, Diverged)"
  by (simp_all add: and_then_def)

text \<open>What every step of a sequence keeps, the sequence keeps.\<close>

lemma and_then_inv:
  "P (fst r) \<Longrightarrow> (\<And>s. P s \<Longrightarrow> P (fst (f s))) \<Longrightarrow> P (fst (and_then r f))"
  by (cases r; cases "snd r") auto

section \<open>Pickling\<close>

text \<open>
  \<open>InvariantError\<close> and \<open>EntropyLeakError\<close> define \<open>__reduce__\<close>: the class, the constructor's
  arguments, and the instance dictionary with the notes. Rebuilding calls the constructor with
  the arguments and restores the dictionary.
\<close>

datatype reduced = RedInvariant string pyfloat "exn_note list" | RedLeak string "exn_note list"

definition reduce_exn :: "exn \<Rightarrow> reduced option" where
  "reduce_exn e = (case ekind e of
     InvariantError name time \<Rightarrow> Some (RedInvariant name time (enotes e))
   | EntropyLeakError source \<Rightarrow> Some (RedLeak source (enotes e))
   | _ \<Rightarrow> None)"

fun rebuild_exn :: "reduced \<Rightarrow> exn" where
  "rebuild_exn (RedInvariant name time ns) = Exn (InvariantError name time) ns"
| "rebuild_exn (RedLeak source ns) = Exn (EntropyLeakError source) ns"

end
