(* ===== verification/Timers.thy ===== *)
theory Timers
  imports PyFloat "HOL-Library.Multiset" "HOL-Library.Product_Lexorder"
begin

text \<open>
  The timer heap \<open>_sl_timers\<close> of the loop: entries \<open>(when, seq, handle)\<close> compared as Python
  tuples. The sequence numbers are distinct, so a comparison is decided before it reaches the
  handle, and the pair \<open>(when, seq)\<close> is the key. \<open>heapq\<close> promises that \<open>heap[0]\<close> is a least
  entry, that \<open>heappush\<close> adds one entry and that \<open>heappop\<close> removes the least one: the locale
  \<open>priority_queue\<close>. The list sorted by key provides it.
\<close>

section \<open>The interface\<close>

locale priority_queue =
  fixes empty :: 'q
    and push :: "'a \<Rightarrow> 'q \<Rightarrow> 'q"
    and pop :: "'q \<Rightarrow> ('a \<times> 'q) option"
    and invar :: "'q \<Rightarrow> bool"
    and contents :: "'q \<Rightarrow> 'a multiset"
    and key :: "'a \<Rightarrow> 'k::linorder"
  assumes invar_empty: "invar empty"
    and contents_empty: "contents empty = {#}"
    and invar_push: "invar q \<Longrightarrow> invar (push x q)"
    and contents_push: "invar q \<Longrightarrow> contents (push x q) = add_mset x (contents q)"
    and pop_None: "invar q \<Longrightarrow> pop q = None \<longleftrightarrow> contents q = {#}"
    and pop_Some: "invar q \<Longrightarrow> pop q = Some (x, q') \<Longrightarrow>
      invar q' \<and> contents q = add_mset x (contents q') \<and> (\<forall>y\<in>#contents q. key x \<le> key y)"

text \<open>Popping \<open>n\<close> entries.\<close>

fun drain :: "('q \<Rightarrow> ('a \<times> 'q) option) \<Rightarrow> nat \<Rightarrow> 'q \<Rightarrow> 'a list" where
  "drain pop 0 q = []"
| "drain pop (Suc n) q = (case pop q of None \<Rightarrow> [] | Some (x, q') \<Rightarrow> x # drain pop n q')"

context priority_queue
begin

lemma drain_subset: "invar q \<Longrightarrow> x \<in> set (drain pop n q) \<Longrightarrow> x \<in># contents q"
proof (induction n arbitrary: q)
  case (Suc n)
  show ?case
  proof (cases "pop q")
    case None
    with Suc.prems show ?thesis by simp
  next
    case (Some p)
    obtain y q' where p: "pop q = Some (y, q')" using Some by (cases p) auto
    from pop_Some [OF Suc.prems(1) p] have "invar q'" "contents q = add_mset y (contents q')" by auto
    with Suc.IH [of q'] Suc.prems(2) p show ?thesis by auto
  qed
qed simp

lemma drain_sorted: "invar q \<Longrightarrow> sorted (map key (drain pop n q))"
proof (induction n arbitrary: q)
  case (Suc n)
  show ?case
  proof (cases "pop q")
    case (Some p)
    obtain x q' where p: "pop q = Some (x, q')" using Some by (cases p) auto
    from pop_Some [OF Suc.prems p] have q': "invar q'"
      and least: "\<forall>y\<in>#contents q'. key x \<le> key y" by auto
    have "\<forall>y\<in>set (drain pop n q'). key x \<le> key y" using drain_subset [OF q'] least by blast
    with Suc.IH [OF q'] p show ?thesis by simp
  qed simp
qed simp

lemma drain_all: "invar q \<Longrightarrow> n = size (contents q) \<Longrightarrow> mset (drain pop n q) = contents q"
proof (induction n arbitrary: q)
  case 0
  then show ?case by simp
next
  case (Suc n)
  then have "pop q \<noteq> None" using pop_None [of q] by auto
  then obtain x q' where p: "pop q = Some (x, q')" by auto
  from pop_Some [OF Suc.prems(1) p] have "invar q'" "contents q = add_mset x (contents q')" by auto
  with Suc p show ?case by simp
qed

end

section \<open>The timer list\<close>

type_synonym 'h timer = "pyfloat \<times> nat \<times> 'h"

definition tkey :: "'h timer \<Rightarrow> pyfloat \<times> nat" where
  "tkey t = (fst t, fst (snd t))"

definition heappush :: "'h timer \<Rightarrow> 'h timer list \<Rightarrow> 'h timer list" where
  "heappush t ts = insort_key tkey t ts"

fun heappop :: "'h timer list \<Rightarrow> ('h timer \<times> 'h timer list) option" where
  "heappop [] = None"
| "heappop (t # ts) = Some (t, ts)"

definition timers_sorted :: "'h timer list \<Rightarrow> bool" where
  "timers_sorted ts = sorted (map tkey ts)"

lemma tkey_simps [simp]: "tkey (w, s, h) = (w, s)"
  by (simp add: tkey_def)

interpretation tq: priority_queue "[]" heappush heappop timers_sorted mset tkey
proof
  fix q :: "'a timer list" and x q'
  show "timers_sorted ([] :: 'a timer list)" by (simp add: timers_sorted_def)
  show "mset [] = ({#} :: 'a timer multiset)" by simp
  assume inv: "timers_sorted q"
  show "timers_sorted (heappush x q)"
    using inv by (simp add: timers_sorted_def heappush_def sorted_insort_key)
  show "mset (heappush x q) = add_mset x (mset q)" by (simp add: heappush_def)
  show "heappop q = None \<longleftrightarrow> mset q = {#}" by (cases q) auto
  show "timers_sorted q' \<and> mset q = add_mset x (mset q') \<and> (\<forall>y\<in>#mset q. tkey x \<le> tkey y)"
    if "heappop q = Some (x, q')"
    using inv that by (cases q) (auto simp: timers_sorted_def)
qed

lemma set_heappush [simp]: "set (heappush t ts) = insert t (set ts)"
  by (simp add: heappush_def set_insort_key)

end
