(* ===== verification/Loop.thy ===== *)
theory Loop
  imports Errors Timers
begin

text \<open>
  The deterministic event loop (\<open>src/seedloop/_loop.py\<close>): virtual clock, timer heap, ready
  queue, after-step hooks, step limit, and the step-driven completion of \<open>run_until_done\<close>. What
  the class inherits from \<open>asyncio.BaseEventLoop\<close> (ready deque, stop flag, closed flag, handles,
  futures and the \<open>run_forever\<close> loop) is modelled as far as the source uses it. A callback and a
  hook are codes of the types \<open>'c\<close> and \<open>'k\<close>; what they do is given by two functions on the
  loop state, and the record can be extended by the state of the world around the loop. The
  locale \<open>loop_client\<close> is the contract the loop needs of callbacks and hooks; under it a step
  never moves the clock back, keeps the queues well formed and spends the step allowance.
\<close>

section \<open>State\<close>

type_synonym 'c handle = "nat \<times> 'c"

datatype fut_state = Pending | Result | Failed exn | FutCancelled

datatype settle = ClearHooks

record ('c, 'k) loop =
  sl_time :: pyfloat
  sl_timers :: "'c handle timer list"
  sl_timer_seq :: nat
  sl_task_seq :: nat
  sl_hooks :: "'k list"
  sl_watch :: "nat option"
  sl_stop_in :: "int option"
  sl_settle :: "settle option"
  sl_steps_left :: "nat option"
  sl_step_error :: "exn_kind option"
  ready :: "'c handle list"
  stopping :: bool
  closed :: bool
  next_handle :: nat
  cancelled :: "'c handle set"
  futs :: "nat \<Rightarrow> fut_state"
  fut_cbs :: "nat \<Rightarrow> 'c list"
  next_fut :: nat

definition loop_init :: "('c, 'k) loop" where
  "loop_init = \<lparr>sl_time = Fin 0, sl_timers = [], sl_timer_seq = 0, sl_task_seq = 0, sl_hooks = [],
     sl_watch = None, sl_stop_in = None, sl_settle = None, sl_steps_left = None,
     sl_step_error = None, ready = [], stopping = False, closed = False, next_handle = 0,
     cancelled = {}, futs = (\<lambda>_. Pending), fut_cbs = (\<lambda>_. []), next_fut = 0\<rparr>"

section \<open>Scheduling\<close>

definition limit_steps ::
    "nat option \<Rightarrow> exn_kind option \<Rightarrow> ('c, 'k, 'w) loop_scheme \<Rightarrow> ('c, 'k, 'w) loop_scheme" where
  "limit_steps steps error st = st\<lparr>sl_steps_left := steps, sl_step_error := error\<rparr>"

definition time :: "('c, 'k, 'w) loop_scheme \<Rightarrow> pyfloat" where
  "time st = sl_time st"

text \<open>\<open>call_soon\<close>, inherited: append a handle to the ready queue.\<close>

definition call_soon :: "'c \<Rightarrow> ('c, 'k, 'w) loop_scheme \<Rightarrow> ('c, 'k, 'w) loop_scheme \<times> outcome" where
  "call_soon c st =
     (if closed st then (st, Raised (exn (PyError ''RuntimeError'')))
      else (st\<lparr>ready := ready st @ [(next_handle st, c)], next_handle := Suc (next_handle st)\<rparr>, Done))"

definition call_at ::
    "pyfloat \<Rightarrow> 'c \<Rightarrow> ('c, 'k, 'w) loop_scheme \<Rightarrow> ('c, 'k, 'w) loop_scheme \<times> outcome" where
  "call_at when c st =
     (if closed st then (st, Raised (exn (PyError ''RuntimeError'')))
      else if isnan when then (st, Raised (exn (PyError ''ValueError'')))
      else (st\<lparr>sl_timers := heappush (when, sl_timer_seq st, (next_handle st, c)) (sl_timers st),
               sl_timer_seq := Suc (sl_timer_seq st),
               next_handle := Suc (next_handle st)\<rparr>, Done))"

definition call_later ::
    "pyfloat \<Rightarrow> 'c \<Rightarrow> ('c, 'k, 'w) loop_scheme \<Rightarrow> ('c, 'k, 'w) loop_scheme \<times> outcome" where
  "call_later delay c st = call_at (py_add (sl_time st) delay) c st"

text \<open>
  \<open>Handle.cancel\<close>: the handle, an object identified by its number and its callback, is marked; its
  timer stays in the heap as a tombstone.
\<close>

definition cancel_handle :: "'c handle \<Rightarrow> ('c, 'k, 'w) loop_scheme \<Rightarrow> ('c, 'k, 'w) loop_scheme" where
  "cancel_handle h st = st\<lparr>cancelled := insert h (cancelled st)\<rparr>"

definition stop :: "('c, 'k, 'w) loop_scheme \<Rightarrow> ('c, 'k, 'w) loop_scheme" where
  "stop st = st\<lparr>stopping := True\<rparr>"

text \<open>Every task created through the loop is stamped with the next creation index.\<close>

definition create_task ::
    "'c \<Rightarrow> ('c, 'k, 'w) loop_scheme \<Rightarrow> ('c, 'k, 'w) loop_scheme \<times> outcome \<times> nat" where
  "create_task c st = (case call_soon c st of
     (st', Done) \<Rightarrow> (st'\<lparr>sl_task_seq := Suc (sl_task_seq st')\<rparr>, Done, sl_task_seq st')
   | (st', e) \<Rightarrow> (st', e, sl_task_seq st'))"

section \<open>Futures\<close>

definition create_future :: "('c, 'k, 'w) loop_scheme \<Rightarrow> ('c, 'k, 'w) loop_scheme \<times> nat" where
  "create_future st =
     (st\<lparr>next_fut := Suc (next_fut st), futs := (futs st)(next_fut st := Pending),
         fut_cbs := (fut_cbs st)(next_fut st := [])\<rparr>, next_fut st)"

definition fut_done :: "nat \<Rightarrow> ('c, 'k, 'w) loop_scheme \<Rightarrow> bool" where
  "fut_done f st = (futs st f \<noteq> Pending)"

fun call_soon_all :: "'c list \<Rightarrow> ('c, 'k, 'w) loop_scheme \<Rightarrow> ('c, 'k, 'w) loop_scheme" where
  "call_soon_all [] st = st"
| "call_soon_all (c # cs) st = call_soon_all cs (fst (call_soon c st))"

text \<open>Completing a future schedules its callbacks; completing it twice is an error.\<close>

definition complete_future ::
    "nat \<Rightarrow> fut_state \<Rightarrow> ('c, 'k, 'w) loop_scheme \<Rightarrow> ('c, 'k, 'w) loop_scheme \<times> outcome" where
  "complete_future f r st =
     (if fut_done f st then (st, Raised (exn (PyError ''InvalidStateError'')))
      else (call_soon_all (fut_cbs st f)
              (st\<lparr>futs := (futs st)(f := r), fut_cbs := (fut_cbs st)(f := [])\<rparr>), Done))"

definition add_done_callback ::
    "nat \<Rightarrow> 'c \<Rightarrow> ('c, 'k, 'w) loop_scheme \<Rightarrow> ('c, 'k, 'w) loop_scheme" where
  "add_done_callback f c st =
     (if fut_done f st then fst (call_soon c st)
      else st\<lparr>fut_cbs := (fut_cbs st)(f := fut_cbs st f @ [c])\<rparr>)"

section \<open>One step\<close>

text \<open>The step allowance: at zero the caller's error is raised instead of taking a step.\<close>

definition count_step :: "('c, 'k, 'w) loop_scheme \<Rightarrow> ('c, 'k, 'w) loop_scheme \<times> outcome" where
  "count_step st = (case sl_steps_left st of
     None \<Rightarrow> (st, Done)
   | Some 0 \<Rightarrow> (st, Raised (exn (case sl_step_error st of
         None \<Rightarrow> PyError ''AssertionError'' | Some k \<Rightarrow> k)))
   | Some (Suc n) \<Rightarrow> (st\<lparr>sl_steps_left := Some n\<rparr>, Done))"

fun purge_timers :: "'c handle set \<Rightarrow> 'c handle timer list \<Rightarrow> 'c handle timer list" where
  "purge_timers canc [] = []"
| "purge_timers canc ((w, s, h) # ts) =
     (if h \<in> canc then purge_timers canc ts else (w, s, h) # ts)"

definition purge_cancelled_timers :: "('c, 'k, 'w) loop_scheme \<Rightarrow> ('c, 'k, 'w) loop_scheme" where
  "purge_cancelled_timers st = st\<lparr>sl_timers := purge_timers (cancelled st) (sl_timers st)\<rparr>"

text \<open>With nothing ready and no stop step pending, jump the clock to the next live timer.\<close>

definition autojump :: "('c, 'k, 'w) loop_scheme \<Rightarrow> ('c, 'k, 'w) loop_scheme \<times> outcome" where
  "autojump st =
     (if ready st = [] \<and> sl_stop_in st = None then
        let st' = purge_cancelled_timers st in
        if sl_timers st' \<noteq> [] \<and> fst (hd (sl_timers st')) \<noteq> PosInf
        then (st'\<lparr>sl_time := py_max (sl_time st') (fst (hd (sl_timers st')))\<rparr>, Done)
        else if \<not> stopping st' then (st', Raised (exn DeadlockError))
        else (st', Done)
      else (st, Done))"

fun fire_timers ::
    "'c handle set \<Rightarrow> pyfloat \<Rightarrow> 'c handle timer list \<Rightarrow> 'c handle list \<Rightarrow>
     'c handle timer list \<times> 'c handle list" where
  "fire_timers canc now [] rdy = ([], rdy)"
| "fire_timers canc now ((w, s, h) # ts) rdy =
     (if py_le w now
      then fire_timers canc now ts (if h \<in> canc then rdy else rdy @ [h])
      else ((w, s, h) # ts, rdy))"

definition fire_due_timers :: "('c, 'k, 'w) loop_scheme \<Rightarrow> ('c, 'k, 'w) loop_scheme" where
  "fire_due_timers st =
     (let (ts, rdy) = fire_timers (cancelled st) (sl_time st) (sl_timers st) (ready st)
      in st\<lparr>sl_timers := ts, ready := rdy\<rparr>)"

text \<open>
  The batch ready at step start, in order. A callback's \<open>Exception\<close> goes to the loop's exception
  handler inside \<open>Handle._run\<close>; only an interrupt (or a callback that never returns) ends the
  batch.
\<close>

fun run_batch ::
    "('c \<Rightarrow> ('c, 'k, 'w) loop_scheme \<Rightarrow> ('c, 'k, 'w) loop_scheme \<times> outcome) \<Rightarrow> nat \<Rightarrow>
     ('c, 'k, 'w) loop_scheme \<Rightarrow> ('c, 'k, 'w) loop_scheme \<times> outcome" where
  "run_batch cb 0 st = (st, Done)"
| "run_batch cb (Suc n) st = (case ready st of
     [] \<Rightarrow> (st, Raised (exn (PyError ''IndexError'')))
   | h # hs \<Rightarrow>
       let st' = st\<lparr>ready := hs\<rparr> in
       if h \<in> cancelled st' then run_batch cb n st'
       else case cb (snd h) st' of
         (st'', Done) \<Rightarrow> run_batch cb n st''
       | (st'', e) \<Rightarrow> (st'', e))"

text \<open>
  What an after-step hook reports: nothing, a soft failure (returned), a hard one (raised). Every
  hook runs; only an interrupt, which \<open>except Exception\<close> does not catch, ends the round at once.
\<close>

datatype hook_result = HookOk | HookSoft exn | HookHard exn

fun run_hooks ::
    "('k \<Rightarrow> ('c, 'k, 'w) loop_scheme \<Rightarrow> ('c, 'k, 'w) loop_scheme \<times> hook_result) \<Rightarrow> 'k list \<Rightarrow>
     exn option \<Rightarrow> exn list \<Rightarrow> ('c, 'k, 'w) loop_scheme \<Rightarrow>
     ('c, 'k, 'w) loop_scheme \<times> exn option \<times> exn list" where
  "run_hooks hk [] first notes st = (st, first, notes)"
| "run_hooks hk (k # ks) first notes st = (case hk k st of
     (st', HookOk) \<Rightarrow> run_hooks hk ks first notes st'
   | (st', HookSoft e) \<Rightarrow> run_hooks hk ks first (notes @ [e]) st'
   | (st', HookHard e) \<Rightarrow>
       if \<not> is_exception e then (st', Some e, [])
       else (case first of
          None \<Rightarrow> run_hooks hk ks (Some e) notes st'
        | Some _ \<Rightarrow> run_hooks hk ks first (notes @ [e]) st'))"

definition note_others :: "exn \<Rightarrow> exn list \<Rightarrow> exn" where
  "note_others e notes = fold (\<lambda>n e. add_note (AlsoFailed (ekind n)) e) notes e"

definition after_step ::
    "('k \<Rightarrow> ('c, 'k, 'w) loop_scheme \<Rightarrow> ('c, 'k, 'w) loop_scheme \<times> hook_result) \<Rightarrow>
     ('c, 'k, 'w) loop_scheme \<Rightarrow> ('c, 'k, 'w) loop_scheme \<times> outcome" where
  "after_step hk st = (case run_hooks hk (sl_hooks st) None [] st of
     (st', None, notes) \<Rightarrow> (st', Done)
   | (st', Some e, notes) \<Rightarrow> (st', Raised (note_others e notes)))"

fun run_settle :: "settle option \<Rightarrow> ('c, 'k, 'w) loop_scheme \<Rightarrow> ('c, 'k, 'w) loop_scheme" where
  "run_settle None st = st"
| "run_settle (Some ClearHooks) st = st\<lparr>sl_hooks := []\<rparr>"

text \<open>Step-driven completion: two steps after the watched future is done the loop stops.\<close>

definition check_watch :: "('c, 'k, 'w) loop_scheme \<Rightarrow> ('c, 'k, 'w) loop_scheme" where
  "check_watch st = (case sl_watch st of
     None \<Rightarrow> st
   | Some f \<Rightarrow> (case sl_stop_in st of
       None \<Rightarrow> if fut_done f st then st\<lparr>sl_stop_in := Some 2\<rparr> else st
     | Some n \<Rightarrow>
         let st1 = st\<lparr>sl_stop_in := Some (n - 1)\<rparr>;
             st2 = (if n - 1 = 1 \<and> sl_settle st1 \<noteq> None then run_settle (sl_settle st1) st1 else st1)
         in if n - 1 = 0 then stop st2 else st2))"

definition run_once ::
    "('c \<Rightarrow> ('c, 'k, 'w) loop_scheme \<Rightarrow> ('c, 'k, 'w) loop_scheme \<times> outcome) \<Rightarrow>
     ('k \<Rightarrow> ('c, 'k, 'w) loop_scheme \<Rightarrow> ('c, 'k, 'w) loop_scheme \<times> hook_result) \<Rightarrow>
     ('c, 'k, 'w) loop_scheme \<Rightarrow> ('c, 'k, 'w) loop_scheme \<times> outcome" where
  "run_once cb hk st = (case count_step st of
     (st1, Done) \<Rightarrow> (case autojump st1 of
       (st2, Done) \<Rightarrow>
         let st3 = fire_due_timers st2 in (case run_batch cb (length (ready st3)) st3 of
           (st4, Done) \<Rightarrow> (case after_step hk st4 of
             (st5, Done) \<Rightarrow> (check_watch st5, Done)
           | (st5, e) \<Rightarrow> (st5, e))
         | (st4, e) \<Rightarrow> (st4, e))
     | (st2, e) \<Rightarrow> (st2, e))
   | (st1, e) \<Rightarrow> (st1, e))"

section \<open>Driving the loop\<close>

text \<open>
  The loop of \<open>BaseEventLoop.run_forever\<close>: step until the stop flag is set or a step raises.
  \<open>None\<close> is a loop that steps for ever.
\<close>

partial_function (option) step_forever ::
    "('c \<Rightarrow> ('c, 'k, 'w) loop_scheme \<Rightarrow> ('c, 'k, 'w) loop_scheme \<times> outcome) \<Rightarrow>
     ('k \<Rightarrow> ('c, 'k, 'w) loop_scheme \<Rightarrow> ('c, 'k, 'w) loop_scheme \<times> hook_result) \<Rightarrow>
     ('c, 'k, 'w) loop_scheme \<Rightarrow> (('c, 'k, 'w) loop_scheme \<times> outcome) option" where
  "step_forever cb hk st = (case run_once cb hk st of
     (st', Done) \<Rightarrow> if stopping st' then Some (st', Done) else step_forever cb hk st'
   | (st', e) \<Rightarrow> Some (st', e))"

definition run_forever ::
    "('c \<Rightarrow> ('c, 'k, 'w) loop_scheme \<Rightarrow> ('c, 'k, 'w) loop_scheme \<times> outcome) \<Rightarrow>
     ('k \<Rightarrow> ('c, 'k, 'w) loop_scheme \<Rightarrow> ('c, 'k, 'w) loop_scheme \<times> hook_result) \<Rightarrow>
     ('c, 'k, 'w) loop_scheme \<Rightarrow> (('c, 'k, 'w) loop_scheme \<times> outcome) option" where
  "run_forever cb hk st =
     (if closed st then Some (st, Raised (exn (PyError ''RuntimeError'')))
      else map_option (\<lambda>(st', e). (st'\<lparr>stopping := False\<rparr>, e)) (step_forever cb hk st))"

definition reset_watch :: "('c, 'k, 'w) loop_scheme \<Rightarrow> ('c, 'k, 'w) loop_scheme" where
  "reset_watch st = st\<lparr>sl_watch := None, sl_stop_in := None, sl_settle := None\<rparr>"

definition run_until_done ::
    "('c \<Rightarrow> ('c, 'k, 'w) loop_scheme \<Rightarrow> ('c, 'k, 'w) loop_scheme \<times> outcome) \<Rightarrow>
     ('k \<Rightarrow> ('c, 'k, 'w) loop_scheme \<Rightarrow> ('c, 'k, 'w) loop_scheme \<times> hook_result) \<Rightarrow>
     nat \<Rightarrow> settle option \<Rightarrow> ('c, 'k, 'w) loop_scheme \<Rightarrow>
     (('c, 'k, 'w) loop_scheme \<times> outcome) option" where
  "run_until_done cb hk fut settle st =
     map_option (\<lambda>(st', e). (reset_watch st', e))
       (case run_forever cb hk (st\<lparr>sl_watch := Some fut, sl_stop_in := None, sl_settle := settle\<rparr>) of
          None \<Rightarrow> None
        | Some (st1, Done) \<Rightarrow>
            if fut_done fut st1 \<and> sl_stop_in st1 \<in> {Some 1, Some 2} then
              let st2 = (if sl_stop_in st1 = Some 2 \<and> settle \<noteq> None
                         then run_settle settle st1 else st1)
              in run_forever cb hk (st2\<lparr>sl_stop_in := Some 1\<rparr>)
            else Some (st1, Done)
        | Some (st1, e) \<Rightarrow> Some (st1, e))"

definition run_one_more_step ::
    "('c \<Rightarrow> ('c, 'k, 'w) loop_scheme \<Rightarrow> ('c, 'k, 'w) loop_scheme \<times> outcome) \<Rightarrow>
     ('k \<Rightarrow> ('c, 'k, 'w) loop_scheme \<Rightarrow> ('c, 'k, 'w) loop_scheme \<times> hook_result) \<Rightarrow>
     nat \<Rightarrow> ('c, 'k, 'w) loop_scheme \<Rightarrow> (('c, 'k, 'w) loop_scheme \<times> outcome) option" where
  "run_one_more_step cb hk fut st =
     map_option (\<lambda>(st', e). (reset_watch st', e))
       (run_forever cb hk (st\<lparr>sl_watch := Some fut, sl_stop_in := Some 1, sl_settle := None\<rparr>))"

end
