(* ===== verification/Loop_Facts.thy ===== *)
theory Loop_Facts
  imports Loop
begin

text \<open>
  What the loop guarantees: well-formedness of clock, heap and queues; timers fire in
  \<open>(when, seq)\<close> order and none is skipped; the clock never moves back and jumps exactly to the
  earliest live deadline; a quiescent loop is a deadlock; the batch is first-in first-out; a hard
  hook failure always wins; the two stop steps never move the clock; a step allowance ends every
  drive.
\<close>

section \<open>Well-formedness\<close>

text \<open>
  The clock is a finite non-negative float; the heap is ordered by \<open>(when, seq)\<close>, its sequence
  numbers are distinct and below the next one, and no deadline is NaN.
\<close>

definition clock_ok :: "pyfloat \<Rightarrow> bool" where
  "clock_ok t = (pf_ok t \<and> isfinite t \<and> Fin 0 \<le> t)"

definition timers_ok :: "nat \<Rightarrow> 'h timer list \<Rightarrow> bool" where
  "timers_ok n ts = (timers_sorted ts \<and> distinct (map (\<lambda>t. fst (snd t)) ts) \<and>
     (\<forall>t\<in>set ts. fst (snd t) < n \<and> fst t \<noteq> NaN \<and> pf_ok (fst t)))"

definition loop_ok :: "('c, 'k, 'w) loop_scheme \<Rightarrow> bool" where
  "loop_ok st = (clock_ok (sl_time st) \<and> timers_ok (sl_timer_seq st) (sl_timers st))"

lemma loop_ok_init: "loop_ok loop_init"
  by (simp add: loop_ok_def loop_init_def clock_ok_def timers_ok_def timers_sorted_def)

lemma timers_ok_push:
  assumes "timers_ok n ts" and "w \<noteq> NaN" and "pf_ok w"
  shows "timers_ok (Suc n) (heappush (w, n, h) ts)"
proof -
  have "sorted (map tkey (heappush (w, n, h) ts))"
    using assms(1) tq.invar_push [of ts "(w, n, h)"] by (simp add: timers_ok_def timers_sorted_def)
  moreover have "distinct (map (\<lambda>t. fst (snd t)) (heappush (w, n, h) ts))"
  proof -
    have "mset (map (\<lambda>t. fst (snd t)) (heappush (w, n, h) ts)) = mset (n # map (\<lambda>t. fst (snd t)) ts)"
      by (simp add: heappush_def)
    moreover have "distinct (n # map (\<lambda>t. fst (snd t)) ts)"
      using assms(1) by (auto simp: timers_ok_def)
    ultimately show ?thesis by (metis mset_eq_imp_distinct_iff)
  qed
  ultimately show ?thesis using assms by (auto simp: timers_ok_def timers_sorted_def)
qed

lemma timers_ok_suffix: "timers_ok n (xs @ ys) \<Longrightarrow> timers_ok n ys"
  by (auto simp: timers_ok_def timers_sorted_def sorted_append)

lemma timers_ok_mono: "timers_ok n ts \<Longrightarrow> n \<le> m \<Longrightarrow> timers_ok m ts"
  by (auto simp: timers_ok_def)

text \<open>Clock arithmetic: a jump to a deadline that is neither NaN nor infinite keeps a clock.\<close>

lemma clock_ok_jump:
  assumes "clock_ok t" and "w \<noteq> NaN" and "w \<noteq> PosInf" and "pf_ok w"
  shows "clock_ok (py_max t w)" and "t \<le> py_max t w" and "py_max t w = max t w"
proof -
  obtain r where r: "t = Fin r" "0 \<le> r" using assms(1) by (auto simp: clock_ok_def isfinite_iff)
  show m: "py_max t w = max t w" using assms r by (intro py_max_eq) auto
  show "t \<le> py_max t w" unfolding m by simp
  show "clock_ok (py_max t w)"
    using assms r unfolding m by (cases w) (auto simp: clock_ok_def max_def)
qed

lemma clock_not_NaN: "clock_ok t \<Longrightarrow> t \<noteq> NaN"
  by (auto simp: clock_ok_def)

lemma clock_okE: "clock_ok t \<Longrightarrow> (\<And>r. t = Fin r \<Longrightarrow> 0 \<le> r \<Longrightarrow> pf_ok (Fin r) \<Longrightarrow> P) \<Longrightarrow> P"
  by (cases t) (auto simp: clock_ok_def)

section \<open>Scheduling operations\<close>

lemma call_soon_frame [frame_simps]:
  "sl_time (fst (call_soon c st)) = sl_time st"
  "sl_timers (fst (call_soon c st)) = sl_timers st"
  "sl_timer_seq (fst (call_soon c st)) = sl_timer_seq st"
  "sl_steps_left (fst (call_soon c st)) = sl_steps_left st"
  "sl_stop_in (fst (call_soon c st)) = sl_stop_in st"
  "sl_watch (fst (call_soon c st)) = sl_watch st"
  "sl_hooks (fst (call_soon c st)) = sl_hooks st"
  "cancelled (fst (call_soon c st)) = cancelled st"
  "loop.more (fst (call_soon c st)) = loop.more st"
  by (simp_all add: call_soon_def)

lemma call_soon_all_frame [frame_simps]:
  "sl_time (call_soon_all cs st) = sl_time st"
  "sl_timers (call_soon_all cs st) = sl_timers st"
  "sl_timer_seq (call_soon_all cs st) = sl_timer_seq st"
  "sl_steps_left (call_soon_all cs st) = sl_steps_left st"
  "sl_stop_in (call_soon_all cs st) = sl_stop_in st"
  "sl_watch (call_soon_all cs st) = sl_watch st"
  "sl_hooks (call_soon_all cs st) = sl_hooks st"
  "cancelled (call_soon_all cs st) = cancelled st"
  "loop.more (call_soon_all cs st) = loop.more st"
  by (induction cs arbitrary: st) (simp_all add: frame_simps)

lemma complete_future_frame [frame_simps]:
  "sl_time (fst (complete_future f r st)) = sl_time st"
  "sl_timers (fst (complete_future f r st)) = sl_timers st"
  "sl_timer_seq (fst (complete_future f r st)) = sl_timer_seq st"
  "sl_steps_left (fst (complete_future f r st)) = sl_steps_left st"
  "sl_stop_in (fst (complete_future f r st)) = sl_stop_in st"
  "sl_watch (fst (complete_future f r st)) = sl_watch st"
  "sl_hooks (fst (complete_future f r st)) = sl_hooks st"
  "cancelled (fst (complete_future f r st)) = cancelled st"
  "loop.more (fst (complete_future f r st)) = loop.more st"
  by (simp_all add: complete_future_def frame_simps)

lemma add_done_callback_frame [frame_simps]:
  "sl_time (add_done_callback f c st) = sl_time st"
  "sl_timers (add_done_callback f c st) = sl_timers st"
  "sl_timer_seq (add_done_callback f c st) = sl_timer_seq st"
  "sl_steps_left (add_done_callback f c st) = sl_steps_left st"
  "sl_stop_in (add_done_callback f c st) = sl_stop_in st"
  "sl_watch (add_done_callback f c st) = sl_watch st"
  "sl_hooks (add_done_callback f c st) = sl_hooks st"
  "cancelled (add_done_callback f c st) = cancelled st"
  "loop.more (add_done_callback f c st) = loop.more st"
  by (simp_all add: add_done_callback_def frame_simps)

lemma call_at_frame [frame_simps]:
  "sl_time (fst (call_at w c st)) = sl_time st"
  "sl_steps_left (fst (call_at w c st)) = sl_steps_left st"
  "sl_stop_in (fst (call_at w c st)) = sl_stop_in st"
  "sl_watch (fst (call_at w c st)) = sl_watch st"
  "sl_hooks (fst (call_at w c st)) = sl_hooks st"
  "ready (fst (call_at w c st)) = ready st"
  "cancelled (fst (call_at w c st)) = cancelled st"
  "loop.more (fst (call_at w c st)) = loop.more st"
  by (simp_all add: call_at_def)

lemma ready_call_soon: "\<exists>hs. ready (fst (call_soon c st)) = ready st @ hs"
  by (simp add: call_soon_def)

lemma ready_call_soon_all: "\<exists>hs. ready (call_soon_all cs st) = ready st @ hs"
proof (induction cs arbitrary: st)
  case (Cons c cs)
  from ready_call_soon [of c st] Cons.IH [of "fst (call_soon c st)"] show ?case by fastforce
qed simp

lemma ready_complete_future: "\<exists>hs. ready (fst (complete_future f r st)) = ready st @ hs"
  using ready_call_soon_all [of "fut_cbs st f" "st\<lparr>futs := (futs st)(f := r), fut_cbs := (fut_cbs st)(f := [])\<rparr>"]
  by (simp add: complete_future_def)

lemma ready_add_done_callback: "\<exists>hs. ready (add_done_callback f c st) = ready st @ hs"
  using ready_call_soon [of c st] by (simp add: add_done_callback_def)

lemma loop_ok_call_at [inv_intros]:
  "loop_ok st \<Longrightarrow> pf_ok w \<Longrightarrow> loop_ok (fst (call_at w c st))"
  by (auto simp: loop_ok_def call_at_def intro: timers_ok_push)

lemma loop_ok_call_later [inv_intros]:
  "loop_ok st \<Longrightarrow> loop_ok (fst (call_later d c st))"
  unfolding call_later_def by (rule loop_ok_call_at) simp_all

text \<open>An invariant that only reads the clock, the heap and its counter.\<close>

lemma loop_ok_cong:
  "sl_time st' = sl_time st \<Longrightarrow> sl_timers st' = sl_timers st \<Longrightarrow> sl_timer_seq st' = sl_timer_seq st \<Longrightarrow>
    loop_ok st' = loop_ok st"
  by (simp add: loop_ok_def)

section \<open>The parts of a step\<close>

lemma purge_timers_dropWhile:
  "purge_timers canc ts = dropWhile (\<lambda>t. snd (snd t) \<in> canc) ts"
  by (induction canc ts rule: purge_timers.induct) auto

lemma purge_timers_suffix: "\<exists>xs. ts = xs @ purge_timers canc ts \<and> (\<forall>t\<in>set xs. snd (snd t) \<in> canc)"
  unfolding purge_timers_dropWhile
  by (rule exI [of _ "takeWhile (\<lambda>t. snd (snd t) \<in> canc) ts"]) (auto dest: set_takeWhileD)

lemma count_step_frame [frame_simps]:
  "sl_time (fst (count_step st)) = sl_time st"
  "sl_timers (fst (count_step st)) = sl_timers st"
  "sl_timer_seq (fst (count_step st)) = sl_timer_seq st"
  "sl_stop_in (fst (count_step st)) = sl_stop_in st"
  "sl_watch (fst (count_step st)) = sl_watch st"
  "sl_hooks (fst (count_step st)) = sl_hooks st"
  "ready (fst (count_step st)) = ready st"
  "cancelled (fst (count_step st)) = cancelled st"
  "loop.more (fst (count_step st)) = loop.more st"
  by (simp_all add: count_step_def split: option.splits nat.splits)

lemma loop_ok_count_step [inv_intros]: "loop_ok st \<Longrightarrow> loop_ok (fst (count_step st))"
  by (simp add: loop_ok_def frame_simps)

lemma timers_ok_purge: "timers_ok n ts \<Longrightarrow> timers_ok n (purge_timers canc ts)"
  using purge_timers_suffix [of ts canc] by (metis timers_ok_suffix)

lemma loop_ok_autojump [inv_intros]: "loop_ok st \<Longrightarrow> loop_ok (fst (autojump st))"
proof -
  assume ok: "loop_ok st"
  let ?ts = "purge_timers (cancelled st) (sl_timers st)"
  have ts: "timers_ok (sl_timer_seq st) ?ts"
    using ok by (simp add: loop_ok_def timers_ok_purge)
  have "clock_ok (py_max (sl_time st) (fst (hd ?ts)))" if "?ts \<noteq> []" "fst (hd ?ts) \<noteq> PosInf"
    using that ok ts by (intro clock_ok_jump) (auto simp: loop_ok_def timers_ok_def)
  with ok ts show ?thesis
    by (auto simp: autojump_def purge_cancelled_timers_def loop_ok_def Let_def)
qed

text \<open>
  Firing: the live timers that are due move to the end of the ready queue, in heap order, and
  exactly the timers that are not due stay.
\<close>

lemma fire_timers_spec:
  assumes "sorted (map tkey ts)" and "\<forall>t\<in>set ts. fst t \<noteq> NaN" and "now \<noteq> NaN"
  shows "fire_timers canc now ts rdy =
    (filter (\<lambda>t. \<not> fst t \<le> now) ts,
     rdy @ map (\<lambda>t. snd (snd t)) (filter (\<lambda>t. fst t \<le> now \<and> snd (snd t) \<notin> canc) ts))"
  using assms
proof (induction canc now ts rdy rule: fire_timers.induct)
  case (2 canc now w s h ts rdy)
  show ?case
  proof (cases "w \<le> now")
    case True
    then have "py_le w now" using "2.prems" by (auto simp: py_le_def)
    with 2 True show ?thesis by auto
  next
    case False
    have "\<forall>t\<in>set ts. \<not> fst t \<le> now"
    proof
      fix t
      assume "t \<in> set ts"
      then have "(w, s) \<le> tkey t" using "2.prems"(1) by auto
      then have "w \<le> fst t" by (cases t) auto
      with False show "\<not> fst t \<le> now" by auto
    qed
    moreover have "\<not> py_le w now" using False by (simp add: py_le_def)
    ultimately show ?thesis using False by (simp add: filter_empty_conv)
  qed
qed simp

lemma loop_ok_sorted: "loop_ok st \<Longrightarrow> sorted (map tkey (sl_timers st))"
  by (simp add: loop_ok_def timers_ok_def timers_sorted_def)

lemma fire_due_timers_eq:
  assumes "loop_ok st"
  shows "fire_due_timers st = st\<lparr>
      sl_timers := filter (\<lambda>t. \<not> fst t \<le> sl_time st) (sl_timers st),
      ready := ready st @ map (\<lambda>t. snd (snd t))
        (filter (\<lambda>t. fst t \<le> sl_time st \<and> snd (snd t) \<notin> cancelled st) (sl_timers st))\<rparr>"
proof -
  have "\<forall>t\<in>set (sl_timers st). fst t \<noteq> NaN" and "sl_time st \<noteq> NaN"
    using assms by (auto simp: loop_ok_def timers_ok_def clock_not_NaN)
  with assms show ?thesis
    by (simp add: fire_due_timers_def fire_timers_spec loop_ok_sorted)
qed

lemma timers_ok_filter: "timers_ok n ts \<Longrightarrow> timers_ok n (filter P ts)"
  by (auto simp: timers_ok_def timers_sorted_def distinct_map_filter sorted_filter
      distinct_map inj_on_def)

lemma loop_ok_fire_due [inv_intros]: "loop_ok st \<Longrightarrow> loop_ok (fire_due_timers st)"
  by (simp add: fire_due_timers_eq) (simp add: loop_ok_def timers_ok_filter)

lemma fire_due_frame [frame_simps]:
  "sl_time (fire_due_timers st) = sl_time st"
  "sl_timer_seq (fire_due_timers st) = sl_timer_seq st"
  "sl_steps_left (fire_due_timers st) = sl_steps_left st"
  "sl_stop_in (fire_due_timers st) = sl_stop_in st"
  "sl_watch (fire_due_timers st) = sl_watch st"
  "sl_hooks (fire_due_timers st) = sl_hooks st"
  "cancelled (fire_due_timers st) = cancelled st"
  "loop.more (fire_due_timers st) = loop.more st"
  by (simp_all add: fire_due_timers_def split: prod.splits)

lemma autojump_frame [frame_simps]:
  "sl_timer_seq (fst (autojump st)) = sl_timer_seq st"
  "sl_steps_left (fst (autojump st)) = sl_steps_left st"
  "sl_stop_in (fst (autojump st)) = sl_stop_in st"
  "sl_watch (fst (autojump st)) = sl_watch st"
  "sl_hooks (fst (autojump st)) = sl_hooks st"
  "ready (fst (autojump st)) = ready st"
  "cancelled (fst (autojump st)) = cancelled st"
  "loop.more (fst (autojump st)) = loop.more st"
  by (simp_all add: autojump_def purge_cancelled_timers_def Let_def)

lemma check_watch_frame [frame_simps]:
  "sl_time (check_watch st) = sl_time st"
  "sl_timers (check_watch st) = sl_timers st"
  "sl_timer_seq (check_watch st) = sl_timer_seq st"
  "sl_steps_left (check_watch st) = sl_steps_left st"
  "ready (check_watch st) = ready st"
  "cancelled (check_watch st) = cancelled st"
  "loop.more (check_watch st) = loop.more st"
proof -
  have s: "sl_time (run_settle s st) = sl_time st" "sl_timers (run_settle s st) = sl_timers st"
    "sl_timer_seq (run_settle s st) = sl_timer_seq st"
    "sl_steps_left (run_settle s st) = sl_steps_left st" "ready (run_settle s st) = ready st"
    "cancelled (run_settle s st) = cancelled st" "loop.more (run_settle s st) = loop.more st"
    for s and st :: "('a, 'b, 'c) loop_scheme"
    by (cases "(s, st)" rule: run_settle.cases; simp)+
  show "sl_time (check_watch st) = sl_time st"
    "sl_timers (check_watch st) = sl_timers st"
    "sl_timer_seq (check_watch st) = sl_timer_seq st"
    "sl_steps_left (check_watch st) = sl_steps_left st"
    "ready (check_watch st) = ready st"
    "cancelled (check_watch st) = cancelled st"
    "loop.more (check_watch st) = loop.more st"
    by (simp_all add: check_watch_def stop_def Let_def s split: option.splits)
qed

lemma loop_ok_check_watch [inv_intros]: "loop_ok st \<Longrightarrow> loop_ok (check_watch st)"
  by (simp add: loop_ok_def frame_simps)


lemma run_batch_step:
  assumes "ready st = h # hs" and "cb (snd h) (st\<lparr>ready := hs\<rparr>) = (st', e)"
  shows "run_batch cb (Suc n) st =
    (if h \<in> cancelled st then run_batch cb n (st\<lparr>ready := hs\<rparr>)
     else if e = Done then run_batch cb n st' else (st', e))"
  using assms by (cases e) (simp_all add: Let_def)

text \<open>What running out of steps raises.\<close>

definition step_kind :: "('c, 'k, 'w) loop_scheme \<Rightarrow> exn_kind" where
  "step_kind st = (case sl_step_error st of None \<Rightarrow> PyError ''AssertionError'' | Some k \<Rightarrow> k)"

section \<open>The contract of callbacks and hooks\<close>

text \<open>
  What the loop relies on when it calls out, for an invariant \<open>inv\<close> of the whole state: callbacks
  and hooks keep the invariant, do not touch the clock, the step allowance or the completion
  counter, and only add to the ready queue; and the loop's own bookkeeping keeps the invariant.
\<close>

locale loop_client =
  fixes cb :: "'c \<Rightarrow> ('c, 'k, 'w) loop_scheme \<Rightarrow> ('c, 'k, 'w) loop_scheme \<times> outcome"
    and hk :: "'k \<Rightarrow> ('c, 'k, 'w) loop_scheme \<Rightarrow> ('c, 'k, 'w) loop_scheme \<times> hook_result"
    and inv :: "('c, 'k, 'w) loop_scheme \<Rightarrow> bool"
  assumes inv_loop: "inv st \<Longrightarrow> loop_ok st"
    and inv_count: "inv st \<Longrightarrow> inv (fst (count_step st))"
    and inv_jump: "inv st \<Longrightarrow> inv (fst (autojump st))"
    and inv_fire: "inv st \<Longrightarrow> inv (fire_due_timers st)"
    and inv_watch: "inv st \<Longrightarrow> inv (check_watch st)"
    and inv_ctl: "inv st \<Longrightarrow> inv (st\<lparr>stopping := b, sl_watch := x, sl_stop_in := y, sl_settle := z\<rparr>)"
    and inv_settle: "inv st \<Longrightarrow> inv (run_settle s st)"
    and inv_skip: "inv st \<Longrightarrow> ready st = h # hs \<Longrightarrow> h \<in> cancelled st \<Longrightarrow> inv (st\<lparr>ready := hs\<rparr>)"
    and cb_inv: "inv st \<Longrightarrow> ready st = h # hs \<Longrightarrow> h \<notin> cancelled st \<Longrightarrow>
      inv (fst (cb (snd h) (st\<lparr>ready := hs\<rparr>)))"
    and cb_time: "sl_time (fst (cb c st)) = sl_time st"
    and cb_steps: "sl_steps_left (fst (cb c st)) = sl_steps_left st"
    and cb_stop_in: "sl_stop_in (fst (cb c st)) = sl_stop_in st"
    and cb_ready: "\<exists>hs. ready (fst (cb c st)) = ready st @ hs"
    and hk_inv: "inv st \<Longrightarrow> k \<in> set (sl_hooks st) \<Longrightarrow> inv (fst (hk k st))"
    and hk_hooks: "sl_hooks (fst (hk k st)) = sl_hooks st"
    and hk_time: "sl_time (fst (hk k st)) = sl_time st"
    and hk_steps: "sl_steps_left (fst (hk k st)) = sl_steps_left st"
    and hk_stop_in: "sl_stop_in (fst (hk k st)) = sl_stop_in st"

context loop_client
begin

lemma cb_facts:
  assumes "cb c st = (st', e)"
  shows "sl_time st' = sl_time st" "sl_steps_left st' = sl_steps_left st"
    "sl_stop_in st' = sl_stop_in st" "\<exists>hs. ready st' = ready st @ hs"
  using assms cb_time [of c st] cb_steps [of c st] cb_stop_in [of c st] cb_ready [of c st] by auto

lemma run_batch_facts:
  assumes "n \<le> length (ready st)"
  shows "(inv st \<longrightarrow> inv (fst (run_batch cb n st))) \<and>
    sl_time (fst (run_batch cb n st)) = sl_time st \<and>
    sl_steps_left (fst (run_batch cb n st)) = sl_steps_left st \<and>
    sl_stop_in (fst (run_batch cb n st)) = sl_stop_in st"
  using assms
proof (induction n arbitrary: st)
  case (Suc n)
  then obtain h hs where r: "ready st = h # hs" by (cases "ready st") auto
  let ?st = "st\<lparr>ready := hs\<rparr>"
  have n: "n \<le> length (ready ?st)" using Suc.prems r by simp
  obtain st' e where c: "cb (snd h) ?st = (st', e)" by fastforce
  note f = cb_facts [OF c]
  have n': "n \<le> length (ready st')" using n f(4) by auto
  have i: "inv st \<Longrightarrow> h \<notin> cancelled st \<Longrightarrow> inv st'" using cb_inv [of st h hs] r c by auto
  note IH = Suc.IH [OF n] Suc.IH [OF n']
  show ?case
    unfolding run_batch_step [where cb = cb, OF r c]
    using IH f(1-3) i inv_skip [of st h hs] r by simp
qed simp

text \<open>
  The batch never finds its queue empty, so the \<open>IndexError\<close> of \<open>popleft\<close> cannot occur: what
  ends a batch early is what a callback reported.
\<close>

lemma run_batch_raises:
  assumes "n \<le> length (ready st)" and "run_batch cb n st = (st', e)" and "e \<noteq> Done"
  shows "\<exists>c s s'. cb c s = (s', e)"
  using assms
proof (induction n arbitrary: st)
  case (Suc n)
  then obtain h hs where r: "ready st = h # hs" by (cases "ready st") auto
  let ?st = "st\<lparr>ready := hs\<rparr>"
  have n: "n \<le> length (ready ?st)" using Suc.prems r by simp
  obtain s e' where c: "cb (snd h) ?st = (s, e')" by fastforce
  have n': "n \<le> length (ready s)" using n cb_facts(4) [OF c] by auto
  show ?case
    using Suc.IH [OF n] Suc.IH [OF n'] Suc.prems(2,3) c
    unfolding run_batch_step [where cb = cb, OF r c] by (auto split: if_splits)
qed simp

lemma run_hooks_facts:
  assumes "run_hooks hk ks first nts st = (st', first', nts')" and "set ks \<subseteq> set (sl_hooks st)"
  shows "(inv st \<longrightarrow> inv st') \<and> sl_time st' = sl_time st \<and>
    sl_steps_left st' = sl_steps_left st \<and> sl_stop_in st' = sl_stop_in st"
  using assms
proof (induction ks arbitrary: first nts st)
  case (Cons k ks)
  obtain s r where h: "hk k st = (s, r)" by fastforce
  have f: "inv st \<Longrightarrow> inv s" "sl_time s = sl_time st" "sl_steps_left s = sl_steps_left st"
    "sl_stop_in s = sl_stop_in st" and hs: "set ks \<subseteq> set (sl_hooks s)"
    using h hk_inv [of st k] hk_time [of k st] hk_steps [of k st] hk_stop_in [of k st] hk_hooks [of k st] Cons.prems(2)
    by auto
  show ?case
  proof (cases "\<exists>e. r = HookHard e \<and> \<not> is_exception e")
    case True
    then have "st' = s" using Cons.prems(1) h by auto
    with f show ?thesis by simp
  next
    case False
    with Cons.prems(1) h obtain f1 n1 where "run_hooks hk ks f1 n1 s = (st', first', nts')"
      by (auto split: hook_result.splits option.splits)
    from Cons.IH [OF this hs] f show ?thesis by simp
  qed
qed simp

lemma after_step_facts:
  assumes "after_step hk st = (st', e)"
  shows "inv st \<Longrightarrow> inv st'" "sl_time st' = sl_time st"
    "sl_steps_left st' = sl_steps_left st" "sl_stop_in st' = sl_stop_in st" "e \<noteq> Diverged"
proof -
  obtain first nts where r: "run_hooks hk (sl_hooks st) None [] st = (st', first, nts)"
    using assms by (auto simp: after_step_def split: prod.splits option.splits)
  from run_hooks_facts [OF r subset_refl] show "inv st \<Longrightarrow> inv st'" "sl_time st' = sl_time st"
    "sl_steps_left st' = sl_steps_left st" "sl_stop_in st' = sl_stop_in st" by auto
  show "e \<noteq> Diverged" using assms r by (auto simp: after_step_def split: option.splits)
qed

text \<open>One step, whatever its outcome.\<close>

lemma run_once_facts:
  assumes inv: "inv st" and step: "run_once cb hk st = (st', e)"
  shows "inv st'" and "sl_time st \<le> sl_time st'"
    and "sl_steps_left st' = sl_steps_left (fst (count_step st))"
    and "sl_stop_in st \<noteq> None \<Longrightarrow> sl_time st' = sl_time st"
proof -
  obtain st1 e1 where s1: "count_step st = (st1, e1)" by fastforce
  have f1: "inv st1" "sl_time st1 = sl_time st" "sl_stop_in st1 = sl_stop_in st"
    using inv_count [OF inv] count_step_frame [of st] s1 by auto
  obtain st2 e2 where s2: "autojump st1 = (st2, e2)" by fastforce
  have f2: "inv st2" "sl_steps_left st2 = sl_steps_left st1" "sl_stop_in st2 = sl_stop_in st1"
    using inv_jump [OF f1(1)] autojump_frame [of st1] s2 by auto
  have t2: "sl_time st1 \<le> sl_time st2"
  proof -
    have "sl_time st1 \<le> py_max (sl_time st1) w" for w by (auto simp: py_max_def py_lt_def)
    then show ?thesis
      using s2 by (auto simp: autojump_def purge_cancelled_timers_def Let_def split: if_splits)
  qed
  have t2': "sl_stop_in st1 \<noteq> None \<Longrightarrow> sl_time st2 = sl_time st1"
    using s2 by (auto simp: autojump_def split: if_splits)
  define st3 where "st3 = fire_due_timers st2"
  have f3: "inv st3" "sl_time st3 = sl_time st2" "sl_steps_left st3 = sl_steps_left st2"
    using inv_fire [OF f2(1)] by (auto simp: st3_def frame_simps)
  obtain st4 e4 where s4: "run_batch cb (length (ready st3)) st3 = (st4, e4)" by fastforce
  have f4: "inv st4" "sl_time st4 = sl_time st3" "sl_steps_left st4 = sl_steps_left st3"
    using run_batch_facts [of "length (ready st3)" st3] s4 f3 by auto
  obtain st5 e5 where s5: "after_step hk st4 = (st5, e5)" by fastforce
  note f5 = after_step_facts [OF s5]
  note w = inv_watch [of st5] check_watch_frame [of st5]
  have res: "st' = st1 \<or> st' = st2 \<and> e1 = Done \<or> st' = st4 \<and> e1 = Done \<or> st' = st5 \<and> e1 = Done \<or>
      st' = check_watch st5 \<and> e1 = Done"
    using step s1 s2 s4 s5 by (auto simp: run_once_def st3_def [symmetric] split: outcome.splits)
  show "inv st'" using res f1 f2 f3 f4 f5(1) w by auto
  show "sl_time st \<le> sl_time st'" using res f1 t2 f3 f4 f5(2) w by auto
  show "sl_steps_left st' = sl_steps_left (fst (count_step st))"
    using res s1 f2 f3 f4 f5(3) w by auto
  show "sl_stop_in st \<noteq> None \<Longrightarrow> sl_time st' = sl_time st"
    using res f1 t2' f3 f4 f5(2) w by auto
qed

text \<open>A drive with a step allowance returns: by the time the allowance is spent at the latest.\<close>

lemma step_forever_returns:
  assumes "inv st" and "sl_steps_left st = Some n"
  shows "\<exists>r. step_forever cb hk st = Some r"
  using assms
proof (induction n arbitrary: st)
  case 0
  then have "run_once cb hk st = (st, Raised (exn (case sl_step_error st of
      None \<Rightarrow> PyError ''AssertionError'' | Some k \<Rightarrow> k)))"
    by (simp add: run_once_def count_step_def)
  then show ?case by (subst step_forever.simps) simp
next
  case (Suc n)
  obtain st' e where s: "run_once cb hk st = (st', e)" by fastforce
  have "inv st'" by (rule run_once_facts(1) [OF Suc.prems(1) s])
  moreover have "sl_steps_left st' = Some n"
    using run_once_facts(3) [OF Suc.prems(1) s] Suc.prems(2) by (simp add: count_step_def)
  ultimately have "\<exists>r. step_forever cb hk st' = Some r" by (rule Suc.IH)
  with s show ?case by (subst step_forever.simps) (cases e; simp)
qed

lemma run_forever_returns:
  "inv st \<Longrightarrow> sl_steps_left st = Some n \<Longrightarrow> \<exists>r. run_forever cb hk st = Some r"
  using step_forever_returns [of st n] by (auto simp: run_forever_def)

lemma step_forever_facts:
  assumes "step_forever cb hk st = Some r"
  shows "inv st \<longrightarrow> inv (fst r) \<and> sl_time st \<le> sl_time (fst r)"
proof (rule step_forever.raw_induct [where P = "\<lambda>cb' hk' st r. cb' = cb \<and> hk' = hk \<longrightarrow> inv st \<longrightarrow>
    inv (fst r) \<and> sl_time st \<le> sl_time (fst r)", THEN mp, OF _ assms])
  fix f cb' hk' st r
  assume IH: "\<And>cb' hk' st r. f cb' hk' st = Some r \<Longrightarrow> cb' = cb \<and> hk' = hk \<longrightarrow> inv st \<longrightarrow>
      inv (fst r) \<and> sl_time st \<le> sl_time (fst r)"
    and eq: "(case run_once cb' hk' st of
       (st', Done) \<Rightarrow> if stopping st' then Some (st', Done) else f cb' hk' st'
     | (st', e) \<Rightarrow> Some (st', e)) = Some r"
  show "cb' = cb \<and> hk' = hk \<longrightarrow> inv st \<longrightarrow> inv (fst r) \<and> sl_time st \<le> sl_time (fst r)"
  proof (intro impI)
    assume c: "cb' = cb \<and> hk' = hk" and inv: "inv st"
    obtain st' e where s: "run_once cb hk st = (st', e)" by fastforce
    note f = run_once_facts(1,2) [OF inv s]
    show "inv (fst r) \<and> sl_time st \<le> sl_time (fst r)"
    proof (cases "e = Done \<and> \<not> stopping st'")
      case True
      with eq s c have "f cb hk st' = Some r" by simp
      with IH [of cb hk st' r] f show ?thesis by auto
    next
      case False
      with eq s c have "r = (st', e)" by (auto split: outcome.splits if_splits)
      with f show ?thesis by simp
    qed
  qed
qed simp

text \<open>
  How a drive spends its allowance: it takes at least one step, unless there is none left (or the
  loop is closed).
\<close>

lemma step_forever_spends:
  assumes "inv st" and "sl_steps_left st = Some n" and "step_forever cb hk st = Some (st', e)"
  shows "inv st' \<and> (\<exists>m\<le>n. sl_steps_left st' = Some m \<and> (m < n \<or> e = Raised (exn (step_kind st))))"
  using assms
proof (induction n arbitrary: st)
  case 0
  then have "run_once cb hk st = (st, Raised (exn (step_kind st)))"
    by (simp add: run_once_def count_step_def step_kind_def)
  then have "step_forever cb hk st = Some (st, Raised (exn (step_kind st)))"
    by (subst step_forever.simps) simp
  with 0 show ?case by auto
next
  case (Suc n)
  obtain st1 e1 where s: "run_once cb hk st = (st1, e1)" by fastforce
  note f = run_once_facts(1,3) [OF Suc.prems(1) s]
  have left: "sl_steps_left st1 = Some n"
    using f(2) Suc.prems(2) by (simp add: count_step_def)
  show ?case
  proof (cases "e1 = Done \<and> \<not> stopping st1")
    case True
    then have "step_forever cb hk st1 = Some (st', e)"
      using Suc.prems(3) s by (subst (asm) step_forever.simps) simp
    with Suc.IH [OF f(1) left] obtain m where "inv st'" "m \<le> n" "sl_steps_left st' = Some m" by blast
    then show ?thesis by (intro conjI exI [of _ m]) simp_all
  next
    case False
    then have "st' = st1" using Suc.prems(3) s
      by (subst (asm) step_forever.simps) (auto split: outcome.splits)
    with f(1) left show ?thesis by auto
  qed
qed

definition spends :: "('c, 'k, 'w) loop_scheme \<Rightarrow> (('c, 'k, 'w) loop_scheme \<times> outcome) option \<Rightarrow> bool" where
  "spends st r = (\<forall>n. sl_steps_left st = Some n \<longrightarrow> (\<exists>st' e m. r = Some (st', e) \<and> inv st' \<and>
     sl_steps_left st' = Some m \<and> m \<le> n \<and>
     (m < n \<or> e = Raised (exn (step_kind st)) \<or> e = Raised (exn (PyError ''RuntimeError'')))))"

lemma run_forever_spends:
  assumes "inv st"
  shows "spends st (run_forever cb hk st)"
  unfolding spends_def
proof (intro allI impI)
  fix n
  assume n: "sl_steps_left st = Some n"
  show "\<exists>st' e m. run_forever cb hk st = Some (st', e) \<and> inv st' \<and> sl_steps_left st' = Some m \<and>
      m \<le> n \<and> (m < n \<or> e = Raised (exn (step_kind st)) \<or> e = Raised (exn (PyError ''RuntimeError'')))"
  proof (cases "closed st")
    case True
    with assms n show ?thesis by (simp add: run_forever_def)
  next
    case False
    obtain st1 e where s: "step_forever cb hk st = Some (st1, e)"
      using step_forever_returns [OF assms n] by auto
    from step_forever_spends [OF assms n s] obtain m where m: "inv st1" "m \<le> n"
      "sl_steps_left st1 = Some m" "m < n \<or> e = Raised (exn (step_kind st))" by blast
    have "inv (st1\<lparr>stopping := False, sl_watch := sl_watch st1, sl_stop_in := sl_stop_in st1,
        sl_settle := sl_settle st1\<rparr>)" by (rule inv_ctl [OF m(1)])
    then have "inv (st1\<lparr>stopping := False\<rparr>)" by simp
    with False s m show ?thesis by (auto simp: run_forever_def)
  qed
qed

lemma spends_ctl:
  assumes "spends (st\<lparr>sl_watch := x, sl_stop_in := y, sl_settle := z\<rparr>) r"
  shows "spends st (map_option (\<lambda>(st', e). (reset_watch st', e)) r)"
  unfolding spends_def
proof (intro allI impI)
  fix n
  assume "sl_steps_left st = Some n"
  with assms obtain st' e m where r: "r = Some (st', e)" "inv st'" "sl_steps_left st' = Some m" "m \<le> n"
    "m < n \<or> e = Raised (exn (step_kind st)) \<or> e = Raised (exn (PyError ''RuntimeError''))"
    unfolding spends_def step_kind_def by auto
  have "inv (st'\<lparr>stopping := stopping st', sl_watch := None, sl_stop_in := None, sl_settle := None\<rparr>)"
    by (rule inv_ctl [OF r(2)])
  then have "inv (reset_watch st')" by (simp add: reset_watch_def)
  with r show "\<exists>st' e m. map_option (\<lambda>(st', e). (reset_watch st', e)) r = Some (st', e) \<and> inv st' \<and>
      sl_steps_left st' = Some m \<and> m \<le> n \<and>
      (m < n \<or> e = Raised (exn (step_kind st)) \<or> e = Raised (exn (PyError ''RuntimeError'')))"
    by (auto simp: reset_watch_def)
qed

lemma inv_ctl3: "inv st \<Longrightarrow> inv (st\<lparr>sl_watch := x, sl_stop_in := y, sl_settle := z\<rparr>)"
  using inv_ctl [where st = st and b = "stopping st" and x = x and y = y and z = z] by simp

lemma run_until_done_spends:
  assumes "inv st"
  shows "spends st (run_until_done cb hk fut settle st)"
  unfolding run_until_done_def
proof (rule spends_ctl)
  let ?st = "st\<lparr>sl_watch := Some fut, sl_stop_in := None, sl_settle := settle\<rparr>"
  let ?next = "\<lambda>st1. run_forever cb hk ((if sl_stop_in st1 = Some 2 \<and> settle \<noteq> None
      then run_settle settle st1 else st1)\<lparr>sl_stop_in := Some 1\<rparr>)"
  have inv: "inv ?st" by (rule inv_ctl3 [OF assms])
  show "spends ?st (case run_forever cb hk ?st of None \<Rightarrow> None
        | Some (st1, Done) \<Rightarrow>
            if fut_done fut st1 \<and> sl_stop_in st1 \<in> {Some 1, Some 2} then
              let st2 = (if sl_stop_in st1 = Some 2 \<and> settle \<noteq> None
                         then run_settle settle st1 else st1)
              in run_forever cb hk (st2\<lparr>sl_stop_in := Some 1\<rparr>)
            else Some (st1, Done)
        | Some (st1, e) \<Rightarrow> Some (st1, e))"
    unfolding spends_def
  proof (intro allI impI)
    fix n
    assume n: "sl_steps_left ?st = Some n"
    obtain st1 e m where r: "run_forever cb hk ?st = Some (st1, e)" "inv st1" "sl_steps_left st1 = Some m"
      "m \<le> n" "m < n \<or> e = Raised (exn (step_kind ?st)) \<or> e = Raised (exn (PyError ''RuntimeError''))"
      using run_forever_spends [OF inv] n unfolding spends_def by blast
    let ?st2 = "(if sl_stop_in st1 = Some 2 \<and> settle \<noteq> None then run_settle settle st1 else st1)"
    have i2: "inv ?st2" using r(2) inv_settle by simp
    have "inv (?st2\<lparr>stopping := stopping ?st2, sl_watch := sl_watch ?st2, sl_stop_in := Some 1, sl_settle := sl_settle ?st2\<rparr>)"
      by (rule inv_ctl [OF i2])
    then have i3: "inv (?st2\<lparr>sl_stop_in := Some 1\<rparr>)" by simp
    have "sl_steps_left (run_settle s st1) = sl_steps_left st1" for s
      by (cases "(s, st1)" rule: run_settle.cases) simp_all
    then have m2: "sl_steps_left (?st2\<lparr>sl_stop_in := Some 1\<rparr>) = Some m" using r(3) by simp
    obtain st4 e4 m4 where q: "?next st1 = Some (st4, e4)" "inv st4" "sl_steps_left st4 = Some m4"
      "m4 \<le> m" using run_forever_spends [OF i3] m2 unfolding spends_def by blast
    show "\<exists>st' e m. (case run_forever cb hk ?st of None \<Rightarrow> None
        | Some (st1, Done) \<Rightarrow>
            if fut_done fut st1 \<and> sl_stop_in st1 \<in> {Some 1, Some 2} then
              let st2 = (if sl_stop_in st1 = Some 2 \<and> settle \<noteq> None
                         then run_settle settle st1 else st1)
              in run_forever cb hk (st2\<lparr>sl_stop_in := Some 1\<rparr>)
            else Some (st1, Done)
        | Some (st1, e) \<Rightarrow> Some (st1, e)) = Some (st', e) \<and> inv st' \<and>
        sl_steps_left st' = Some m \<and> m \<le> n \<and>
        (m < n \<or> e = Raised (exn (step_kind ?st)) \<or> e = Raised (exn (PyError ''RuntimeError'')))"
    proof (cases "e = Done \<and> fut_done fut st1 \<and> sl_stop_in st1 \<in> {Some 1, Some 2}")
      case True
      then show ?thesis using r(1,5) q \<open>m \<le> n\<close> unfolding Let_def by (auto split: if_splits)
    next
      case False
      then show ?thesis using r by (cases e) auto
    qed
  qed
qed

lemma run_one_more_step_spends:
  assumes "inv st"
  shows "spends st (run_one_more_step cb hk fut st)"
  unfolding run_one_more_step_def
  by (rule spends_ctl) (rule run_forever_spends [OF inv_ctl3 [OF assms]])

end

section \<open>What the loop raises\<close>

text \<open>
  A contract on exceptions: if what callbacks and hooks raise is good, so is what a drive raises. The
  loop's own errors are good, and a note does not change what an exception is.
\<close>

locale loop_outcome = loop_client cb hk inv
  for cb :: "'c \<Rightarrow> ('c, 'k, 'w) loop_scheme \<Rightarrow> ('c, 'k, 'w) loop_scheme \<times> outcome"
    and hk :: "'k \<Rightarrow> ('c, 'k, 'w) loop_scheme \<Rightarrow> ('c, 'k, 'w) loop_scheme \<times> hook_result"
    and inv :: "('c, 'k, 'w) loop_scheme \<Rightarrow> bool" +
  fixes good :: "exn \<Rightarrow> bool"
  assumes cb_good: "inv st \<Longrightarrow> ready st = h # hs \<Longrightarrow> h \<notin> cancelled st \<Longrightarrow>
      snd (cb (snd h) (st\<lparr>ready := hs\<rparr>)) = Raised e \<Longrightarrow> good e"
    and hk_good: "inv st \<Longrightarrow> k \<in> set (sl_hooks st) \<Longrightarrow> snd (hk k st) = HookHard e \<Longrightarrow> good e"
    and note_good: "good (add_note nt e) = good e"
    and deadlock_good: "good (exn DeadlockError)"
    and python_good: "good (exn (PyError s))"
    and step_good: "inv st \<Longrightarrow> good (exn (step_kind st))"

context loop_outcome
begin

lemma run_batch_good:
  "n \<le> length (ready st) \<Longrightarrow> inv st \<Longrightarrow> snd (run_batch cb n st) = Raised e \<Longrightarrow> good e"
proof (induction n arbitrary: st)
  case (Suc n)
  then obtain h hs where r: "ready st = h # hs" by (cases "ready st") auto
  let ?st = "st\<lparr>ready := hs\<rparr>"
  have n: "n \<le> length (ready ?st)" using Suc.prems r by simp
  obtain st' x where c: "cb (snd h) ?st = (st', x)" by fastforce
  have n': "n \<le> length (ready st')" using n cb_facts(4) [OF c] by auto
  have s: "inv ?st" if "h \<in> cancelled st" by (rule inv_skip [OF Suc.prems(2) r that])
  have i: "inv st'" if "h \<notin> cancelled st" using cb_inv [OF Suc.prems(2) r that] c by simp
  have g: "good e" if "h \<notin> cancelled st" "x = Raised e" using cb_good [OF Suc.prems(2) r that(1)] c that(2) by simp
  show ?case
    using Suc.prems(3) Suc.IH [OF n s] Suc.IH [OF n' i] g unfolding run_batch_step [where cb = cb, OF r c]
    by (cases x) (auto split: if_splits)
qed simp

lemma run_hooks_good:
  assumes "run_hooks hk ks first nts st = (st', first', nts')" and "inv st" and "set ks \<subseteq> set (sl_hooks st)"
    and "\<forall>e. first = Some e \<longrightarrow> good e" and "first' = Some e"
  shows "good e"
  using assms
proof (induction ks arbitrary: first nts st)
  case (Cons k ks)
  obtain s r where h: "hk k st = (s, r)" by fastforce
  have k: "k \<in> set (sl_hooks st)" using Cons.prems(3) by simp
  have s: "inv s" "set ks \<subseteq> set (sl_hooks s)"
    using h hk_inv [OF Cons.prems(2) k] hk_hooks [of k st] Cons.prems(3) by auto
  have g: "good x" if "r = HookHard x" for x using hk_good [OF Cons.prems(2) k] h that by simp
  note IH = Cons.IH [OF _ s _ Cons.prems(5)]
  show ?case
  proof (cases r)
    case (HookHard x)
    then show ?thesis using Cons.prems(1,4,5) h g IH by (auto split: if_splits option.splits)
  qed (use Cons.prems(1,4) h IH in auto)
qed simp

lemma after_step_good:
  assumes "inv st" and "snd (after_step hk st) = Raised e"
  shows "good e"
proof -
  obtain st' first nts where r: "run_hooks hk (sl_hooks st) None [] st = (st', first, nts)" by (metis prod_cases3)
  then obtain x where x: "first = Some x" "e = note_others x nts"
    using assms(2) by (auto simp: after_step_def split: option.splits)
  have "good (note_others y ns) = good y" for y ns
    unfolding note_others_def by (induction ns arbitrary: y) (simp_all add: note_good)
  then show ?thesis using run_hooks_good [OF r assms(1) subset_refl _ x(1)] x(2) by simp
qed

lemma run_once_good:
  assumes inv: "inv st" and step: "snd (run_once cb hk st) = Raised e"
  shows "good e"
proof -
  obtain st1 e1 where s1: "count_step st = (st1, e1)" by fastforce
  have f1: "inv st1" using inv_count [OF inv] s1 by simp
  have g1: "e1 = Raised x \<Longrightarrow> good x" for x
    using s1 step_good [OF inv] by (auto simp: count_step_def step_kind_def split: option.splits nat.splits)
  obtain st2 e2 where s2: "autojump st1 = (st2, e2)" by fastforce
  have f2: "inv st2" using inv_jump [OF f1] s2 by simp
  have g2: "e2 = Raised x \<Longrightarrow> good x" for x
    using s2 deadlock_good by (auto simp: autojump_def Let_def split: if_splits)
  define st3 where "st3 = fire_due_timers st2"
  have f3: "inv st3" using inv_fire [OF f2] by (simp add: st3_def)
  obtain st4 e4 where s4: "run_batch cb (length (ready st3)) st3 = (st4, e4)" by fastforce
  have f4: "inv st4" using run_batch_facts [of "length (ready st3)" st3] s4 f3 by auto
  have g4: "e4 = Raised x \<Longrightarrow> good x" for x using run_batch_good [OF order_refl f3] s4 by simp
  have g5: "snd (after_step hk st4) = Raised x \<Longrightarrow> good x" for x by (rule after_step_good [OF f4])
  show ?thesis
    using step s1 s2 s4 g1 g2 g4 g5 by (auto simp: run_once_def st3_def [symmetric] split: outcome.splits prod.splits)
qed

text \<open>A drive that ends keeps the invariant and raises only what is good.\<close>

definition ends_good :: "(('c, 'k, 'w) loop_scheme \<times> outcome) option \<Rightarrow> bool" where
  "ends_good r = (\<forall>st' e. r = Some (st', e) \<longrightarrow> inv st' \<and> (\<forall>x. e = Raised x \<longrightarrow> good x))"

lemma step_forever_good:
  assumes "inv st"
  shows "ends_good (step_forever cb hk st)"
proof -
  have "inv st \<longrightarrow> inv (fst r) \<and> (\<forall>x. snd r = Raised x \<longrightarrow> good x)" if "step_forever cb hk st = Some r" for r
  proof (rule step_forever.raw_induct [where P = "\<lambda>cb' hk' st r. cb' = cb \<and> hk' = hk \<longrightarrow> inv st \<longrightarrow>
      inv (fst r) \<and> (\<forall>x. snd r = Raised x \<longrightarrow> good x)", THEN mp, OF _ that])
    fix f cb' hk' st r
    assume IH: "\<And>cb' hk' st r. f cb' hk' st = Some r \<Longrightarrow> cb' = cb \<and> hk' = hk \<longrightarrow> inv st \<longrightarrow>
        inv (fst r) \<and> (\<forall>x. snd r = Raised x \<longrightarrow> good x)"
      and eq: "(case run_once cb' hk' st of
         (st', Done) \<Rightarrow> if stopping st' then Some (st', Done) else f cb' hk' st'
       | (st', e) \<Rightarrow> Some (st', e)) = Some r"
    show "cb' = cb \<and> hk' = hk \<longrightarrow> inv st \<longrightarrow> inv (fst r) \<and> (\<forall>x. snd r = Raised x \<longrightarrow> good x)"
    proof (intro impI)
      assume c: "cb' = cb \<and> hk' = hk" and inv: "inv st"
      obtain st' e where s: "run_once cb hk st = (st', e)" by fastforce
      have i: "inv st'" by (rule run_once_facts(1) [OF inv s])
      have g: "e = Raised x \<Longrightarrow> good x" for x using run_once_good [OF inv] s by simp
      show "inv (fst r) \<and> (\<forall>x. snd r = Raised x \<longrightarrow> good x)"
      proof (cases "e = Done \<and> \<not> stopping st'")
        case True
        with eq s c have "f cb hk st' = Some r" by simp
        with IH [of cb hk st' r] i show ?thesis by auto
      next
        case False
        with eq s c have "r = (st', e)" by (auto split: outcome.splits if_splits)
        with i g show ?thesis by simp
      qed
    qed
  qed simp
  then show ?thesis using assms by (auto simp: ends_good_def)
qed

lemma run_forever_good: "inv st \<Longrightarrow> ends_good (run_forever cb hk st)"
proof -
  assume inv: "inv st"
  have "inv (st'\<lparr>stopping := False\<rparr>)" if "inv st'" for st'
    using inv_ctl [where b = False and x = "sl_watch st'" and y = "sl_stop_in st'" and z = "sl_settle st'", OF that] by simp
  then show ?thesis
    using step_forever_good [OF inv] inv python_good by (auto simp: run_forever_def ends_good_def)
qed

lemma reset_watch_good: "ends_good r \<Longrightarrow> ends_good (map_option (\<lambda>(st', e). (reset_watch st', e)) r)"
  using inv_ctl3 by (auto simp: ends_good_def reset_watch_def)

lemma run_one_more_step_good: "inv st \<Longrightarrow> ends_good (run_one_more_step cb hk fut st)"
  unfolding run_one_more_step_def by (intro reset_watch_good run_forever_good inv_ctl3)

lemma run_until_done_good:
  assumes "inv st"
  shows "ends_good (run_until_done cb hk fut settle st)"
proof -
  have 1: "ends_good (run_forever cb hk (st\<lparr>sl_watch := Some fut, sl_stop_in := None, sl_settle := settle\<rparr>))"
    by (intro run_forever_good inv_ctl3 assms)
  have 2: "ends_good (run_forever cb hk (st2\<lparr>sl_stop_in := x\<rparr>))" if "inv st2" for st2 x
    using inv_ctl3 [where x = "sl_watch st2" and y = x and z = "sl_settle st2", OF that] by (intro run_forever_good) simp
  have 3: "ends_good (run_forever cb hk ((if b then run_settle settle st2 else st2)\<lparr>sl_stop_in := x\<rparr>))" if "inv st2" for st2 x b
    using that inv_settle by (intro 2) simp
  let ?r = "run_forever cb hk (st\<lparr>sl_watch := Some fut, sl_stop_in := None, sl_settle := settle\<rparr>)"
  show ?thesis
    unfolding run_until_done_def
  proof (rule reset_watch_good, cases ?r)
    case (Some p)
    obtain st1 e where p: "p = (st1, e)" by fastforce
    have i: "inv st1" using 1 Some p by (simp add: ends_good_def)
    show "ends_good (case ?r of None \<Rightarrow> None
        | Some (st1, Done) \<Rightarrow>
            if fut_done fut st1 \<and> sl_stop_in st1 \<in> {Some 1, Some 2} then
              let st2 = (if sl_stop_in st1 = Some 2 \<and> settle \<noteq> None
                         then run_settle settle st1 else st1)
              in run_forever cb hk (st2\<lparr>sl_stop_in := Some 1\<rparr>)
            else Some (st1, Done)
        | Some (st1, e) \<Rightarrow> Some (st1, e))"
    proof (cases "e = Done \<and> fut_done fut st1 \<and> sl_stop_in st1 \<in> {Some 1, Some 2}")
      case True
      then show ?thesis
        using 3 [OF i, of "Some 1" "sl_stop_in st1 = Some 2 \<and> settle \<noteq> None"] by (simp add: Some p Let_def)
    next
      case False
      then show ?thesis using 1 by (cases e) (auto simp: Some p ends_good_def)
    qed
  qed (simp add: ends_good_def)
qed

end

end
