(* ===== verification/Faults.thy ===== *)
theory Faults
  imports Errors
begin

text \<open>
  Fault handles (\<open>src/seedloop/_faults.py\<close>) and the constructors of \<open>World\<close> that build them. The
  handles are public dataclasses, so a field can hold anything: an argument is an address or
  something that is not one, a group is a list of arguments or not iterable, and a fault list can
  hold an object that is no fault. Addresses are Python integers.
\<close>

datatype py_arg = AddrArg int | BadArg

datatype group_arg = Group "py_arg list" | BadGroup

datatype groups_arg = Groups "group_arg list" | BadGroups

datatype fault =
    PartitionFault groups_arg
  | SlowLinkFault "py_arg option" "py_arg option" "pyfloat option"
  | CrashFault "py_arg option" "pyfloat option"
  | UnknownFault

section \<open>\<open>World.partition\<close>, \<open>World.slow_link\<close>, \<open>World.crash\<close>\<close>

definition world_partition :: "int list list \<Rightarrow> fault" where
  "world_partition groups = PartitionFault (Groups (map (\<lambda>g. Group (map AddrArg g)) groups))"

definition bad_factor :: "pyfloat option \<Rightarrow> bool" where
  "bad_factor factor = (case factor of None \<Rightarrow> False
     | Some f \<Rightarrow> \<not> isfinite f \<or> py_le f (Fin 1))"

definition world_slow_link ::
    "py_arg option \<Rightarrow> py_arg option \<Rightarrow> pyfloat option \<Rightarrow> exn_kind + fault" where
  "world_slow_link a b factor =
     (if bad_factor factor then Inl (SeedloopError ''slow_link factor must be finite and > 1.0'')
      else if a \<noteq> None \<and> a = b then Inl (SeedloopError ''slow_link requires two distinct addresses'')
      else Inr (SlowLinkFault a b factor))"

definition bad_at :: "pyfloat option \<Rightarrow> bool" where
  "bad_at when = (case when of None \<Rightarrow> False | Some t \<Rightarrow> \<not> isfinite t \<or> py_lt t (Fin 0))"

definition world_crash :: "py_arg option \<Rightarrow> pyfloat option \<Rightarrow> exn_kind + fault" where
  "world_crash node when =
     (if bad_at when then Inl (SeedloopError ''crash(at) must be finite and >= 0'')
      else Inr (CrashFault node when))"

section \<open>Validation\<close>

text \<open>\<open>_validate_groups\<close>: iterables of addresses that do not overlap.\<close>

fun arg_addr :: "py_arg \<Rightarrow> int option" where
  "arg_addr (AddrArg a) = Some a"
| "arg_addr BadArg = None"

fun group_addrs :: "group_arg \<Rightarrow> int set" where
  "group_addrs (Group xs) = set (List.map_filter arg_addr xs)"
| "group_addrs BadGroup = {}"

fun validate_group_list :: "int set \<Rightarrow> group_arg list \<Rightarrow> exn_kind option" where
  "validate_group_list seen [] = None"
| "validate_group_list seen (BadGroup # gs) =
     Some (SeedloopError ''partition() groups must be iterables of addresses'')"
| "validate_group_list seen (Group xs # gs) =
     (if BadArg \<in> set xs
      then Some (SeedloopError ''partition() groups must contain only addresses'')
      else if seen \<inter> group_addrs (Group xs) \<noteq> {}
      then Some (SeedloopError ''partition() groups must not overlap'')
      else validate_group_list (seen \<union> group_addrs (Group xs)) gs)"

fun validate_groups :: "groups_arg \<Rightarrow> exn_kind option" where
  "validate_groups BadGroups =
     Some (SeedloopError ''partition() groups must be an iterable of groups'')"
| "validate_groups (Groups gs) = validate_group_list {} gs"

text \<open>
  \<open>_validate_fault\<close>, given the bound addresses: \<open>None\<close> accepts. The checks are in the order of
  the source, so the first one that fails names the error.
\<close>

definition bad_addr :: "py_arg option \<Rightarrow> bool" where
  "bad_addr a = (a = Some BadArg)"

fun validate_fault :: "int list \<Rightarrow> pyfloat \<Rightarrow> fault \<Rightarrow> exn_kind option" where
  "validate_fault bound seconds (PartitionFault groups) =
     (if groups \<noteq> Groups [] then validate_groups groups
      else if length bound < 2
      then Some (SeedloopError ''partition() needs at least two bound addresses'')
      else None)"
| "validate_fault bound seconds (SlowLinkFault a b factor) =
     (if bad_addr a then Some (SeedloopError ''slow_link a must be an address'')
      else if bad_addr b then Some (SeedloopError ''slow_link b must be an address'')
      else if a = None \<and> b = None \<and> length bound < 2
      then Some (SeedloopError ''slow_link() needs at least two bound addresses'')
      else if a = None \<and> b \<noteq> None \<and> \<not> (\<exists>x\<in>set bound. Some (AddrArg x) \<noteq> b)
      then Some (SeedloopError ''slow_link() needs a bound address distinct from the pinned b'')
      else if a \<noteq> None \<and> b = None \<and> \<not> (\<exists>x\<in>set bound. Some (AddrArg x) \<noteq> a)
      then Some (SeedloopError ''slow_link() needs a bound address distinct from the pinned a'')
      else if a \<noteq> None \<and> a = b
      then Some (SeedloopError ''slow_link requires two distinct addresses'')
      else if bad_factor factor
      then Some (SeedloopError ''slow_link factor must be finite and > 1.0'')
      else None)"
| "validate_fault bound seconds (CrashFault node when) =
     (if bad_addr node then Some (SeedloopError ''crash node must be an address'')
      else if bad_at when then Some (SeedloopError ''crash(at) must be finite and >= 0'')
      else if when \<noteq> None \<and> py_lt seconds (the when)
      then Some (SeedloopError ''crash(at) exceeds this run_for's seconds'')
      else if node = None \<and> bound = []
      then Some (SeedloopError ''crash() needs at least one bound address'')
      else None)"
| "validate_fault bound seconds UnknownFault = Some (SeedloopError ''unrecognized fault handle'')"

fun validate_faults :: "int list \<Rightarrow> pyfloat \<Rightarrow> fault list \<Rightarrow> exn_kind option" where
  "validate_faults bound seconds [] = None"
| "validate_faults bound seconds (f # fs) = (case validate_fault bound seconds f of
     Some e \<Rightarrow> Some e
   | None \<Rightarrow> validate_faults bound seconds fs)"

subsection \<open>What acceptance means\<close>

lemma validate_faults_None:
  "validate_faults bound seconds fs = None \<longleftrightarrow> (\<forall>f\<in>set fs. validate_fault bound seconds f = None)"
  by (induction fs) (auto split: option.splits)

lemma validate_group_list_None:
  "validate_group_list seen gs = None \<Longrightarrow>
    (\<forall>g\<in>set gs. group_addrs g \<inter> seen = {}) \<and>
    (\<forall>i j. i < j \<longrightarrow> j < length gs \<longrightarrow> group_addrs (gs ! i) \<inter> group_addrs (gs ! j) = {})"
proof (induction seen gs rule: validate_group_list.induct)
  case (3 seen xs gs)
  then have v: "validate_group_list (seen \<union> group_addrs (Group xs)) gs = None"
    and d: "BadArg \<notin> set xs" "seen \<inter> group_addrs (Group xs) = {}"
    by (auto split: if_splits)
  note IH = "3.IH" [OF d(1) _ v]
  have "group_addrs ((Group xs # gs) ! i) \<inter> group_addrs ((Group xs # gs) ! j) = {}"
    if "i < j" "j < length (Group xs # gs)" for i j
    using that IH d(2) by (cases i; cases j) (fastforce simp del: group_addrs.simps)+
  moreover have "\<forall>g\<in>set (Group xs # gs). group_addrs g \<inter> seen = {}"
    using IH d(2) by (auto simp del: group_addrs.simps)
  ultimately show ?case by blast
qed auto

lemma bad_factor_Some: "\<not> bad_factor (Some f) \<Longrightarrow> \<exists>r. f = Fin r \<and> 1 < r"
  by (cases f) (auto simp: bad_factor_def)

lemma bad_at_Some: "\<not> bad_at (Some t) \<Longrightarrow> \<exists>r. t = Fin r \<and> 0 \<le> r"
  by (cases t) (auto simp: bad_at_def)

text \<open>A handle built by a \<open>World\<close> constructor passes the constructor's own checks again.\<close>

lemma world_slow_link_checked:
  "world_slow_link a b factor = Inr f \<Longrightarrow>
    f = SlowLinkFault a b factor \<and> \<not> bad_factor factor \<and> \<not> (a \<noteq> None \<and> a = b)"
  by (auto simp: world_slow_link_def split: if_splits)

end
