(* ===== verification/Entropy.thy ===== *)
theory Entropy
  imports PyFloat "HOL-Library.Word"
begin

text \<open>
  Seeded entropy (\<open>src/seedloop/_entropy.py\<close>): named sub-streams of a root seed, the seeded
  replacement of \<open>os.urandom\<close>, and the hash-seed launcher. A \<open>random.Random\<close> is the sequence
  of 32-bit words its generator produces and the number of words used so far; \<open>random()\<close>,
  \<open>getrandbits\<close>, \<open>uniform\<close> and \<open>choice\<close> consume words as CPython's \<open>random\<close> module does. The
  BLAKE2b digest and the word sequence a seeded generator produces are parameters. \<open>choice\<close> may
  have to redraw for ever, so its result is an option, and \<open>randbelow_returns\<close> says exactly
  when it returns.
\<close>

section \<open>The generator\<close>

record rng =
  rng_tape :: "nat \<Rightarrow> 32 word"
  rng_pos :: nat

definition genrand :: "rng \<Rightarrow> 32 word \<times> rng" where
  "genrand r = (rng_tape r (rng_pos r), r\<lparr>rng_pos := Suc (rng_pos r)\<rparr>)"

text \<open>\<open>random()\<close>: 53 bits out of two words.\<close>

definition random_value :: "32 word \<Rightarrow> 32 word \<Rightarrow> real" where
  "random_value a b =
     (real (unat (drop_bit 5 a)) * 67108864 + real (unat (drop_bit 6 b))) / 9007199254740992"

definition py_random :: "rng \<Rightarrow> real \<times> rng" where
  "py_random r = (let (a, r1) = genrand r; (b, r2) = genrand r1 in (random_value a b, r2))"

definition uniform_value :: "pyfloat \<Rightarrow> pyfloat \<Rightarrow> real \<Rightarrow> pyfloat" where
  "uniform_value a b x = py_add a (py_mul (py_sub b a) (Fin x))"

definition uniform :: "pyfloat \<Rightarrow> pyfloat \<Rightarrow> rng \<Rightarrow> pyfloat \<times> rng" where
  "uniform a b r = (let (x, r') = py_random r in (uniform_value a b x, r'))"

text \<open>\<open>getrandbits(k)\<close>: whole words from the least significant up, the last one shifted.\<close>

function getrandbits :: "nat \<Rightarrow> rng \<Rightarrow> nat \<times> rng" where
  "getrandbits k r =
     (if k = 0 then (0, r)
      else let (w, r') = genrand r in
        if k \<le> 32 then (unat (drop_bit (32 - k) w), r')
        else let (n, r'') = getrandbits (k - 32) r' in (unat w + 2 ^ 32 * n, r''))"
  by pat_completeness auto
termination
  by (relation "measure (\<lambda>(k, r). k)") auto

declare getrandbits.simps [simp del]

definition bit_length :: "nat \<Rightarrow> nat" where
  "bit_length n = nat (bitlen (int n))"

text \<open>\<open>_randbelow\<close> draws again while the value is out of range.\<close>

partial_function (option) randbelow_loop :: "nat \<Rightarrow> nat \<Rightarrow> rng \<Rightarrow> (nat \<times> rng) option" where
  "randbelow_loop n k r =
     (let (v, r') = getrandbits k r in if n \<le> v then randbelow_loop n k r' else Some (v, r'))"

definition randbelow :: "nat \<Rightarrow> rng \<Rightarrow> (nat \<times> rng) option" where
  "randbelow n r = randbelow_loop n (bit_length n) r"

datatype 'a choice_result = Chosen 'a rng | ChoiceIndexError | ChoiceDiverges

definition choice :: "'a list \<Rightarrow> rng \<Rightarrow> 'a choice_result" where
  "choice xs r =
     (if xs = [] then ChoiceIndexError
      else case randbelow (length xs) r of
        None \<Rightarrow> ChoiceDiverges
      | Some (i, r') \<Rightarrow> Chosen (xs ! i) r')"

subsection \<open>Facts\<close>

lemma unat_shift: "unat (drop_bit n w) = unat w div 2 ^ n"
  by (simp only: unat_drop_bit_eq) (simp only: drop_bit_eq_div)

lemma random_value_bounds:
  shows "0 \<le> random_value a b" and "random_value a b \<le> 1 - 1 / 2 ^ 53"
proof -
  have "unat (drop_bit 5 a) < 2 ^ 27" and "unat (drop_bit 6 b) < 2 ^ 26"
    using unsigned_less [of a, where 'a = nat] unsigned_less [of b, where 'a = nat]
    by (simp_all only: unat_shift) (simp_all add: less_mult_imp_div_less)
  then have "unat (drop_bit 5 a) * 67108864 + unat (drop_bit 6 b) \<le> 2 ^ 53 - 1" by simp
  then have "real (unat (drop_bit 5 a) * 67108864 + unat (drop_bit 6 b)) \<le> real (2 ^ 53 - 1)"
    by (simp only: of_nat_le_iff)
  then show "random_value a b \<le> 1 - 1 / 2 ^ 53" by (simp add: random_value_def)
qed (unfold random_value_def, intro divide_nonneg_pos add_nonneg_nonneg mult_nonneg_nonneg of_nat_0_le_iff; simp)

lemma py_random_bounds:
  assumes "py_random r = (x, r')"
  shows "0 \<le> x" and "x \<le> 1 - 1 / 2 ^ 53"
proof -
  obtain a b where x: "x = random_value a b"
    using assms by (auto simp: py_random_def genrand_def Let_def)
  show "0 \<le> x" unfolding x by (rule random_value_bounds)
  show "x \<le> 1 - 1 / 2 ^ 53" unfolding x by (rule random_value_bounds)
qed

lemma rng_pos_py_random [simp]: "rng_pos (snd (py_random r)) = rng_pos r + 2"
  by (simp add: py_random_def genrand_def)

lemma rng_tape_py_random [simp]: "rng_tape (snd (py_random r)) = rng_tape r"
  by (simp add: py_random_def genrand_def)

lemma snd_uniform [simp]: "snd (uniform a b r) = snd (py_random r)"
  by (simp add: uniform_def split: prod.splits)

lemma uniform_value_bounds:
  assumes ok: "pf_ok (Fin a)" "pf_ok (Fin b)" and ab: "0 \<le> a" "a \<le> b"
    and x: "0 \<le> x" "x \<le> 1 - 1 / 2 ^ 53"
  shows "\<exists>v. uniform_value (Fin a) (Fin b) x = Fin v \<and> pf_ok (Fin v) \<and> a \<le> v \<and> v \<le> b"
proof -
  have d: "is_double a" "is_double b" "b < over" using ok by auto
  have w0: "0 \<le> rnd (b - a)" using ab by (simp add: rnd_nonneg)
  have wb: "rnd (b - a) \<le> b" using ab d by (intro rnd_le_double) auto
  have w: "of_exact (b - a) = Fin (rnd (b - a))"
    using w0 wb d(3) by (intro of_exact_finite) auto
  let ?t = "rnd (rnd (b - a) * x)"
  have m0: "0 \<le> ?t" using w0 x by (simp add: rnd_nonneg)
  have mw: "?t \<le> b - a" by (rule rnd_scaled_width [OF d(1,2) ab x])
  have m: "of_exact (rnd (b - a) * x) = Fin ?t"
    using m0 mw ab(1) d(3) by (intro of_exact_finite) auto
  have lo: "a \<le> rnd (a + ?t)" using m0 d by (intro rnd_ge_double) auto
  have hi: "rnd (a + ?t) \<le> b" using mw d by (intro rnd_le_double) auto
  have s: "of_exact (a + ?t) = Fin (rnd (a + ?t))"
    using lo hi ab(1) d(3) by (intro of_exact_finite) auto
  have "uniform_value (Fin a) (Fin b) x = Fin (rnd (a + ?t))"
    by (simp add: uniform_value_def py_sub_def py_neg_def w m s)
  moreover have "pf_ok (Fin (rnd (a + ?t)))"
    using lo hi ab(1) d(3) by (auto simp: abs_less_iff less_eq_real_def)
  ultimately show ?thesis using lo hi by auto
qed

lemma uniform_bounds:
  assumes "pf_ok (Fin a)" "pf_ok (Fin b)" "0 \<le> a" "a \<le> b"
  shows "\<exists>v. fst (uniform (Fin a) (Fin b) r) = Fin v \<and> pf_ok (Fin v) \<and> a \<le> v \<and> v \<le> b"
  using uniform_value_bounds [OF assms] py_random_bounds [of r]
  by (auto simp: uniform_def split: prod.splits)


lemma rng_getrandbits [simp]:
  "rng_tape (snd (getrandbits k r)) = rng_tape r"
  "rng_pos (snd (getrandbits k r)) = rng_pos r + (k + 31) div 32"
proof -
  have "rng_tape (snd (getrandbits k r)) = rng_tape r \<and>
    rng_pos (snd (getrandbits k r)) = rng_pos r + (k + 31) div 32"
  proof (induction k r rule: getrandbits.induct)
    case (1 k r)
    show ?case
    proof (cases "k \<le> 32")
      case True
      then show ?thesis by (subst (1 2) getrandbits.simps) (auto simp: genrand_def)
    next
      case False
      then have "(k + 31) div 32 = Suc ((k - 32 + 31) div 32)" by simp
      moreover obtain w r' where g: "genrand r = (w, r')" by fastforce
      ultimately show ?thesis
        using 1 [OF _ g [symmetric] refl] False
        by (subst (1 2) getrandbits.simps) (auto simp: genrand_def split: prod.splits)
    qed
  qed
  then show "rng_tape (snd (getrandbits k r)) = rng_tape r"
    "rng_pos (snd (getrandbits k r)) = rng_pos r + (k + 31) div 32" by auto
qed

lemma getrandbits_bound: "fst (getrandbits k r) < 2 ^ k"
proof (induction k r rule: getrandbits.induct)
  case (1 k r)
  consider "k = 0" | "0 < k" "k \<le> 32" | "32 < k" by linarith
  then show ?case
  proof cases
    case 1
    then show ?thesis by (simp add: getrandbits.simps)
  next
    case 2
    have "unat (drop_bit (32 - k) (rng_tape r (rng_pos r))) < 2 ^ k"
      using 2 unsigned_less [of "rng_tape r (rng_pos r)", where 'a = nat]
      by (simp only: unat_shift) (simp add: less_mult_imp_div_less flip: power_add)
    with 2 show ?thesis by (simp add: getrandbits.simps [of k] genrand_def)
  next
    case 3
    obtain w r' where g: "genrand r = (w, r')" by fastforce
    obtain n r'' where h: "getrandbits (k - 32) r' = (n, r'')" by fastforce
    have n: "n < 2 ^ (k - 32)" using "1.IH" [OF _ g [symmetric] refl] 3 h by simp
    have w: "unat w < 2 ^ 32" using unsigned_less [of w, where 'a = nat] by simp
    have "unat w + 2 ^ 32 * n < 2 ^ 32 * (n + 1)" using w by simp
    also have "\<dots> \<le> 2 ^ 32 * 2 ^ (k - 32)" using n by (intro mult_left_mono) auto
    also have "\<dots> = 2 ^ k" using 3 by (simp only: power_add [symmetric]) simp
    finally show ?thesis using 3 by (simp add: getrandbits.simps [of k] g h)
  qed
qed


subsection \<open>When a choice is made\<close>

text \<open>
  A draw below \<open>2 ^ 32\<close> takes one word, so the redraw loop reads consecutive words of the tape
  and stops at the first whose top bits are below the bound.
\<close>

definition draw_at :: "nat \<Rightarrow> rng \<Rightarrow> nat \<Rightarrow> nat" where
  "draw_at k r i = unat (drop_bit (32 - k) (rng_tape r (rng_pos r + i)))"

definition advance :: "nat \<Rightarrow> rng \<Rightarrow> rng" where
  "advance n r = r\<lparr>rng_pos := rng_pos r + n\<rparr>"

lemma advance_simps [simp]:
  "advance 0 r = r" "advance m (advance n r) = advance (m + n) r"
  "rng_tape (advance n r) = rng_tape r" "rng_pos (advance n r) = rng_pos r + n"
  by (simp_all add: advance_def add.commute)

lemma getrandbits_small:
  assumes "0 < k" and "k \<le> 32"
  shows "getrandbits k r = (draw_at k r 0, advance 1 r)"
  using assms by (subst getrandbits.simps) (simp add: genrand_def draw_at_def advance_def)

lemma draw_at_advance: "draw_at k (advance n r) i = draw_at k r (n + i)"
  by (simp add: draw_at_def add.assoc)

lemma randbelow_loop_hit:
  assumes k: "0 < k" "k \<le> 32" and hit: "draw_at k r i < n" and miss: "\<forall>j<i. n \<le> draw_at k r j"
  shows "randbelow_loop n k r = Some (draw_at k r i, advance (Suc i) r)"
  using hit miss
proof (induction i arbitrary: r)
  case 0
  then show ?case
    by (subst randbelow_loop.simps) (simp add: getrandbits_small [OF k])
next
  case (Suc i)
  have "randbelow_loop n k (advance 1 r) = Some (draw_at k (advance 1 r) i, advance (Suc i) (advance 1 r))"
    using Suc.prems by (intro Suc.IH) (auto simp: draw_at_advance)
  moreover have "n \<le> draw_at k r 0" using Suc.prems(2) by simp
  ultimately show ?case
    by (subst randbelow_loop.simps) (simp add: getrandbits_small [OF k] draw_at_advance)
qed

lemma randbelow_loop_range: "randbelow_loop n k r = Some (v, r') \<Longrightarrow> v < n"
proof -
  assume ret: "randbelow_loop n k r = Some (v, r')"
  have "fst (v, r') < n"
  proof (rule randbelow_loop.raw_induct [where P = "\<lambda>n k r x. fst x < n", OF _ ret])
    fix f n k r x
    assume IH: "\<And>n k r x. f n k r = Some x \<Longrightarrow> fst x < n"
      and eq: "(let (v, r') = getrandbits k r in if n \<le> v then f n k r' else Some (v, r')) = Some x"
    obtain v r' where "getrandbits k r = (v, r')" by fastforce
    with eq IH show "fst x < n" by (cases x) (fastforce split: if_splits)
  qed
  then show ?thesis by simp
qed

lemma bit_length_bounds:
  assumes "0 < n" and "n < 2 ^ 32"
  shows "0 < bit_length n" and "bit_length n \<le> 32"
proof -
  have "0 < bitlen (int n)"
    using assms(1) bitlen_eq_zero_iff [of "int n"] bitlen_nonneg [of "int n"] by linarith
  then show "0 < bit_length n" by (simp add: bit_length_def)
  have "bitlen (int n) \<le> 32"
    using assms(2) by (subst bitlen_le_iff_power) auto
  then show "bit_length n \<le> 32" by (simp add: bit_length_def)
qed

lemma randbelow_hit:
  assumes n: "0 < n" "n < 2 ^ 32" and hit: "draw_at (bit_length n) r i < n"
  shows "\<exists>j\<le>i. randbelow n r = Some (draw_at (bit_length n) r j, advance (Suc j) r)"
proof -
  define j where "j = (LEAST j. draw_at (bit_length n) r j < n)"
  have "draw_at (bit_length n) r j < n" unfolding j_def by (rule LeastI [of _ i]) (rule hit)
  moreover have "\<forall>m<j. n \<le> draw_at (bit_length n) r m"
    unfolding j_def by (meson not_less_Least linorder_not_le)
  moreover have "j \<le> i" unfolding j_def by (rule Least_le) (rule hit)
  ultimately show ?thesis
    unfolding randbelow_def using randbelow_loop_hit [OF bit_length_bounds [OF n]] by blast
qed

lemma randbelow_loop_Some:
  "randbelow_loop n k r = Some x \<Longrightarrow> 0 < k \<Longrightarrow> k \<le> 32 \<Longrightarrow>
    \<exists>j. x = (draw_at k r j, advance (Suc j) r) \<and> draw_at k r j < n"
proof -
  assume ret: "randbelow_loop n k r = Some x" and "0 < k" "k \<le> 32"
  moreover have "0 < k \<longrightarrow> k \<le> 32 \<longrightarrow> (\<exists>j. x = (draw_at k r j, advance (Suc j) r) \<and> draw_at k r j < n)"
  proof (rule randbelow_loop.raw_induct [where P = "\<lambda>n k r x. 0 < k \<longrightarrow> k \<le> 32 \<longrightarrow>
      (\<exists>j. x = (draw_at k r j, advance (Suc j) r) \<and> draw_at k r j < n)", OF _ ret])
    fix f n k r x
    assume IH: "\<And>n k r x. f n k r = Some x \<Longrightarrow> 0 < k \<longrightarrow> k \<le> 32 \<longrightarrow>
        (\<exists>j. x = (draw_at k r j, advance (Suc j) r) \<and> draw_at k r j < n)"
      and eq: "(let (v, r') = getrandbits k r in if n \<le> v then f n k r' else Some (v, r')) = Some x"
    show "0 < k \<longrightarrow> k \<le> 32 \<longrightarrow> (\<exists>j. x = (draw_at k r j, advance (Suc j) r) \<and> draw_at k r j < n)"
    proof (intro impI)
      assume k: "0 < k" "k \<le> 32"
      show "\<exists>j. x = (draw_at k r j, advance (Suc j) r) \<and> draw_at k r j < n"
      proof (cases "n \<le> draw_at k r 0")
        case True
        with eq have "f n k (advance 1 r) = Some x" by (simp add: getrandbits_small [OF k])
        with IH k obtain j where "x = (draw_at k (advance 1 r) j, advance (Suc j) (advance 1 r))"
          "draw_at k (advance 1 r) j < n" by blast
        then show ?thesis by (intro exI [of _ "Suc j"]) (simp add: draw_at_advance)
      next
        case False
        with eq show ?thesis by (intro exI [of _ 0]) (simp add: getrandbits_small [OF k])
      qed
    qed
  qed
  ultimately show ?thesis by blast
qed

lemma randbelow_returns:
  assumes "0 < n" and "n < 2 ^ 32"
  shows "(\<exists>x. randbelow n r = Some x) \<longleftrightarrow> (\<exists>i. draw_at (bit_length n) r i < n)"
  using randbelow_hit [OF assms] randbelow_loop_Some bit_length_bounds [OF assms]
  unfolding randbelow_def by blast

text \<open>A choice only moves the position, and only ever picks a listed element.\<close>

lemma choice_Chosen:
  assumes "choice xs r = Chosen x r'"
  shows "x \<in> set xs"
  using assms
  by (auto simp: choice_def randbelow_def split: if_splits option.splits dest: randbelow_loop_range)

lemma choice_no_index_error: "xs \<noteq> [] \<Longrightarrow> choice xs r \<noteq> ChoiceIndexError"
  by (auto simp: choice_def split: option.splits)

end
