(* ===== verification/Net.thy ===== *)
theory Net
  imports Loop_Facts Faults Entropy
begin

text \<open>
  The simulated network (\<open>src/seedloop/_net.py\<close>) and the timeline (\<open>src/seedloop/_trace.py\<close>).
  The state of the transport extends the loop's record: a message in flight is a timer of the
  loop. \<open>'m\<close> is the type of payloads, \<open>'u\<close> of user callbacks, \<open>'v\<close> of recorded user events.
  Dictionaries are association lists in insertion order. Sets of addresses are HOL sets.
\<close>

section \<open>Timeline\<close>

datatype msg_event = SendEv | DropEv | DuplicateEv | DeliverEv | DropCrashedEv | DropPartitionedEv

datatype 'v event =
    UserEv pyfloat 'v
  | MsgEv pyfloat msg_event nat int int
  | PartitionScheduled pyfloat nat "int list list" pyfloat pyfloat
  | PartitionBegin pyfloat nat
  | PartitionHeal pyfloat nat
  | SlowScheduled pyfloat nat int int pyfloat pyfloat pyfloat
  | SlowBegin pyfloat nat
  | SlowEnd pyfloat nat
  | CrashScheduled pyfloat nat int pyfloat
  | CrashEv pyfloat nat int

fun ev_time :: "'v event \<Rightarrow> pyfloat" where
  "ev_time (UserEv t _) = t"
| "ev_time (MsgEv t _ _ _ _) = t"
| "ev_time (PartitionScheduled t _ _ _ _) = t"
| "ev_time (PartitionBegin t _) = t"
| "ev_time (PartitionHeal t _) = t"
| "ev_time (SlowScheduled t _ _ _ _ _ _) = t"
| "ev_time (SlowBegin t _) = t"
| "ev_time (SlowEnd t _) = t"
| "ev_time (CrashScheduled t _ _ _) = t"
| "ev_time (CrashEv t _ _) = t"

section \<open>State\<close>

datatype ('m, 'u) callback =
    Deliver nat int int 'm
  | BeginFaultPartition nat "int set list"
  | EndFaultPartition nat
  | BeginSlowLink nat "int set" pyfloat
  | EndSlowLink nat
  | BeginCrash nat int
  | Nop
  | SetResultUnlessCancelled nat
  | User 'u

record 'm endpoint =
  ep_address :: int
  ep_reliable :: bool
  ep_loss :: pyfloat
  ep_duplicate :: pyfloat
  ep_queue :: "(int \<times> 'm) list"
  ep_waiter :: "nat option"

record ('m, 'u, 'k, 'v) net = "(('m, 'u) callback, 'k) loop" +
  net_rng :: rng
  faults_rng :: rng
  timeline :: "'v event list"
  endpoints :: "(int \<times> 'm endpoint) list"
  next_mid :: nat
  partition :: "int set list option"
  reliable_clock :: "(int \<times> int) \<rightharpoonup> pyfloat"
  fault_partitions :: "(nat \<times> int set list) list"
  fault_slow_links :: "(nat \<times> (int set \<times> pyfloat)) list"
  crashed :: "int set"
  next_fault_id :: nat

definition net_init :: "rng \<Rightarrow> rng \<Rightarrow> ('m, 'u, 'k, 'v) net" where
  "net_init net faults = loop.extend loop_init
     \<lparr>net_rng = net, faults_rng = faults, timeline = [], endpoints = [], next_mid = 0,
      partition = None, reliable_clock = Map.empty, fault_partitions = [], fault_slow_links = [],
      crashed = {}, next_fault_id = 0\<rparr>"

definition record_event :: "'v event \<Rightarrow> ('m, 'u, 'k, 'v, 'w) net_scheme \<Rightarrow> ('m, 'u, 'k, 'v, 'w) net_scheme" where
  "record_event ev w = w\<lparr>timeline := timeline w @ [ev]\<rparr>"

text \<open>\<open>_LAT_MIN\<close> and \<open>_LAT_MAX\<close>: the floats the literals denote.\<close>

definition LAT_MIN :: pyfloat where
  "LAT_MIN = of_exact (1 / 1000)"

definition LAT_MAX :: pyfloat where
  "LAT_MAX = of_exact (20 / 1000)"

section \<open>Binding and partitions\<close>

definition new_endpoint :: "int \<Rightarrow> bool \<Rightarrow> pyfloat \<Rightarrow> pyfloat \<Rightarrow> 'm endpoint" where
  "new_endpoint address reliable loss duplicate =
     \<lparr>ep_address = address, ep_reliable = reliable, ep_loss = loss, ep_duplicate = duplicate,
      ep_queue = [], ep_waiter = None\<rparr>"

definition probability :: "pyfloat \<Rightarrow> bool" where
  "probability p = (py_le (Fin 0) p \<and> py_le p (Fin 1))"

definition bind_ep ::
    "int \<Rightarrow> bool \<Rightarrow> pyfloat \<Rightarrow> pyfloat \<Rightarrow> ('m, 'u, 'k, 'v, 'w) net_scheme \<Rightarrow>
     ('m, 'u, 'k, 'v, 'w) net_scheme \<times> outcome" where
  "bind_ep address reliable loss duplicate w =
     (if map_of (endpoints w) address \<noteq> None
      then (w, Raised (exn (SeedloopError ''address is already bound'')))
      else if \<not> probability loss
      then (w, Raised (exn (SeedloopError ''loss must be a probability in [0, 1]'')))
      else if \<not> probability duplicate
      then (w, Raised (exn (SeedloopError ''duplicate must be a probability in [0, 1]'')))
      else (w\<lparr>endpoints := AList.update address (new_endpoint address reliable loss duplicate)
                (endpoints w)\<rparr>, Done))"

definition set_partition :: "int set list \<Rightarrow> ('m, 'u, 'k, 'v, 'w) net_scheme \<Rightarrow> ('m, 'u, 'k, 'v, 'w) net_scheme" where
  "set_partition groups w = w\<lparr>partition := Some groups\<rparr>"

definition heal :: "('m, 'u, 'k, 'v, 'w) net_scheme \<Rightarrow> ('m, 'u, 'k, 'v, 'w) net_scheme" where
  "heal w = w\<lparr>partition := None\<rparr>"

definition bound_addresses :: "('m, 'u, 'k, 'v, 'w) net_scheme \<Rightarrow> int list" where
  "bound_addresses w = sort (map fst (endpoints w))"

text \<open>
  \<open>_cut\<close> compares the first group holding each address by object identity; the groups are
  separate set objects, so identity is the position in the list.
\<close>

fun group_index :: "int \<Rightarrow> int set list \<Rightarrow> nat option" where
  "group_index a [] = None"
| "group_index a (g # gs) = (if a \<in> g then Some 0 else map_option Suc (group_index a gs))"

definition cut :: "int set list option \<Rightarrow> int \<Rightarrow> int \<Rightarrow> bool" where
  "cut groups src dst = (case groups of None \<Rightarrow> False
     | Some gs \<Rightarrow> (case (group_index src gs, group_index dst gs) of
         (Some i, Some j) \<Rightarrow> i \<noteq> j
       | _ \<Rightarrow> False))"

definition reachable :: "int \<Rightarrow> int \<Rightarrow> ('m, 'u, 'k, 'v, 'w) net_scheme \<Rightarrow> bool" where
  "reachable src dst w =
     (if cut (partition w) src dst then False
      else \<forall>p\<in>set (fault_partitions w). \<not> cut (Some (snd p)) src dst)"

section \<open>Sending and delivering\<close>

definition slow_factor :: "int \<Rightarrow> int \<Rightarrow> ('m, 'u, 'k, 'v, 'w) net_scheme \<Rightarrow> pyfloat" where
  "slow_factor src dst w =
     fold (\<lambda>(_, (link_pair, link_factor)) factor.
             if link_pair = {src, dst} then py_mul factor link_factor else factor)
       (fault_slow_links w) (Fin 1)"

definition schedule_reliable ::
    "nat \<Rightarrow> int \<Rightarrow> int \<Rightarrow> 'm \<Rightarrow> pyfloat \<Rightarrow> ('m, 'u, 'k, 'v, 'w) net_scheme \<Rightarrow>
     ('m, 'u, 'k, 'v, 'w) net_scheme \<times> outcome" where
  "schedule_reliable mid src dst msg latency w =
     (let last = (case reliable_clock w (src, dst) of None \<Rightarrow> Fin 0 | Some t \<Rightarrow> t);
          when = py_max (py_add (sl_time w) latency) last
      in call_at when (Deliver mid src dst msg)
           (w\<lparr>reliable_clock := (reliable_clock w)((src, dst) \<mapsto> when)\<rparr>))"

text \<open>A draw from the \<open>"net"\<close> or \<open>"faults"\<close> sub-stream.\<close>

definition net_uniform ::
    "pyfloat \<Rightarrow> pyfloat \<Rightarrow> ('m, 'u, 'k, 'v, 'w) net_scheme \<Rightarrow>
     pyfloat \<times> ('m, 'u, 'k, 'v, 'w) net_scheme" where
  "net_uniform a b w = (let (x, r) = uniform a b (net_rng w) in (x, w\<lparr>net_rng := r\<rparr>))"

definition faults_uniform ::
    "pyfloat \<Rightarrow> pyfloat \<Rightarrow> ('m, 'u, 'k, 'v, 'w) net_scheme \<Rightarrow>
     pyfloat \<times> ('m, 'u, 'k, 'v, 'w) net_scheme" where
  "faults_uniform a b w = (let (x, r) = uniform a b (faults_rng w) in (x, w\<lparr>faults_rng := r\<rparr>))"

text \<open>\<open>p > 0.0 and random() < p\<close>: no draw unless the probability is positive.\<close>

definition faults_happens ::
    "pyfloat \<Rightarrow> ('m, 'u, 'k, 'v, 'w) net_scheme \<Rightarrow> bool \<times> ('m, 'u, 'k, 'v, 'w) net_scheme" where
  "faults_happens p w =
     (if py_lt (Fin 0) p
      then let (x, r) = py_random (faults_rng w) in (py_lt (Fin x) p, w\<lparr>faults_rng := r\<rparr>)
      else (False, w))"

definition send ::
    "'m endpoint \<Rightarrow> int \<Rightarrow> 'm \<Rightarrow> ('m, 'u, 'k, 'v, 'w) net_scheme \<Rightarrow>
     ('m, 'u, 'k, 'v, 'w) net_scheme \<times> outcome" where
  "send ep dst msg w =
     (let src = ep_address ep; mid = next_mid w;
          w1 = record_event (MsgEv (sl_time w) SendEv mid src dst) (w\<lparr>next_mid := Suc mid\<rparr>);
          (u, w2) = net_uniform LAT_MIN LAT_MAX w1;
          latency = py_mul u (slow_factor src dst w2)
      in if ep_reliable ep then schedule_reliable mid src dst msg latency w2
         else
           let (lost, w3) = faults_happens (ep_loss ep) w2 in
           if lost then (record_event (MsgEv (sl_time w3) DropEv mid src dst) w3, Done)
           else and_then (call_later latency (Deliver mid src dst msg) w3) (\<lambda>w4.
             let (dup, w5) = faults_happens (ep_duplicate ep) w4 in
             if dup then
               let w6 = record_event (MsgEv (sl_time w5) DuplicateEv mid src dst) w5;
                   (u', w7) = faults_uniform LAT_MIN LAT_MAX w6
               in call_later (py_mul u' (slow_factor src dst w7)) (Deliver mid src dst msg) w7
             else (w5, Done)))"

definition enqueue ::
    "int \<Rightarrow> int \<times> 'm \<Rightarrow> ('m, 'u, 'k, 'v, 'w) net_scheme \<Rightarrow> ('m, 'u, 'k, 'v, 'w) net_scheme \<times> outcome" where
  "enqueue addr item w = (case map_of (endpoints w) addr of
     None \<Rightarrow> (w, Done)
   | Some ep \<Rightarrow>
       let w1 = w\<lparr>endpoints := AList.update addr (ep\<lparr>ep_queue := ep_queue ep @ [item]\<rparr>) (endpoints w)\<rparr>
       in (case ep_waiter ep of
             None \<Rightarrow> (w1, Done)
           | Some f \<Rightarrow> if fut_done f w1 then (w1, Done) else complete_future f Result w1))"

definition deliver ::
    "nat \<Rightarrow> int \<Rightarrow> int \<Rightarrow> 'm \<Rightarrow> ('m, 'u, 'k, 'v, 'w) net_scheme \<Rightarrow>
     ('m, 'u, 'k, 'v, 'w) net_scheme \<times> outcome" where
  "deliver mid src dst msg w =
     (if src \<in> crashed w \<or> dst \<in> crashed w
      then (record_event (MsgEv (sl_time w) DropCrashedEv mid src dst) w, Done)
      else if \<not> reachable src dst w
      then (record_event (MsgEv (sl_time w) DropPartitionedEv mid src dst) w, Done)
      else enqueue dst (src, msg) (record_event (MsgEv (sl_time w) DeliverEv mid src dst) w))"

section \<open>Receiving\<close>

text \<open>
  \<open>recv\<close> as a coroutine: it returns an item, suspends on a future, or raises. When the awaited
  future is done the coroutine is resumed by \<open>recv_wake\<close>, with the exception the await raises
  (a cancellation) if there is one; the \<open>finally\<close> clears the waiter in every case.
\<close>

datatype 'm recv_result = Received "int \<times> 'm" | Suspended nat | RecvRaised exn

definition recv_loop ::
    "int \<Rightarrow> 'm endpoint \<Rightarrow> ('m, 'u, 'k, 'v, 'w) net_scheme \<Rightarrow>
     ('m, 'u, 'k, 'v, 'w) net_scheme \<times> 'm recv_result" where
  "recv_loop addr ep w = (case ep_queue ep of
     item # rest \<Rightarrow>
       (w\<lparr>endpoints := AList.update addr (ep\<lparr>ep_queue := rest\<rparr>) (endpoints w)\<rparr>, Received item)
   | [] \<Rightarrow>
       let (w1, f) = create_future w
       in (w1\<lparr>endpoints := AList.update addr (ep\<lparr>ep_waiter := Some f\<rparr>) (endpoints w1)\<rparr>, Suspended f))"

definition recv ::
    "int \<Rightarrow> ('m, 'u, 'k, 'v, 'w) net_scheme \<Rightarrow>
     ('m, 'u, 'k, 'v, 'w) net_scheme \<times> 'm recv_result" where
  "recv addr w = (case map_of (endpoints w) addr of
     None \<Rightarrow> (w, RecvRaised (exn (PyError ''NameError'')))
   | Some ep \<Rightarrow>
       if ep_waiter ep \<noteq> None
       then (w, RecvRaised (exn (SeedloopError ''concurrent recv on one endpoint is not supported'')))
       else recv_loop addr ep w)"

definition recv_wake ::
    "int \<Rightarrow> exn option \<Rightarrow> ('m, 'u, 'k, 'v, 'w) net_scheme \<Rightarrow>
     ('m, 'u, 'k, 'v, 'w) net_scheme \<times> 'm recv_result" where
  "recv_wake addr err w = (case map_of (endpoints w) addr of
     None \<Rightarrow> (w, RecvRaised (exn (PyError ''NameError'')))
   | Some ep \<Rightarrow>
       let ep' = ep\<lparr>ep_waiter := None\<rparr>;
           w1 = w\<lparr>endpoints := AList.update addr ep' (endpoints w)\<rparr>
       in (case err of
             Some e \<Rightarrow> (w1, RecvRaised e)
           | None \<Rightarrow> recv_loop addr ep' w1))"

section \<open>Scheduled faults\<close>

text \<open>One pass of the bipartition draw: each address goes to the first side below one half.\<close>

fun draw_sides :: "int list \<Rightarrow> int set \<Rightarrow> int set \<Rightarrow> rng \<Rightarrow> int set \<times> int set \<times> rng" where
  "draw_sides [] a b r = (a, b, r)"
| "draw_sides (x # xs) a b r =
     (let (v, r') = py_random r in
      if v < 1 / 2 then draw_sides xs (insert x a) b r' else draw_sides xs a (insert x b) r')"

partial_function (option) draw_bipartition :: "int list \<Rightarrow> rng \<Rightarrow> (int set list \<times> rng) option" where
  "draw_bipartition addrs r =
     (let (a, b, r') = draw_sides addrs {} {} r in
      if a \<noteq> {} \<and> b \<noteq> {} then Some ([a, b], r') else draw_bipartition addrs r')"

definition arg_int :: "py_arg \<Rightarrow> int" where
  "arg_int a = (case a of AddrArg x \<Rightarrow> x | BadArg \<Rightarrow> 0)"

definition groups_sets :: "groups_arg \<Rightarrow> int set list" where
  "groups_sets g = (case g of Groups gs \<Rightarrow> map group_addrs gs | BadGroups \<Rightarrow> [])"

definition commit_partition_fault ::
    "groups_arg \<Rightarrow> pyfloat \<Rightarrow> pyfloat \<Rightarrow> ('m, 'u, 'k, 'v, 'w) net_scheme \<Rightarrow>
     ('m, 'u, 'k, 'v, 'w) net_scheme \<times> outcome" where
  "commit_partition_fault fgroups now seconds w =
     (case (if fgroups \<noteq> Groups [] then Some (groups_sets fgroups, faults_rng w)
            else draw_bipartition (bound_addresses w) (faults_rng w)) of
        None \<Rightarrow> (w, Diverged)
      | Some (groups, r) \<Rightarrow>
          let w0 = w\<lparr>faults_rng := r\<rparr>;
              (start, w1) = faults_uniform (Fin 0) seconds w0;
              (fin, w2) = faults_uniform start seconds w1;
              fid = next_fault_id w2;
              w3 = record_event (PartitionScheduled now fid (map sorted_list_of_set groups)
                     (py_add now start) (py_add now fin)) (w2\<lparr>next_fault_id := Suc fid\<rparr>)
          in and_then (call_at (py_add now start) (BeginFaultPartition fid groups) w3)
               (call_at (py_add now fin) (EndFaultPartition fid)))"

text \<open>\<open>self._faults.choice\<close>, continued by the rest of the commit.\<close>

definition with_choice ::
    "int list \<Rightarrow> ('m, 'u, 'k, 'v, 'w) net_scheme \<Rightarrow>
     (int \<Rightarrow> ('m, 'u, 'k, 'v, 'w) net_scheme \<Rightarrow> ('m, 'u, 'k, 'v, 'w) net_scheme \<times> outcome) \<Rightarrow>
     ('m, 'u, 'k, 'v, 'w) net_scheme \<times> outcome" where
  "with_choice xs w f = (case choice xs (faults_rng w) of
     Chosen x r \<Rightarrow> f x (w\<lparr>faults_rng := r\<rparr>)
   | ChoiceIndexError \<Rightarrow> (w, Raised (exn (PyError ''IndexError'')))
   | ChoiceDiverges \<Rightarrow> (w, Diverged))"

text \<open>The rest of \<open>_commit_slow_link_fault\<close> once both ends are known.\<close>

definition commit_slow_resolved ::
    "pyfloat option \<Rightarrow> pyfloat \<Rightarrow> pyfloat \<Rightarrow> int \<Rightarrow> int \<Rightarrow> ('m, 'u, 'k, 'v, 'w) net_scheme \<Rightarrow>
     ('m, 'u, 'k, 'v, 'w) net_scheme \<times> outcome" where
  "commit_slow_resolved ffactor now seconds a b w =
     (let (factor, w0) = (case ffactor of Some f \<Rightarrow> (f, w) | None \<Rightarrow> faults_uniform (Fin 2) (Fin 50) w);
          (start, w1) = faults_uniform (Fin 0) seconds w0;
          (fin, w2) = faults_uniform start seconds w1;
          fid = next_fault_id w2;
          w3 = record_event (SlowScheduled now fid a b factor (py_add now start) (py_add now fin))
                 (w2\<lparr>next_fault_id := Suc fid\<rparr>)
      in and_then (call_at (py_add now start) (BeginSlowLink fid {a, b} factor) w3)
           (call_at (py_add now fin) (EndSlowLink fid)))"

definition commit_slow_link_fault ::
    "py_arg option \<Rightarrow> py_arg option \<Rightarrow> pyfloat option \<Rightarrow> pyfloat \<Rightarrow> pyfloat \<Rightarrow>
     ('m, 'u, 'k, 'v, 'w) net_scheme \<Rightarrow> ('m, 'u, 'k, 'v, 'w) net_scheme \<times> outcome" where
  "commit_slow_link_fault fa fb ffactor now seconds w = (case (fa, fb) of
     (None, None) \<Rightarrow>
       with_choice (bound_addresses w) w (\<lambda>a w.
         with_choice (filter (\<lambda>x. x \<noteq> a) (bound_addresses w)) w (\<lambda>b w.
           commit_slow_resolved ffactor now seconds a b w))
   | (None, Some b) \<Rightarrow>
       with_choice (filter (\<lambda>x. x \<noteq> arg_int b) (bound_addresses w)) w (\<lambda>a w.
         commit_slow_resolved ffactor now seconds a (arg_int b) w)
   | (Some a, None) \<Rightarrow>
       with_choice (filter (\<lambda>x. x \<noteq> arg_int a) (bound_addresses w)) w (\<lambda>b w.
         commit_slow_resolved ffactor now seconds (arg_int a) b w)
   | (Some a, Some b) \<Rightarrow> commit_slow_resolved ffactor now seconds (arg_int a) (arg_int b) w)"

definition commit_crash_fault ::
    "py_arg option \<Rightarrow> pyfloat option \<Rightarrow> pyfloat \<Rightarrow> pyfloat \<Rightarrow>
     ('m, 'u, 'k, 'v, 'w) net_scheme \<Rightarrow> ('m, 'u, 'k, 'v, 'w) net_scheme \<times> outcome" where
  "commit_crash_fault fnode fwhen now seconds w =
     (let (when, w0) = (case fwhen of Some t \<Rightarrow> (t, w) | None \<Rightarrow> faults_uniform (Fin 0) seconds w);
          schedule = (\<lambda>node w.
            let fid = next_fault_id w;
                w1 = record_event (CrashScheduled now fid node (py_add now when))
                       (w\<lparr>next_fault_id := Suc fid\<rparr>)
            in call_at (py_add now when) (BeginCrash fid node) w1)
      in case fnode of
           Some node \<Rightarrow> schedule (arg_int node) w0
         | None \<Rightarrow> with_choice (bound_addresses w0) w0 schedule)"

fun commit_fault ::
    "fault \<Rightarrow> pyfloat \<Rightarrow> ('m, 'u, 'k, 'v, 'w) net_scheme \<Rightarrow>
     ('m, 'u, 'k, 'v, 'w) net_scheme \<times> outcome" where
  "commit_fault (PartitionFault groups) seconds w = commit_partition_fault groups (sl_time w) seconds w"
| "commit_fault (SlowLinkFault a b factor) seconds w =
     commit_slow_link_fault a b factor (sl_time w) seconds w"
| "commit_fault (CrashFault node when) seconds w = commit_crash_fault node when (sl_time w) seconds w"
| "commit_fault UnknownFault seconds w = (w, Done)"

fun commit_faults ::
    "fault list \<Rightarrow> pyfloat \<Rightarrow> ('m, 'u, 'k, 'v, 'w) net_scheme \<Rightarrow>
     ('m, 'u, 'k, 'v, 'w) net_scheme \<times> outcome" where
  "commit_faults [] seconds w = (w, Done)"
| "commit_faults (f # fs) seconds w = and_then (commit_fault f seconds w) (commit_faults fs seconds)"

definition begin_fault_partition ::
    "nat \<Rightarrow> int set list \<Rightarrow> ('m, 'u, 'k, 'v, 'w) net_scheme \<Rightarrow> ('m, 'u, 'k, 'v, 'w) net_scheme" where
  "begin_fault_partition fid groups w =
     record_event (PartitionBegin (sl_time w) fid)
       (w\<lparr>fault_partitions := AList.update fid groups (fault_partitions w)\<rparr>)"

definition end_fault_partition ::
    "nat \<Rightarrow> ('m, 'u, 'k, 'v, 'w) net_scheme \<Rightarrow> ('m, 'u, 'k, 'v, 'w) net_scheme" where
  "end_fault_partition fid w =
     record_event (PartitionHeal (sl_time w) fid)
       (w\<lparr>fault_partitions := AList.delete fid (fault_partitions w)\<rparr>)"

definition begin_slow_link ::
    "nat \<Rightarrow> int set \<Rightarrow> pyfloat \<Rightarrow> ('m, 'u, 'k, 'v, 'w) net_scheme \<Rightarrow> ('m, 'u, 'k, 'v, 'w) net_scheme" where
  "begin_slow_link fid pair factor w =
     record_event (SlowBegin (sl_time w) fid)
       (w\<lparr>fault_slow_links := AList.update fid (pair, factor) (fault_slow_links w)\<rparr>)"

definition end_slow_link ::
    "nat \<Rightarrow> ('m, 'u, 'k, 'v, 'w) net_scheme \<Rightarrow> ('m, 'u, 'k, 'v, 'w) net_scheme" where
  "end_slow_link fid w =
     record_event (SlowEnd (sl_time w) fid)
       (w\<lparr>fault_slow_links := AList.delete fid (fault_slow_links w)\<rparr>)"

definition begin_crash ::
    "nat \<Rightarrow> int \<Rightarrow> ('m, 'u, 'k, 'v, 'w) net_scheme \<Rightarrow> ('m, 'u, 'k, 'v, 'w) net_scheme" where
  "begin_crash fid node w =
     record_event (CrashEv (sl_time w) fid node) (w\<lparr>crashed := insert node (crashed w)\<rparr>)"

end
