(* ===== verification/Net_Facts.thy ===== *)
theory Net_Facts
  imports Net
begin

text \<open>
  What the network guarantees. The messages in flight and the pending fault callbacks are the
  callbacks of the network among the loop's handles, in the order they will run: \<open>net_pend\<close>. The
  loop's own bookkeeping and everything user code can do through the loop leave that sequence
  alone; the operations of the network are the only ones that extend it, and running a callback
  takes its head away. The invariant \<open>net_inv\<close> relates the sequence to the timeline.
\<close>

section \<open>Pending network callbacks\<close>

fun is_net :: "('m, 'u) callback \<Rightarrow> bool" where
  "is_net Nop = False"
| "is_net (SetResultUnlessCancelled f) = False"
| "is_net (User u) = False"
| "is_net _ = True"

abbreviation tcb :: "'c handle timer \<Rightarrow> 'c" where
  "tcb t \<equiv> snd (snd (snd t))"

definition pend :: "('c, 'k, 'w) loop_scheme \<Rightarrow> 'c list" where
  "pend w = map snd (ready w) @ map tcb (sl_timers w)"

definition net_pend :: "('m, 'u, 'k, 'v, 'w) net_scheme \<Rightarrow> ('m, 'u) callback list" where
  "net_pend w = filter is_net (pend w)"

definition net_timers :: "('m, 'u, 'k, 'v, 'w) net_scheme \<Rightarrow> ('m, 'u) callback handle timer set" where
  "net_timers w = {t\<in>set (sl_timers w). is_net (tcb t)}"

definition handles_ok :: "('m, 'u, 'k, 'v, 'w) net_scheme \<Rightarrow> bool" where
  "handles_ok w = (\<not> closed w \<and> (\<forall>h\<in>cancelled w. \<not> is_net (snd h)) \<and>
     (\<forall>f. \<forall>c\<in>set (fut_cbs w f). \<not> is_net c))"

lemma insort_key_last:
  "(\<And>y. y \<in> set xs \<Longrightarrow> k y < k x) \<Longrightarrow> insort_key k x xs = xs @ [x]"
proof (induction xs)
  case (Cons y ys)
  then have "k y < k x" "insort_key k x ys = ys @ [x]" by auto
  then show ?case by (auto dest: leD)
qed simp

text \<open>A callback scheduled no earlier than every pending one of its kind runs after them.\<close>

lemma filter_pend_call_at:
  assumes ok: "loop_ok w" and c: "\<not> closed w" "when \<noteq> NaN"
  shows "P c \<Longrightarrow> filter P (pend (fst (call_at when c w))) =
    filter P (map snd (ready w)) @ map tcb (insort_key tkey (when, sl_timer_seq w, next_handle w, c)
      (filter (\<lambda>t. P (tcb t)) (sl_timers w)))"
    and "\<not> P c \<Longrightarrow> filter P (pend (fst (call_at when c w))) = filter P (pend w)"
proof -
  have s: "sorted (map tkey (sl_timers w))" using ok by (rule loop_ok_sorted)
  have e: "pend (fst (call_at when c w)) = map snd (ready w) @
      map tcb (insort_key tkey (when, sl_timer_seq w, next_handle w, c) (sl_timers w))"
    using c by (simp add: call_at_def pend_def heappush_def isnan_def)
  show "P c \<Longrightarrow> filter P (pend (fst (call_at when c w))) =
    filter P (map snd (ready w)) @ map tcb (insort_key tkey (when, sl_timer_seq w, next_handle w, c)
      (filter (\<lambda>t. P (tcb t)) (sl_timers w)))"
    using s by (simp add: e filter_map o_def filter_insort)
  show "\<not> P c \<Longrightarrow> filter P (pend (fst (call_at when c w))) = filter P (pend w)"
    by (simp add: e filter_map o_def filter_insort_triv pend_def [of w])
qed

lemma filter_pend_last:
  assumes ok: "loop_ok w" and c: "\<not> closed w" "when \<noteq> NaN" and "P c"
    and last: "\<And>t. t \<in> set (sl_timers w) \<Longrightarrow> P (tcb t) \<Longrightarrow> fst t \<le> when"
  shows "filter P (pend (fst (call_at when c w))) = filter P (pend w) @ [c]"
proof -
  have "tkey t < (when, sl_timer_seq w)" if "t \<in> set (filter (\<lambda>t. P (tcb t)) (sl_timers w))" for t
  proof -
    have t: "t \<in> set (sl_timers w)" "P (tcb t)" using that by auto
    have "fst (snd t) < sl_timer_seq w" using ok t(1) by (simp add: loop_ok_def timers_ok_def)
    with last [OF t] show ?thesis by (auto simp: tkey_def less_prod_def')
  qed
  then have "insort_key tkey (when, sl_timer_seq w, next_handle w, c) (filter (\<lambda>t. P (tcb t)) (sl_timers w)) =
      filter (\<lambda>t. P (tcb t)) (sl_timers w) @ [(when, sl_timer_seq w, next_handle w, c)]"
    by (intro insort_key_last) simp
  then show ?thesis
    unfolding filter_pend_call_at(1) [where P = P, OF ok c \<open>P c\<close>]
    by (simp add: pend_def filter_map o_def)
qed

lemma mset_pend_call_at:
  assumes "\<not> closed w" "when \<noteq> NaN"
  shows "mset (pend (fst (call_at when c w))) = add_mset c (mset (pend w))"
  using assms by (simp add: call_at_def pend_def heappush_def isnan_def)

text \<open>The bookkeeping of the loop keeps the pending network callbacks in order.\<close>

lemma filter_sorted_split:
  assumes "sorted (map k xs)" and "\<And>x y. k x \<le> k y \<Longrightarrow> Q y \<Longrightarrow> Q x"
  shows "xs = filter Q xs @ filter (\<lambda>x. \<not> Q x) xs"
  using assms(1)
proof (induction xs)
  case (Cons x xs)
  show ?case
  proof (cases "Q x")
    case False
    with Cons.prems assms(2) have "\<forall>y\<in>set xs. \<not> Q y" by auto
    with False show ?thesis by (simp add: filter_empty_conv)
  qed (use Cons in auto)
qed simp

lemma net_pend_fire_due [frame_simps]:
  assumes ok: "loop_ok w" and h: "handles_ok w"
  shows "net_pend (fire_due_timers w) = net_pend w"
proof -
  let ?due = "\<lambda>t. fst t \<le> sl_time w"
  let ?ts = "sl_timers w"
  have split: "?ts = filter ?due ?ts @ filter (\<lambda>t. \<not> ?due t) ?ts"
    by (rule filter_sorted_split [OF loop_ok_sorted [OF ok]]) (auto simp: tkey_def)
  have live: "filter is_net (map tcb (filter (\<lambda>t. ?due t \<and> snd (snd t) \<notin> cancelled w) ?ts)) =
      filter is_net (map tcb (filter ?due ?ts))"
    using h by (auto simp: filter_map o_def handles_ok_def intro!: arg_cong [where f = "map tcb"] filter_cong)
  have "net_pend w = filter is_net (map snd (ready w)) @ filter is_net (map tcb (filter ?due ?ts)) @
      filter is_net (map tcb (filter (\<lambda>t. \<not> ?due t) ?ts))"
    by (subst (1) net_pend_def, subst (1) pend_def, subst (1) split) simp
  then show ?thesis
    by (simp add: net_pend_def pend_def fire_due_timers_eq [OF ok] o_def live flip: live)
qed

lemma net_pend_purge:
  assumes "\<forall>h\<in>cancelled w. \<not> is_net (snd h)"
  shows "filter is_net (map tcb (purge_timers (cancelled w) ts)) = filter is_net (map tcb ts)"
proof -
  obtain xs where xs: "ts = xs @ purge_timers (cancelled w) ts"
    "\<forall>t\<in>set xs. snd (snd t) \<in> cancelled w" using purge_timers_suffix by blast
  have "filter is_net (map tcb xs) = []" using xs(2) assms by (auto simp: filter_empty_conv)
  then show ?thesis by (subst (2) xs(1)) simp
qed

lemma net_pend_autojump [frame_simps]:
  "handles_ok w \<Longrightarrow> net_pend (fst (autojump w)) = net_pend w"
  by (simp add: autojump_def purge_cancelled_timers_def net_pend_def pend_def Let_def handles_ok_def
      flip: net_pend_purge [of w "sl_timers w"])

lemma net_pend_cong:
  "sl_timers w' = sl_timers w \<Longrightarrow> ready w' = ready w \<Longrightarrow> net_pend w' = net_pend w"
  by (simp add: net_pend_def pend_def)

lemma net_pend_skip:
  "handles_ok w \<Longrightarrow> ready w = h # hs \<Longrightarrow> h \<in> cancelled w \<Longrightarrow> net_pend (w\<lparr>ready := hs\<rparr>) = net_pend w"
  by (auto simp: net_pend_def pend_def handles_ok_def)

lemma net_pend_pop:
  "ready w = h # hs \<Longrightarrow>
    net_pend w = (if is_net (snd h) then [snd h] else []) @ net_pend (w\<lparr>ready := hs\<rparr>)"
  by (simp add: net_pend_def pend_def)


section \<open>Operations that leave the network alone\<close>

definition ep_static :: "int \<times> 'm endpoint \<Rightarrow> int \<times> int \<times> bool \<times> pyfloat \<times> pyfloat" where
  "ep_static = (\<lambda>(a, ep). (a, ep_address ep, ep_reliable ep, ep_loss ep, ep_duplicate ep))"

text \<open>Everything the invariants of the network read, but for what the callbacks still pending are.\<close>

definition net_state where
  "net_state w = (timeline w, next_mid w, reliable_clock w, fault_partitions w, fault_slow_links w,
     crashed w, next_fault_id w, map ep_static (endpoints w))"

definition quiet :: "('m, 'u, 'k, 'v, 'w) net_scheme \<Rightarrow> ('m, 'u, 'k, 'v, 'w) net_scheme \<Rightarrow> bool" where
  "quiet w w' = (net_pend w' = net_pend w \<and> net_timers w' \<subseteq> net_timers w \<and>
     net_state w' = net_state w \<and> sl_time w \<le> sl_time w')"

definition base_ok :: "('m, 'u, 'k, 'v, 'w) net_scheme \<Rightarrow> bool" where
  "base_ok w = (loop_ok w \<and> handles_ok w)"

definition calm :: "('m, 'u, 'k, 'v, 'w) net_scheme \<Rightarrow> ('m, 'u, 'k, 'v, 'w) net_scheme \<Rightarrow> bool" where
  "calm w w' = (base_ok w \<longrightarrow> base_ok w' \<and> quiet w w')"

lemma calm_refl [simp]: "calm w w"
  by (simp add: calm_def quiet_def)

lemma calm_trans [trans]: "calm w w' \<Longrightarrow> calm w' w'' \<Longrightarrow> calm w w''"
  by (auto simp: calm_def quiet_def)

lemmas calm_unfold = calm_def quiet_def base_ok_def handles_ok_def loop_ok_def net_pend_def
  net_timers_def pend_def net_state_def

lemma calm_call_soon [inv_intros]: "\<not> is_net c \<Longrightarrow> calm w (fst (call_soon c w))"
  by (simp add: calm_unfold call_soon_def)

lemma calm_call_soon_all:
  "\<forall>c\<in>set cs. \<not> is_net c \<Longrightarrow> calm w (call_soon_all cs w)"
proof (induction cs arbitrary: w)
  case (Cons c cs)
  then have "calm w (fst (call_soon c w))" "calm (fst (call_soon c w)) (call_soon_all cs (fst (call_soon c w)))"
    by (auto intro: calm_call_soon)
  then show ?case using calm_trans by auto
qed simp

lemma calm_create_future [inv_intros]: "calm w (fst (create_future w))"
  by (simp add: calm_unfold create_future_def)

lemma calm_complete_future [inv_intros]: "calm w (fst (complete_future f r w))"
proof (cases "fut_done f w")
  case False
  let ?w = "w\<lparr>futs := (futs w)(f := r), fut_cbs := (fut_cbs w)(f := [])\<rparr>"
  have 1: "calm w ?w" by (simp add: calm_unfold)
  show ?thesis
  proof (cases "base_ok w")
    case True
    then have "calm ?w (call_soon_all (fut_cbs w f) ?w)"
      by (intro calm_call_soon_all) (auto simp: base_ok_def handles_ok_def)
    with calm_trans [OF 1] False show ?thesis by (simp add: complete_future_def)
  qed (simp add: calm_def)
qed (simp add: complete_future_def)

lemma calm_add_done_callback [inv_intros]: "\<not> is_net c \<Longrightarrow> calm w (add_done_callback f c w)"
  by (auto simp: add_done_callback_def intro: calm_call_soon) (simp add: calm_unfold)

lemma calm_cancel_handle [inv_intros]: "\<not> is_net (snd h) \<Longrightarrow> calm w (cancel_handle h w)"
  by (simp add: calm_unfold cancel_handle_def)

lemma calm_stop [inv_intros]: "calm w (stop w)"
  by (simp add: calm_unfold stop_def)

lemma net_state_call_at: "net_state (fst (call_at when c w)) = net_state w"
  by (simp add: net_state_def call_at_def)

lemma handles_ok_call_at: "handles_ok w \<Longrightarrow> handles_ok (fst (call_at when c w))"
  by (simp add: handles_ok_def call_at_def)

lemma calm_call_at [inv_intros]:
  assumes "\<not> is_net c" and "pf_ok when"
  shows "calm w (fst (call_at when c w))"
  unfolding calm_def
proof
  assume ok: "base_ok w"
  then have "loop_ok (fst (call_at when c w))" "handles_ok (fst (call_at when c w))"
    using assms by (auto simp: base_ok_def intro: loop_ok_call_at handles_ok_call_at)
  moreover have "net_pend (fst (call_at when c w)) = net_pend w"
    using ok assms filter_pend_call_at(2) [of w "when" is_net c]
    by (cases "closed w \<or> when = NaN") (auto simp: base_ok_def net_pend_def call_at_def isnan_def)
  moreover have "net_timers (fst (call_at when c w)) \<subseteq> net_timers w"
    using assms(1) by (auto simp: net_timers_def call_at_def)
  ultimately show "base_ok (fst (call_at when c w)) \<and> quiet w (fst (call_at when c w))"
    by (simp add: base_ok_def quiet_def net_state_call_at frame_simps)
qed

lemma calm_call_later [inv_intros]: "\<not> is_net c \<Longrightarrow> calm w (fst (call_later delay c w))"
  unfolding call_later_def by (intro calm_call_at) simp_all

lemma calm_heap [inv_intros]:
  "calm w (set_partition groups w)" "calm w (heal w)" "calm w (limit_steps n e w)"
  "calm w (w\<lparr>net_rng := r\<rparr>)" "calm w (w\<lparr>faults_rng := r\<rparr>)" "calm w (w\<lparr>sl_hooks := ks\<rparr>)"
  by (simp_all add: calm_unfold set_partition_def heal_def limit_steps_def)

text \<open>Touching the queue or the waiter of a bound endpoint.\<close>

lemma map_static_update:
  "map_of es a = Some ep \<Longrightarrow> ep_static (a, ep') = ep_static (a, ep) \<Longrightarrow>
    map ep_static (AList.update a ep' es) = map ep_static es"
  by (induction es) auto

lemma calm_endpoint:
  "map_of (endpoints w) a = Some ep \<Longrightarrow> ep_static (a, ep') = ep_static (a, ep) \<Longrightarrow>
    calm w (w\<lparr>endpoints := AList.update a ep' (endpoints w)\<rparr>)"
  by (simp add: calm_unfold map_static_update)

lemma calm_recv_loop:
  assumes "map_of (endpoints w) a = Some ep'" and "ep_static (a, ep) = ep_static (a, ep')"
  shows "calm w (fst (recv_loop a ep w))"
proof (cases "ep_queue ep")
  case Nil
  have "map_of (endpoints (fst (create_future w))) a = Some ep'"
    using assms(1) by (simp add: create_future_def)
  then have "calm (fst (create_future w)) (fst (recv_loop a ep w))"
    using Nil assms(2)
    by (auto simp: recv_loop_def ep_static_def split: prod.splits intro!: calm_endpoint)
  with calm_trans [OF calm_create_future] show ?thesis by blast
next
  case (Cons item rest)
  then show ?thesis
    using assms by (auto simp: recv_loop_def ep_static_def intro!: calm_endpoint)
qed

lemma calm_recv [inv_intros]: "calm w (fst (recv a w))"
  by (auto simp: recv_def split: option.splits intro: calm_recv_loop)

lemma calm_recv_wake [inv_intros]: "calm w (fst (recv_wake a err w))"
proof (cases "map_of (endpoints w) a")
  case (Some ep)
  let ?ep = "ep\<lparr>ep_waiter := None\<rparr>"
  let ?w = "w\<lparr>endpoints := AList.update a ?ep (endpoints w)\<rparr>"
  have 1: "calm w ?w" using Some by (intro calm_endpoint) (auto simp: ep_static_def)
  have "calm ?w (fst (recv_loop a ?ep ?w))" by (intro calm_recv_loop) simp_all
  with 1 calm_trans [OF 1] Some show ?thesis
    by (auto simp: recv_wake_def Let_def split: option.splits)
qed (simp add: recv_wake_def)

lemma calm_enqueue [inv_intros]: "calm w (fst (enqueue a item w))"
proof (cases "map_of (endpoints w) a")
  case (Some ep)
  let ?ep = "ep\<lparr>ep_queue := ep_queue ep @ [item]\<rparr>"
  let ?w = "w\<lparr>endpoints := AList.update a ?ep (endpoints w)\<rparr>"
  have 1: "calm w ?w" using Some by (intro calm_endpoint) (auto simp: ep_static_def)
  with calm_trans [OF 1] Some show ?thesis
    by (auto simp: enqueue_def Let_def split: option.splits intro: calm_complete_future)
qed (simp add: enqueue_def)

text \<open>The bookkeeping of a step.\<close>

lemma calm_count_step [inv_intros]: "calm w (fst (count_step w))"
  by (simp add: calm_unfold count_step_def split: option.splits nat.splits)

lemma handles_ok_cong:
  "closed w' = closed w \<Longrightarrow> cancelled w' = cancelled w \<Longrightarrow> fut_cbs w' = fut_cbs w \<Longrightarrow>
    handles_ok w' = handles_ok w"
  by (simp add: handles_ok_def)

lemma calm_autojump [inv_intros]: "calm w (fst (autojump w))"
  unfolding calm_def
proof
  assume ok: "base_ok w"
  let ?w = "fst (autojump w)"
  have "handles_ok ?w = handles_ok w"
    by (rule handles_ok_cong) (simp_all add: autojump_def purge_cancelled_timers_def Let_def)
  moreover have "net_timers ?w \<subseteq> net_timers w"
    using purge_timers_suffix [of "sl_timers w" "cancelled w"]
    by (auto simp: net_timers_def autojump_def purge_cancelled_timers_def Let_def dest: set_dropWhileD
        simp: purge_timers_dropWhile)
  moreover have "net_state ?w = net_state w"
    by (simp add: net_state_def autojump_def purge_cancelled_timers_def Let_def)
  moreover have "sl_time w \<le> sl_time ?w"
    by (auto simp: autojump_def purge_cancelled_timers_def Let_def py_max_def py_lt_def)
  ultimately show "base_ok ?w \<and> quiet w ?w"
    using ok by (simp add: base_ok_def quiet_def net_pend_autojump loop_ok_autojump)
qed

lemma net_state_more: "loop.more w' = loop.more w \<Longrightarrow> net_state w' = net_state w"
  by (cases w; cases w') (simp add: net_state_def)

lemma calm_fire_due [inv_intros]: "calm w (fire_due_timers w)"
  unfolding calm_def
proof
  assume ok: "base_ok w"
  let ?w = "fire_due_timers w"
  have l: "loop_ok w" using ok by (simp add: base_ok_def)
  have "handles_ok ?w = handles_ok w" "net_timers ?w \<subseteq> net_timers w"
    unfolding fire_due_timers_eq [OF l] by (auto simp: handles_ok_def net_timers_def)
  with ok net_pend_fire_due [of w] net_state_more [OF fire_due_frame(8)]
  show "base_ok ?w \<and> quiet w ?w"
    by (simp add: base_ok_def quiet_def loop_ok_fire_due fire_due_frame(1))
qed

lemma calm_cong:
  assumes "sl_time w' = sl_time w" "sl_timers w' = sl_timers w" "sl_timer_seq w' = sl_timer_seq w"
    "ready w' = ready w" "cancelled w' = cancelled w" "closed w' = closed w" "fut_cbs w' = fut_cbs w"
    "loop.more w' = loop.more w"
  shows "calm w w'"
  using assms net_state_more [OF assms(8)]
  by (simp add: calm_def quiet_def base_ok_def handles_ok_def loop_ok_def net_pend_def net_timers_def pend_def)

lemma run_settle_frame [frame_simps]:
  "closed (run_settle s w) = closed w" "fut_cbs (run_settle s w) = fut_cbs w"
  by (cases "(s, w)" rule: run_settle.cases; simp)+

lemma calm_check_watch [inv_intros]: "calm w (check_watch w)"
  by (rule calm_cong)
    (simp_all add: frame_simps, simp_all add: check_watch_def Let_def stop_def frame_simps split: option.splits)

lemma calm_skip:
  "base_ok w \<Longrightarrow> ready w = h # hs \<Longrightarrow> h \<in> cancelled w \<Longrightarrow> calm w (w\<lparr>ready := hs\<rparr>)"
  using net_pend_skip [of w h hs]
  by (simp add: calm_def quiet_def base_ok_def handles_ok_def loop_ok_def net_timers_def net_state_def)

end
