(* ===== verification/Net_Inv.thy ===== *)
theory Net_Inv
  imports Net_Facts
begin

text \<open>
  The invariant of the network and its preservation by every operation that is not quiet. Its
  parts: the timeline is ordered by time; message ids are the send order and every copy of a
  message that was not dropped at the sender is in flight or accounted for by exactly one event; a
  reliable link processes its messages in send order, each once; a crashed node takes part in no
  delivery; every scheduled fault window opens at most once and its end is always still pending
  while it is open; slow links only ever slow down.
\<close>

section \<open>What the timeline says of a message\<close>

fun is_msg :: "msg_event \<Rightarrow> nat \<Rightarrow> int \<Rightarrow> int \<Rightarrow> 'v event \<Rightarrow> bool" where
  "is_msg k mid s d (MsgEv t k' mid' s' d') = (k' = k \<and> mid' = mid \<and> s' = s \<and> d' = d)"
| "is_msg k mid s d _ = False"

definition n_ev :: "msg_event \<Rightarrow> nat \<Rightarrow> int \<Rightarrow> int \<Rightarrow> 'v event list \<Rightarrow> nat" where
  "n_ev k mid s d tr = length (filter (is_msg k mid s d) tr)"

fun send_mid :: "'v event \<Rightarrow> nat option" where
  "send_mid (MsgEv t SendEv mid s d) = Some mid"
| "send_mid _ = None"

definition sends :: "'v event list \<Rightarrow> nat list" where
  "sends tr = List.map_filter send_mid tr"

fun is_flight :: "nat \<Rightarrow> int \<Rightarrow> int \<Rightarrow> ('m, 'u) callback \<Rightarrow> bool" where
  "is_flight mid s d (Deliver mid' s' d' m) = (mid' = mid \<and> s' = s \<and> d' = d)"
| "is_flight mid s d _ = False"

definition n_flight :: "nat \<Rightarrow> int \<Rightarrow> int \<Rightarrow> ('m, 'u) callback list \<Rightarrow> nat" where
  "n_flight mid s d cs = length (filter (is_flight mid s d) cs)"

definition n_out :: "nat \<Rightarrow> int \<Rightarrow> int \<Rightarrow> 'v event list \<Rightarrow> nat" where
  "n_out mid s d tr = n_ev DeliverEv mid s d tr + n_ev DropCrashedEv mid s d tr +
     n_ev DropPartitionedEv mid s d tr"

section \<open>The parts of the invariant\<close>

definition times_ok where
  "times_ok tr now = (sorted (map ev_time tr) \<and> (\<forall>e\<in>set tr. ev_time e \<le> now))"

definition flow_ok where
  "flow_ok tr cs n = (sends tr = [0..<n] \<and>
     (\<forall>mid s d. n_ev SendEv mid s d tr + n_ev DuplicateEv mid s d tr =
        n_ev DropEv mid s d tr + n_out mid s d tr + n_flight mid s d cs) \<and>
     (\<forall>mid s d. n_ev DropEv mid s d tr + n_ev DuplicateEv mid s d tr \<le> n_ev SendEv mid s d tr))"

fun ev_mid :: "'v event \<Rightarrow> nat option" where
  "ev_mid (MsgEv t k mid s d) = Some mid"
| "ev_mid _ = None"

text \<open>No event about a message comes before the message is sent.\<close>

definition causal_ok where
  "causal_ok tr = sorted_wrt (\<lambda>e1 e2. \<forall>mid. send_mid e2 = Some mid \<longrightarrow> ev_mid e1 \<noteq> Some mid) tr"

fun link_send :: "int \<Rightarrow> int \<Rightarrow> 'v event \<Rightarrow> nat option" where
  "link_send s d (MsgEv t SendEv mid s' d') = (if s' = s \<and> d' = d then Some mid else None)"
| "link_send s d _ = None"

fun link_out :: "int \<Rightarrow> int \<Rightarrow> 'v event \<Rightarrow> nat option" where
  "link_out s d (MsgEv t k mid s' d') =
     (if k \<in> {DeliverEv, DropCrashedEv, DropPartitionedEv} \<and> s' = s \<and> d' = d then Some mid else None)"
| "link_out s d _ = None"

fun link_flight :: "int \<Rightarrow> int \<Rightarrow> ('m, 'u) callback \<Rightarrow> nat option" where
  "link_flight s d (Deliver mid s' d' m) = (if s' = s \<and> d' = d then Some mid else None)"
| "link_flight s d _ = None"

definition link_sends :: "int \<Rightarrow> int \<Rightarrow> 'v event list \<Rightarrow> nat list" where
  "link_sends s d tr = List.map_filter (link_send s d) tr"

definition link_outs :: "int \<Rightarrow> int \<Rightarrow> 'v event list \<Rightarrow> nat list" where
  "link_outs s d tr = List.map_filter (link_out s d) tr"

definition link_flights :: "int \<Rightarrow> int \<Rightarrow> ('m, 'u) callback list \<Rightarrow> nat list" where
  "link_flights s d cs = List.map_filter (link_flight s d) cs"

definition reliable_at :: "(int \<times> int \<times> bool \<times> pyfloat \<times> pyfloat) list \<Rightarrow> int \<Rightarrow> bool" where
  "reliable_at es s = (\<exists>a l d. map_of es s = Some (a, True, l, d))"

fun ev_src :: "'v event \<Rightarrow> int option" where
  "ev_src (MsgEv t k mid s d) = Some s"
| "ev_src _ = None"

fun cb_src :: "('m, 'u) callback \<Rightarrow> int option" where
  "cb_src (Deliver mid s d m) = Some s"
| "cb_src _ = None"

definition clock_map_ok :: "(int \<times> int \<rightharpoonup> pyfloat) \<Rightarrow> bool" where
  "clock_map_ok rc = (\<forall>l t. rc l = Some t \<longrightarrow> t \<noteq> NaN \<and> pf_ok t)"

definition link_ok where
  "link_ok tr cs rc ts es = (\<forall>s d. reliable_at es s \<longrightarrow>
     link_outs s d tr @ link_flights s d cs = link_sends s d tr \<and>
     (\<forall>t\<in>ts. link_flight s d (tcb t) \<noteq> None \<longrightarrow> (\<exists>c. rc (s, d) = Some c \<and> fst t \<le> c)))"

definition bound_ok where
  "bound_ok tr cs es = (\<forall>s. map_of es s = None \<longrightarrow>
     (\<forall>e\<in>set tr. ev_src e \<noteq> Some s) \<and> (\<forall>c\<in>set cs. cb_src c \<noteq> Some s))"

definition eps_ok where
  "eps_ok es = (distinct (map fst es) \<and> (\<forall>(a, a', r, l, d)\<in>set es. a' = a \<and> probability l \<and> probability d))"

fun crash_node :: "'v event \<Rightarrow> int option" where
  "crash_node (CrashEv t fid n) = Some n"
| "crash_node _ = None"

fun delivers_at :: "int \<Rightarrow> 'v event \<Rightarrow> bool" where
  "delivers_at n (MsgEv t k mid s d) = (k = DeliverEv \<and> (s = n \<or> d = n))"
| "delivers_at n _ = False"

definition crash_ok where
  "crash_ok tr cr = (cr = {n. \<exists>e\<in>set tr. crash_node e = Some n} \<and>
     sorted_wrt (\<lambda>e1 e2. \<forall>n. crash_node e1 = Some n \<longrightarrow> \<not> delivers_at n e2) tr)"

fun part_about :: "nat \<Rightarrow> ('m, 'u) callback \<Rightarrow> bool" where
  "part_about fid (BeginFaultPartition f gs) = (f = fid)"
| "part_about fid (EndFaultPartition f) = (f = fid)"
| "part_about fid _ = False"

fun slow_about :: "nat \<Rightarrow> ('m, 'u) callback \<Rightarrow> bool" where
  "slow_about fid (BeginSlowLink f p x) = (f = fid)"
| "slow_about fid (EndSlowLink f) = (f = fid)"
| "slow_about fid _ = False"

text \<open>
  The life of a fault window: waiting for its begin and its end, open with its end pending, or over.
\<close>

definition window_at :: "(nat \<Rightarrow> 'c \<Rightarrow> bool) \<Rightarrow> ('b \<Rightarrow> nat \<Rightarrow> 'c) \<Rightarrow> (nat \<Rightarrow> 'c) \<Rightarrow> 'c list \<Rightarrow>
    (nat \<times> 'b) list \<Rightarrow> nat \<Rightarrow> nat \<Rightarrow> bool" where
  "window_at about begin_cb end_cb cs act n fid =
     ((map_of act fid = None \<and> filter (about fid) cs = []) \<or>
     (map_of act fid = None \<and> fid < n \<and> (\<exists>x. filter (about fid) cs = [begin_cb x fid, end_cb fid])) \<or>
     (map_of act fid \<noteq> None \<and> fid < n \<and> filter (about fid) cs = [end_cb fid]))"

definition window_ok :: "(nat \<Rightarrow> 'c \<Rightarrow> bool) \<Rightarrow> ('b \<Rightarrow> nat \<Rightarrow> 'c) \<Rightarrow> (nat \<Rightarrow> 'c) \<Rightarrow> 'c list \<Rightarrow>
    (nat \<times> 'b) list \<Rightarrow> nat \<Rightarrow> bool" where
  "window_ok about begin_cb end_cb cs act n =
     (distinct (map fst act) \<and> (\<forall>fid. window_at about begin_cb end_cb cs act n fid))"

lemma window_at_cong:
  assumes "window_at about b e cs act n f" and "filter (about f) cs' = filter (about f) cs"
    and "map_of act' f = map_of act f" and "n \<le> n'"
  shows "window_at about b e cs' act' n' f"
  using assms(1,4) unfolding window_at_def assms(2,3) by auto

lemma window_ok_cong:
  "(\<And>fid. filter (about fid) cs' = filter (about fid) cs) \<Longrightarrow>
    window_ok about b e cs' act n = window_ok about b e cs act n"
  by (simp only: window_ok_def window_at_def)

abbreviation parts_ok where
  "parts_ok \<equiv> window_ok part_about (\<lambda>gs fid. BeginFaultPartition fid gs) EndFaultPartition"

abbreviation slows_ok where
  "slows_ok \<equiv> window_ok slow_about (\<lambda>(p, x) fid. BeginSlowLink fid p x) EndSlowLink"

definition slow_ok :: "pyfloat \<Rightarrow> bool" where
  "slow_ok f = (\<exists>r. f = Fin r \<and> 1 < r)"

definition factors_ok where
  "factors_ok cs act = ((\<forall>fid p f. BeginSlowLink fid p f \<in> set cs \<longrightarrow> slow_ok f) \<and>
     (\<forall>x\<in>set act. slow_ok (snd (snd x))))"

definition net_ok :: "('m, 'u, 'k, 'v, 'w) net_scheme \<Rightarrow> bool" where
  "net_ok w = (let es = map ep_static (endpoints w); cs = net_pend w; tr = timeline w in
     times_ok tr (sl_time w) \<and> flow_ok tr cs (next_mid w) \<and> causal_ok tr \<and>
     clock_map_ok (reliable_clock w) \<and> link_ok tr cs (reliable_clock w) (net_timers w) es \<and>
     bound_ok tr cs es \<and> eps_ok es \<and> crash_ok tr (crashed w) \<and>
     parts_ok cs (fault_partitions w) (next_fault_id w) \<and>
     slows_ok cs (fault_slow_links w) (next_fault_id w) \<and>
     factors_ok cs (fault_slow_links w))"

definition net_inv :: "('m, 'u, 'k, 'v, 'w) net_scheme \<Rightarrow> bool" where
  "net_inv w = (base_ok w \<and> net_ok w)"

lemma net_okI:
  assumes "es = map ep_static (endpoints w)" "cs = net_pend w" "tr = timeline w"
    "times_ok tr (sl_time w)" "flow_ok tr cs (next_mid w)" "causal_ok tr"
    "clock_map_ok (reliable_clock w)" "link_ok tr cs (reliable_clock w) (net_timers w) es"
    "bound_ok tr cs es" "eps_ok es" "crash_ok tr (crashed w)"
    "parts_ok cs (fault_partitions w) (next_fault_id w)"
    "slows_ok cs (fault_slow_links w) (next_fault_id w)"
    "factors_ok cs (fault_slow_links w)"
  shows "net_ok w"
  using assms by (simp add: net_ok_def Let_def)

lemma net_okD:
  assumes "net_ok w"
  shows "times_ok (timeline w) (sl_time w)" "flow_ok (timeline w) (net_pend w) (next_mid w)"
    "causal_ok (timeline w)" "clock_map_ok (reliable_clock w)"
    "link_ok (timeline w) (net_pend w) (reliable_clock w) (net_timers w) (map ep_static (endpoints w))"
    "bound_ok (timeline w) (net_pend w) (map ep_static (endpoints w))"
    "eps_ok (map ep_static (endpoints w))" "crash_ok (timeline w) (crashed w)"
    "parts_ok (net_pend w) (fault_partitions w) (next_fault_id w)"
    "slows_ok (net_pend w) (fault_slow_links w) (next_fault_id w)"
    "factors_ok (net_pend w) (fault_slow_links w)"
  using assms by (simp_all add: net_ok_def Let_def)

lemma link_ok_subset: "link_ok tr cs rc ts es \<Longrightarrow> ts' \<subseteq> ts \<Longrightarrow> link_ok tr cs rc ts' es"
  unfolding link_ok_def by blast

lemma times_ok_mono: "times_ok tr now \<Longrightarrow> now \<le> now' \<Longrightarrow> times_ok tr now'"
  unfolding times_ok_def by (auto intro: order_trans)

text \<open>A quiet operation keeps the invariant.\<close>

lemma net_inv_calm:
  assumes inv: "net_inv w" and calm: "calm w w'"
  shows "net_inv w'"
proof -
  have q: "base_ok w'" "net_pend w' = net_pend w" "net_timers w' \<subseteq> net_timers w"
    "sl_time w \<le> sl_time w'"
    and st: "timeline w' = timeline w" "next_mid w' = next_mid w" "reliable_clock w' = reliable_clock w"
    "fault_partitions w' = fault_partitions w" "fault_slow_links w' = fault_slow_links w"
    "crashed w' = crashed w" "next_fault_id w' = next_fault_id w"
    "map ep_static (endpoints w') = map ep_static (endpoints w)"
    using inv calm by (auto simp: calm_def quiet_def net_inv_def net_state_def)
  have "net_ok w" using inv by (simp add: net_inv_def)
  note d = net_okD [OF this]
  have "net_ok w'"
    using d(2-4,6-11) times_ok_mono [OF d(1) q(4)] link_ok_subset [OF d(5) q(3)]
    by (intro net_okI [OF refl refl refl]) (simp_all add: st q(2))
  with q(1) show ?thesis by (simp add: net_inv_def)
qed


section \<open>Appending to the timeline, extending the pending callbacks\<close>

lemma map_filter_append [simp]:
  "List.map_filter f (xs @ ys) = List.map_filter f xs @ List.map_filter f ys"
  by (simp add: List.map_filter_def)

lemma n_ev_append [simp]: "n_ev k mid s d (xs @ ys) = n_ev k mid s d xs + n_ev k mid s d ys"
  by (simp add: n_ev_def)

lemma n_ev_simps [simp]:
  "n_ev k mid s d [] = 0"
  "n_ev k mid s d (e # es) = (if is_msg k mid s d e then 1 else 0) + n_ev k mid s d es"
  by (simp_all add: n_ev_def)

lemma n_out_append [simp]: "n_out mid s d (xs @ ys) = n_out mid s d xs + n_out mid s d ys"
  by (simp add: n_out_def)

lemma sends_append [simp]: "sends (xs @ ys) = sends xs @ sends ys"
  by (simp add: sends_def)

lemma link_append [simp]:
  "link_sends s d (xs @ ys) = link_sends s d xs @ link_sends s d ys"
  "link_outs s d (xs @ ys) = link_outs s d xs @ link_outs s d ys"
  by (simp_all add: link_sends_def link_outs_def)

lemma trace_simps [simp]:
  "sends [] = []" "sends (e # es) = (case send_mid e of None \<Rightarrow> sends es | Some m \<Rightarrow> m # sends es)"
  "link_sends s d [] = []"
  "link_sends s d (e # es) = (case link_send s d e of None \<Rightarrow> link_sends s d es | Some m \<Rightarrow> m # link_sends s d es)"
  "link_outs s d [] = []"
  "link_outs s d (e # es) = (case link_out s d e of None \<Rightarrow> link_outs s d es | Some m \<Rightarrow> m # link_outs s d es)"
  by (auto simp: sends_def link_sends_def link_outs_def List.map_filter_def split: option.splits)

lemma neutral_simps:
  assumes "ev_mid e = None"
  shows "is_msg k mid s d e = False" "send_mid e = None" "link_send s d e = None" "link_out s d e = None"
    "ev_src e = None"
  using assms by (cases e; simp)+

lemma times_ok_append:
  "times_ok tr now \<Longrightarrow> \<forall>e\<in>set es. ev_time e = now \<Longrightarrow> times_ok (tr @ es) now"
proof -
  have "sorted (map ev_time es)" if "\<forall>e\<in>set es. ev_time e = now" for es :: "'a event list"
    using that by (induction es) auto
  then show "times_ok tr now \<Longrightarrow> \<forall>e\<in>set es. ev_time e = now \<Longrightarrow> times_ok (tr @ es) now"
    by (auto simp: times_ok_def sorted_append)
qed

lemma n_flight_mset: "n_flight mid s d cs = size (filter_mset (is_flight mid s d) (mset cs))"
  by (simp add: n_flight_def flip: mset_filter)

lemma flow_ok_mset: "mset cs' = mset cs \<Longrightarrow> flow_ok tr cs' n = flow_ok tr cs n"
  by (simp add: flow_ok_def n_flight_mset)

lemma link_flights_filter:
  "link_flights s d cs = map (\<lambda>c. the (link_flight s d c)) (filter (\<lambda>c. link_flight s d c \<noteq> None) cs)"
  by (simp add: link_flights_def List.map_filter_def o_def)

lemma in_sends: "mid \<in> set (sends tr) \<longleftrightarrow> (\<exists>e\<in>set tr. send_mid e = Some mid)"
  by (induction tr) (auto split: option.splits)

text \<open>Ids the timeline mentions have been handed out.\<close>

lemma flow_mid_less:
  assumes "flow_ok tr cs n" and "e \<in> set tr" and "ev_mid e = Some mid"
  shows "mid < n"
proof -
  obtain t k s d where e: "e = MsgEv t k mid s d" using assms(3) by (cases e) auto
  have pos: "0 < n_ev k mid s d tr"
    using assms(2) e by (force simp: n_ev_def filter_empty_conv)
  have eq: "n_ev SendEv mid s d tr + n_ev DuplicateEv mid s d tr =
      n_ev DropEv mid s d tr + n_out mid s d tr + n_flight mid s d cs"
    and le: "n_ev DropEv mid s d tr + n_ev DuplicateEv mid s d tr \<le> n_ev SendEv mid s d tr"
    using assms(1) unfolding flow_ok_def by blast+
  have "0 < n_ev SendEv mid s d tr"
    using pos eq le by (cases k) (simp_all add: n_out_def)
  then obtain e' where "e' \<in> set tr" "is_msg SendEv mid s d e'"
    by (auto simp: n_ev_def filter_empty_conv)
  from this(2) have "send_mid e' = Some mid" by (cases e') auto
  with \<open>e' \<in> set tr\<close> have "mid \<in> set (sends tr)" unfolding in_sends by blast
  then show ?thesis using assms(1) by (simp add: flow_ok_def)
qed

lemma causal_ok_append_one:
  "causal_ok tr \<Longrightarrow> (\<And>m. send_mid e = Some m \<Longrightarrow> \<forall>e'\<in>set tr. ev_mid e' \<noteq> Some m) \<Longrightarrow> causal_ok (tr @ [e])"
  by (auto simp: causal_ok_def sorted_wrt_append)

lemma crash_ok_append_one:
  assumes "crash_ok tr cr"
    and "cr' = (case crash_node e of Some n \<Rightarrow> insert n cr | None \<Rightarrow> cr)"
    and "\<And>n. n \<in> cr \<Longrightarrow> \<not> delivers_at n e"
  shows "crash_ok (tr @ [e]) cr'"
  using assms by (auto simp: crash_ok_def sorted_wrt_append split: option.splits)

text \<open>An event that is about no message and no crash.\<close>

lemma net_inv_record:
  assumes inv: "net_inv w" and t: "ev_time e = sl_time w" and e: "ev_mid e = None"
    and c: "crash_node e = None"
  shows "net_inv (record_event e w)"
proof -
  let ?w = "record_event e w"
  have base: "base_ok ?w"
    using inv by (simp add: net_inv_def base_ok_def loop_ok_def handles_ok_def record_event_def)
  have eq: "net_pend ?w = net_pend w" "net_timers ?w = net_timers w" "timeline ?w = timeline w @ [e]"
    "sl_time ?w = sl_time w" "next_mid ?w = next_mid w" "reliable_clock ?w = reliable_clock w"
    "endpoints ?w = endpoints w" "crashed ?w = crashed w" "fault_partitions ?w = fault_partitions w"
    "next_fault_id ?w = next_fault_id w" "fault_slow_links ?w = fault_slow_links w"
    by (simp_all add: record_event_def net_pend_def pend_def net_timers_def)
  have "net_ok w" using inv by (simp add: net_inv_def)
  note d = net_okD [OF this]
  note n = neutral_simps [OF e]
  have "net_ok ?w"
  proof (rule net_okI [OF refl refl refl], unfold eq)
    show "times_ok (timeline w @ [e]) (sl_time w)" using d(1) t by (intro times_ok_append) simp_all
    show "flow_ok (timeline w @ [e]) (net_pend w) (next_mid w)"
      using d(2) by (simp add: flow_ok_def n_out_def n)
    show "causal_ok (timeline w @ [e])" using d(3) n by (intro causal_ok_append_one) simp_all
    show "link_ok (timeline w @ [e]) (net_pend w) (reliable_clock w) (net_timers w) (map ep_static (endpoints w))"
      using d(5) by (simp add: link_ok_def n)
    show "bound_ok (timeline w @ [e]) (net_pend w) (map ep_static (endpoints w))"
      using d(6) by (simp add: bound_ok_def n)
    show "crash_ok (timeline w @ [e]) (crashed w)"
    proof (rule crash_ok_append_one [OF d(8)])
      show "\<not> delivers_at n e" for n using e by (cases e) auto
    qed (simp add: c)
  qed (rule d)+
  with base show ?thesis by (simp add: net_inv_def)
qed


section \<open>Binding an endpoint\<close>

lemma map_filter_Nil: "List.map_filter f xs = [] \<longleftrightarrow> (\<forall>x\<in>set xs. f x = None)"
  by (auto simp: List.map_filter_def filter_empty_conv)

lemma link_src:
  "link_send s d e = Some m \<Longrightarrow> ev_src e = Some s"
  "link_out s d e = Some m \<Longrightarrow> ev_src e = Some s"
  "link_flight s d c = Some m \<Longrightarrow> cb_src c = Some s"
proof -
  show "link_send s d e = Some m \<Longrightarrow> ev_src e = Some s"
    by (cases "(s, d, e)" rule: link_send.cases) (auto split: if_splits)
  show "link_out s d e = Some m \<Longrightarrow> ev_src e = Some s"
    by (cases "(s, d, e)" rule: link_out.cases) (auto split: if_splits)
  show "link_flight s d c = Some m \<Longrightarrow> cb_src c = Some s"
    by (cases "(s, d, c)" rule: link_flight.cases) (auto split: if_splits)
qed

lemma bound_ok_unbound:
  assumes "bound_ok tr cs es" and "map_of es s = None"
  shows "link_sends s d tr = []" "link_outs s d tr = []" "link_flights s d cs = []"
proof -
  have "\<forall>e\<in>set tr. ev_src e \<noteq> Some s" "\<forall>c\<in>set cs. cb_src c \<noteq> Some s"
    using assms by (auto simp: bound_ok_def)
  then show "link_sends s d tr = []" "link_outs s d tr = []" "link_flights s d cs = []"
    unfolding link_sends_def link_outs_def link_flights_def map_filter_Nil
    using link_src by (metis not_None_eq)+
qed

lemma net_timers_pend: "t \<in> net_timers w \<Longrightarrow> tcb t \<in> set (net_pend w)"
  by (auto simp: net_timers_def net_pend_def pend_def)

lemma map_of_static: "map_of (map ep_static es) a =
    map_option (\<lambda>ep. (ep_address ep, ep_reliable ep, ep_loss ep, ep_duplicate ep)) (map_of es a)"
  by (induction es) (auto simp: ep_static_def)

lemma net_inv_bind [inv_intros]:
  assumes inv: "net_inv w"
  shows "net_inv (fst (bind_ep a r l p w))"
proof (cases "map_of (endpoints w) a = None \<and> probability l \<and> probability p")
  case True
  let ?w = "fst (bind_ep a r l p w)"
  let ?es = "map ep_static (endpoints w)"
  have fresh: "a \<notin> fst ` set (endpoints w)" using True by (simp add: map_of_eq_None_iff)
  have none: "map_of ?es a = None" using True by (simp add: map_of_static)
  have eq: "net_pend ?w = net_pend w" "net_timers ?w = net_timers w" "timeline ?w = timeline w"
    "sl_time ?w = sl_time w" "next_mid ?w = next_mid w" "reliable_clock ?w = reliable_clock w"
    "crashed ?w = crashed w" "fault_partitions ?w = fault_partitions w"
    "next_fault_id ?w = next_fault_id w" "fault_slow_links ?w = fault_slow_links w"
    "map ep_static (endpoints ?w) = ?es @ [(a, a, r, l, p)]"
    using True fresh
    by (simp_all add: bind_ep_def net_pend_def pend_def net_timers_def update_fresh ep_static_def new_endpoint_def)
  have base: "base_ok ?w"
    using inv True by (simp add: net_inv_def base_ok_def loop_ok_def handles_ok_def bind_ep_def)
  have "net_ok w" using inv by (simp add: net_inv_def)
  note d = net_okD [OF this]
  note u = bound_ok_unbound [OF d(6) none]
  have nt: "link_flight a b (tcb t) = None" if "t \<in> net_timers w" for b t
  proof -
    have "cb_src (tcb t) \<noteq> Some a" using d(6) none net_timers_pend [OF that] by (auto simp: bound_ok_def)
    then show ?thesis using link_src(3) [of a b "tcb t"] by (cases "link_flight a b (tcb t)") auto
  qed
  have "net_ok ?w"
  proof (rule net_okI [OF refl refl refl], unfold eq)
    have rel: "reliable_at (?es @ [(a, a, r, l, p)]) s \<Longrightarrow> s = a \<or> reliable_at ?es s" for s
      by (auto simp: reliable_at_def map_add_def split: if_splits option.splits)
    show "link_ok (timeline w) (net_pend w) (reliable_clock w) (net_timers w) (?es @ [(a, a, r, l, p)])"
      unfolding link_ok_def
    proof (intro allI impI)
      fix s b
      assume "reliable_at (?es @ [(a, a, r, l, p)]) s"
      with rel consider "s = a" | "reliable_at ?es s" by blast
      then show "link_outs s b (timeline w) @ link_flights s b (net_pend w) = link_sends s b (timeline w) \<and>
          (\<forall>t\<in>net_timers w. link_flight s b (tcb t) \<noteq> None \<longrightarrow>
             (\<exists>c. reliable_clock w (s, b) = Some c \<and> fst t \<le> c))"
      proof cases
        case 1
        then show ?thesis using u nt by simp
      next
        case 2
        then show ?thesis using d(5) by (simp add: link_ok_def)
      qed
    qed
    show "bound_ok (timeline w) (net_pend w) (?es @ [(a, a, r, l, p)])"
      using d(6) by (auto simp: bound_ok_def map_of_append split: option.splits if_splits)
    show "eps_ok (?es @ [(a, a, r, l, p)])"
      using d(7) True fresh by (auto simp: eps_ok_def ep_static_def image_iff)
  qed (rule d)+
  with base show ?thesis by (simp add: net_inv_def)
qed (use inv in \<open>auto simp: bind_ep_def\<close>)


section \<open>Sending\<close>

subsection \<open>Latencies\<close>

lemma slow_factor_ge_one:
  assumes "\<forall>x\<in>set (fault_slow_links w). slow_ok (snd (snd x))"
  shows "Fin 1 \<le> slow_factor src dst w" and "slow_factor src dst w \<noteq> NaN"
proof -
  have step: "Fin 1 \<le> py_mul f g \<and> py_mul f g \<noteq> NaN" if "Fin 1 \<le> f" "f \<noteq> NaN" "slow_ok g" for f g
  proof -
    obtain r where r: "g = Fin r" "1 < r" using \<open>slow_ok g\<close> by (auto simp: slow_ok_def)
    have "pf_ok (Fin 1)" using over_big [of 1] by simp
    moreover have "1 \<le> a * r" if "1 \<le> a" for a using that r(2) by (simp add: mult_ge1_I)
    ultimately show ?thesis using that(1,2) r of_exact_ge [of 1] by (cases f) auto
  qed
  have "Fin 1 \<le> fold (\<lambda>(_, (q, g)) f. if q = {src, dst} then py_mul f g else f) ls f \<and>
      fold (\<lambda>(_, (q, g)) f. if q = {src, dst} then py_mul f g else f) ls f \<noteq> NaN"
    if "\<forall>x\<in>set ls. slow_ok (snd (snd x))" "Fin 1 \<le> f" "f \<noteq> NaN" for ls f
    using that
  proof (induction ls arbitrary: f)
    case (Cons x ls)
    obtain i q g where x: "x = (i, q, g)" by (cases x) auto
    from Cons.prems x have "slow_ok g" by simp
    with step [OF Cons.prems(2,3)] Cons show ?case by (auto simp: x)
  qed simp
  from this [OF assms, of "Fin 1"] show "Fin 1 \<le> slow_factor src dst w" "slow_factor src dst w \<noteq> NaN"
    by (simp_all add: slow_factor_def)
qed

lemma latency_bounds:
  "\<exists>v. fst (uniform LAT_MIN LAT_MAX r) = Fin v \<and> pf_ok (Fin v) \<and> 0 < v \<and> LAT_MIN \<le> Fin v \<and> Fin v \<le> LAT_MAX"
proof -
  have tiny: "is_double (1 / 1024)"
    using is_double_scaled [of 1 "-10"] by (simp add: power_int_minus)
  have lo: "1 / 1024 \<le> rnd (1 / 1000)" by (intro rnd_ge_double tiny) simp
  have mono: "rnd (1 / 1000) \<le> rnd (20 / 1000)" by (intro rnd_mono) simp
  have hi: "rnd (20 / 1000) \<le> 1" by (intro rnd_le_double) simp_all
  have o: "1 < over" by (rule over_big) simp
  have min: "LAT_MIN = Fin (rnd (1 / 1000))" and max: "LAT_MAX = Fin (rnd (20 / 1000))"
    unfolding LAT_MIN_def LAT_MAX_def using lo mono hi o by (intro of_exact_finite; simp)+
  have "\<exists>v. fst (uniform (Fin (rnd (1 / 1000))) (Fin (rnd (20 / 1000))) r) = Fin v \<and> pf_ok (Fin v) \<and>
      rnd (1 / 1000) \<le> v \<and> v \<le> rnd (20 / 1000)"
    using lo mono hi o by (intro uniform_bounds) (simp_all add: abs_less_iff)
  then obtain v where "fst (uniform (Fin (rnd (1 / 1000))) (Fin (rnd (20 / 1000))) r) = Fin v"
    "pf_ok (Fin v)" "rnd (1 / 1000) \<le> v" "v \<le> rnd (20 / 1000)" by blast
  with lo show ?thesis unfolding min max by (intro exI [of _ v]) auto
qed

lemma stretch:
  assumes "pf_ok (Fin v)" "0 < v" "Fin 1 \<le> f" "f \<noteq> NaN"
  shows "Fin v \<le> py_mul (Fin v) f" and "py_mul (Fin v) f \<noteq> NaN"
proof -
  have "v \<le> v * a" if "1 \<le> a" for a using that assms(2) by simp
  then show "Fin v \<le> py_mul (Fin v) f" "py_mul (Fin v) f \<noteq> NaN"
    using assms of_exact_ge [OF assms(1)] by (cases f; auto)+
qed

text \<open>The delay of a message under the links' current slow-down.\<close>

lemma send_latency:
  assumes "net_inv w" and "x = fst (uniform LAT_MIN LAT_MAX r)"
    and "fault_slow_links w' = fault_slow_links w"
  shows "LAT_MIN \<le> py_mul x (slow_factor src dst w')" and "py_mul x (slow_factor src dst w') \<noteq> NaN"
    and "Fin 0 \<le> py_mul x (slow_factor src dst w')"
proof -
  obtain v where v: "x = Fin v" "pf_ok (Fin v)" "0 < v" "LAT_MIN \<le> Fin v"
    using latency_bounds [of r] assms(2) by blast
  have "\<forall>y\<in>set (fault_slow_links w'). slow_ok (snd (snd y))"
    using net_okD(11) [of w] assms(1,3) by (auto simp: net_inv_def factors_ok_def)
  note s = stretch [OF v(2,3) slow_factor_ge_one [OF this, of src dst]]
  show "LAT_MIN \<le> py_mul x (slow_factor src dst w')" using v(4) s(1) unfolding v(1) by (rule order_trans)
  show "py_mul x (slow_factor src dst w') \<noteq> NaN" using s(2) unfolding v(1) .
  have "Fin 0 \<le> Fin v" using v(3) by simp
  then show "Fin 0 \<le> py_mul x (slow_factor src dst w')" using s(1) unfolding v(1) by (rule order_trans)
qed

lemma net_time:
  assumes "base_ok w"
  obtains t where "sl_time w = Fin t" "0 \<le> t" "pf_ok (Fin t)"
  using assms by (auto simp: base_ok_def loop_ok_def elim: clock_okE)

lemma due_later:
  assumes "base_ok w" and "Fin 0 \<le> d" and "d \<noteq> NaN"
  shows "sl_time w \<le> py_add (sl_time w) d" and "py_add (sl_time w) d \<noteq> NaN"
proof -
  obtain t where "sl_time w = Fin t" "pf_ok (Fin t)" using net_time [OF assms(1)] by metis
  then show "sl_time w \<le> py_add (sl_time w) d" "py_add (sl_time w) d \<noteq> NaN"
    using py_add_forward [OF _ assms(2,3), of t] by simp_all
qed

subsection \<open>Scheduling a network callback\<close>

lemma filter_net_pend: "(\<And>c. P c \<Longrightarrow> is_net c) \<Longrightarrow> filter P (net_pend w) = filter P (pend w)"
  by (auto simp: net_pend_def intro!: filter_cong)

lemma call_at_net:
  assumes base: "base_ok w" and "when": "when \<noteq> NaN" "pf_ok when" and c: "is_net c"
  shows "base_ok (fst (call_at when c w))"
    and "snd (call_at when c w) = Done"
    and "sl_time (fst (call_at when c w)) = sl_time w"
    and "net_state (fst (call_at when c w)) = net_state w"
    and "mset (net_pend (fst (call_at when c w))) = add_mset c (mset (net_pend w))"
    and "net_timers (fst (call_at when c w)) = insert (when, sl_timer_seq w, next_handle w, c) (net_timers w)"
proof -
  have nc: "\<not> closed w" "loop_ok w" "handles_ok w" using base by (auto simp: base_ok_def handles_ok_def)
  show "base_ok (fst (call_at when c w))"
    using nc "when" by (simp add: base_ok_def loop_ok_call_at handles_ok_call_at)
  show "snd (call_at when c w) = Done" using nc "when" by (simp add: call_at_def)
  show "sl_time (fst (call_at when c w)) = sl_time w" by (simp add: frame_simps)
  show "net_state (fst (call_at when c w)) = net_state w" by (rule net_state_call_at)
  show "mset (net_pend (fst (call_at when c w))) = add_mset c (mset (net_pend w))"
    using mset_pend_call_at [OF nc(1) "when"(1), of c] c by (simp add: net_pend_def)
  show "net_timers (fst (call_at when c w)) = insert (when, sl_timer_seq w, next_handle w, c) (net_timers w)"
    using nc "when" c by (auto simp: net_timers_def call_at_def)
qed

lemma call_at_net_other:
  assumes "base_ok w" and "when \<noteq> NaN" and "\<not> P c"
  shows "filter P (net_pend (fst (call_at when c w))) = filter P (net_pend w)"
  using assms filter_pend_call_at(2) [of w "when" "\<lambda>c. is_net c \<and> P c" c]
  by (simp add: base_ok_def handles_ok_def net_pend_def)

lemma call_at_net_last:
  assumes "base_ok w" and "when \<noteq> NaN" and "P c" "is_net c"
    and "\<And>t. t \<in> net_timers w \<Longrightarrow> P (tcb t) \<Longrightarrow> fst t \<le> when"
  shows "filter P (net_pend (fst (call_at when c w))) = filter P (net_pend w) @ [c]"
  using assms filter_pend_last [of w "when" "\<lambda>c. is_net c \<and> P c" c]
  by (simp add: base_ok_def handles_ok_def net_pend_def net_timers_def)


subsection \<open>The effect of a send\<close>

text \<open>
  What a send leaves behind: \<open>n\<close> copies in flight and the events \<open>evs\<close> after the send event. A
  reliable send puts its one copy behind every earlier one of the link.
\<close>

definition sent where
  "sent w w' mid src dst msg evs n = (base_ok w' \<and> sl_time w' = sl_time w \<and>
     mid = next_mid w \<and> next_mid w' = Suc mid \<and>
     timeline w' = timeline w @ MsgEv (sl_time w) SendEv mid src dst # evs \<and>
     ((evs, n) = ([], 1) \<or> (evs, n) = ([MsgEv (sl_time w) DropEv mid src dst], 0) \<or>
      (evs, n) = ([MsgEv (sl_time w) DuplicateEv mid src dst], 2)) \<and>
     mset (net_pend w') = replicate_mset n (Deliver mid src dst msg) + mset (net_pend w) \<and>
     (\<forall>P. \<not> P (Deliver mid src dst msg) \<longrightarrow> filter P (net_pend w') = filter P (net_pend w)) \<and>
     (\<forall>t\<in>net_timers w'. t \<in> net_timers w \<or> tcb t = Deliver mid src dst msg) \<and>
     map ep_static (endpoints w') = map ep_static (endpoints w) \<and>
     fault_partitions w' = fault_partitions w \<and> fault_slow_links w' = fault_slow_links w \<and>
     crashed w' = crashed w \<and> next_fault_id w' = next_fault_id w)"

definition sent_in_order where
  "sent_in_order w w' mid src dst msg evs = (evs = [] \<and>
     (let P = (\<lambda>c. link_flight src dst c \<noteq> None) in
      filter P (net_pend w') = filter P (net_pend w) @ [Deliver mid src dst msg]) \<and>
     (\<exists>when. reliable_clock w' = (reliable_clock w)((src, dst) \<mapsto> when) \<and> when \<noteq> NaN \<and> pf_ok when \<and>
        (\<forall>c. reliable_clock w (src, dst) = Some c \<longrightarrow> c \<le> when) \<and>
        (\<forall>t\<in>net_timers w'. t \<in> net_timers w \<or> fst t \<le> when)))"

lemma mset_set: "mset xs = replicate_mset n c + mset ys \<Longrightarrow> set xs \<subseteq> insert c (set ys)"
proof
  fix x
  assume e: "mset xs = replicate_mset n c + mset ys" and x: "x \<in> set xs"
  then have "x \<in># replicate_mset n c + mset ys" by (metis set_mset_mset)
  then show "x \<in> insert c (set ys)" by (auto split: if_splits)
qed

lemma n_flight_replicate:
  assumes "mset cs' = replicate_mset n c + mset cs"
  shows "n_flight mid s d cs' = (if is_flight mid s d c then n else 0) + n_flight mid s d cs"
proof -
  have "size (filter_mset Q (replicate_mset n c)) = (if Q c then n else 0)" for Q
    by (induction n) auto
  then show ?thesis by (simp add: n_flight_mset assms)
qed

lemma flow_ok_sent:
  assumes "flow_ok tr cs mid" and "mset cs' = replicate_mset n (Deliver mid src dst msg) + mset cs"
    and "(evs, n) = ([], 1) \<or> (evs, n) = ([MsgEv t DropEv mid src dst], 0) \<or>
      (evs, n) = ([MsgEv t' DuplicateEv mid src dst], 2)"
  shows "flow_ok (tr @ MsgEv t'' SendEv mid src dst # evs) cs' (Suc mid)"
  using assms(1,3) n_flight_replicate [OF assms(2)]
  by (auto simp: flow_ok_def n_out_def intro: le_SucI)

lemma link_ok_sent:
  assumes inv: "net_inv w" and sent: "sent w w' mid src dst msg evs n"
    and rel: "reliable_at (map ep_static (endpoints w)) src \<Longrightarrow> sent_in_order w w' mid src dst msg evs"
    and unrel: "\<not> reliable_at (map ep_static (endpoints w)) src \<Longrightarrow> reliable_clock w' = reliable_clock w"
  shows "link_ok (timeline w') (net_pend w') (reliable_clock w') (net_timers w') (map ep_static (endpoints w))"
  unfolding link_ok_def
proof (intro allI impI)
  let ?es = "map ep_static (endpoints w)"
  fix s d
  assume r: "reliable_at ?es s"
  have "net_ok w" using inv by (simp add: net_inv_def)
  with r have old: "link_outs s d (timeline w) @ link_flights s d (net_pend w) = link_sends s d (timeline w)"
    "\<And>t. t \<in> net_timers w \<Longrightarrow> link_flight s d (tcb t) \<noteq> None \<Longrightarrow> \<exists>c. reliable_clock w (s, d) = Some c \<and> fst t \<le> c"
    using net_okD(5) [of w] by (auto simp: link_ok_def)
  have tr: "timeline w' = timeline w @ MsgEv (sl_time w) SendEv mid src dst # evs"
    using sent by (simp add: sent_def)
  have evs: "link_sends s d evs = []" "link_outs s d evs = []" using sent by (auto simp: sent_def)
  show "link_outs s d (timeline w') @ link_flights s d (net_pend w') = link_sends s d (timeline w') \<and>
      (\<forall>t\<in>net_timers w'. link_flight s d (tcb t) \<noteq> None \<longrightarrow>
        (\<exists>c. reliable_clock w' (s, d) = Some c \<and> fst t \<le> c))"
  proof (cases "s = src \<and> d = dst")
    case True
    with r rel have o: "sent_in_order w w' mid src dst msg evs" by simp
    then obtain "when" where wh: "reliable_clock w' = (reliable_clock w)((src, dst) \<mapsto> when)"
      "\<forall>c. reliable_clock w (src, dst) = Some c \<longrightarrow> c \<le> when"
      "\<forall>t\<in>net_timers w'. t \<in> net_timers w \<or> fst t \<le> when" by (auto simp: sent_in_order_def)
    have "link_flights s d (net_pend w') = link_flights s d (net_pend w) @ [mid]"
      using o True by (simp add: sent_in_order_def link_flights_filter Let_def)
    moreover have "fst t \<le> when" if "t \<in> net_timers w'" "link_flight s d (tcb t) \<noteq> None" for t
      using old(2) [of t] that wh(2,3) True by fastforce
    ultimately show ?thesis using old(1) evs True wh(1) by (auto simp: tr)
  next
    case False
    then have nf: "link_flight s d (Deliver mid src dst msg) = None" by auto
    have "\<forall>P. \<not> P (Deliver mid src dst msg) \<longrightarrow> filter P (net_pend w') = filter P (net_pend w)"
      using sent by (simp add: sent_def)
    from this [THEN spec, of "\<lambda>c. link_flight s d c \<noteq> None"] nf
    have "link_flights s d (net_pend w') = link_flights s d (net_pend w)"
      unfolding link_flights_filter by simp
    moreover have "reliable_clock w' (s, d) = reliable_clock w (s, d)"
      using False rel unrel by (cases "reliable_at ?es src") (auto simp: sent_in_order_def)
    moreover have "t \<in> net_timers w" if "t \<in> net_timers w'" "link_flight s d (tcb t) \<noteq> None" for t
      using sent that nf by (auto simp: sent_def)
    ultimately show ?thesis using old evs False by (auto simp: tr)
  qed
qed

lemma net_inv_sent:
  assumes inv: "net_inv w" and sent: "sent w w' mid src dst msg evs n"
    and bound: "map_of (endpoints w) src \<noteq> None"
    and rel: "reliable_at (map ep_static (endpoints w)) src \<Longrightarrow> sent_in_order w w' mid src dst msg evs"
    and unrel: "\<not> reliable_at (map ep_static (endpoints w)) src \<Longrightarrow> reliable_clock w' = reliable_clock w"
  shows "net_inv w'"
proof -
  let ?D = "Deliver mid src dst msg"
  have "net_ok w" using inv by (simp add: net_inv_def)
  note d = net_okD [OF this]
  have s: "sl_time w' = sl_time w" "mid = next_mid w" "next_mid w' = Suc mid"
    "timeline w' = timeline w @ MsgEv (sl_time w) SendEv mid src dst # evs"
    "mset (net_pend w') = replicate_mset n ?D + mset (net_pend w)"
    "map ep_static (endpoints w') = map ep_static (endpoints w)"
    "fault_partitions w' = fault_partitions w" "fault_slow_links w' = fault_slow_links w"
    "crashed w' = crashed w" "next_fault_id w' = next_fault_id w"
    and evs: "(evs, n) = ([], 1) \<or> (evs, n) = ([MsgEv (sl_time w) DropEv mid src dst], 0) \<or>
      (evs, n) = ([MsgEv (sl_time w) DuplicateEv mid src dst], 2)"
    and P: "\<And>P. \<not> P ?D \<Longrightarrow> filter P (net_pend w') = filter P (net_pend w)"
    using sent unfolding sent_def by blast+
  note cs = mset_set [OF s(5)]
  have ev: "ev_time e = sl_time w" "ev_mid e = Some mid" "ev_src e = Some src" "crash_node e = None"
    "\<not> delivers_at m e" if "e \<in> set (MsgEv (sl_time w) SendEv mid src dst # evs)" for e m
    using that evs by auto
  have "net_ok w'"
  proof (rule net_okI [OF refl refl refl], unfold s(1,6-10))
    show "times_ok (timeline w') (sl_time w)"
      unfolding s(4) using ev(1) by (intro times_ok_append [OF d(1)]) blast
    show "flow_ok (timeline w') (net_pend w') (next_mid w')"
      unfolding s(3,4) using d(2) s(2) by (intro flow_ok_sent [OF _ s(5) evs]) simp
    have new: "\<forall>e\<in>set (timeline w). ev_mid e \<noteq> Some mid"
      using flow_mid_less [OF d(2)] s(2) by blast
    have nosend: "\<forall>e\<in>set evs. send_mid e = None" using evs by auto
    show "causal_ok (timeline w')"
      using d(3) new nosend unfolding s(4) causal_ok_def sorted_wrt_append
      using evs by auto
    show "clock_map_ok (reliable_clock w')"
    proof (cases "reliable_at (map ep_static (endpoints w)) src")
      case True
      then obtain "when" where "reliable_clock w' = (reliable_clock w)((src, dst) \<mapsto> when)"
        "when \<noteq> NaN" "pf_ok when" using rel by (auto simp: sent_in_order_def)
      then show ?thesis using d(4) unfolding clock_map_ok_def by simp
    qed (use d(4) unrel in simp)
    show "link_ok (timeline w') (net_pend w') (reliable_clock w') (net_timers w') (map ep_static (endpoints w))"
      by (rule link_ok_sent [OF inv sent rel unrel])
    have "map_of (map ep_static (endpoints w)) src \<noteq> None" using bound by (simp add: map_of_static)
    then show "bound_ok (timeline w') (net_pend w') (map ep_static (endpoints w))"
      using d(6) cs ev(3) unfolding bound_ok_def s(4) by (fastforce dest: subsetD)
    have "sorted_wrt (\<lambda>e1 e2. \<forall>n. crash_node e1 = Some n \<longrightarrow> \<not> delivers_at n e2)
        (MsgEv (sl_time w) SendEv mid src dst # evs)" using evs by auto
    then show "crash_ok (timeline w') (crashed w)"
      using d(8) ev(4,5) unfolding s(4) crash_ok_def sorted_wrt_append by auto
    show "parts_ok (net_pend w') (fault_partitions w) (next_fault_id w)"
      using d(9) P [of "part_about _"] by (subst window_ok_cong) simp_all
    show "slows_ok (net_pend w') (fault_slow_links w) (next_fault_id w)"
      using d(10) P [of "slow_about _"] by (subst window_ok_cong) simp_all
    show "factors_ok (net_pend w') (fault_slow_links w)"
      using d(11) cs by (auto simp: factors_ok_def)
  qed (use d(7) in simp)
  then show ?thesis using sent by (simp add: net_inv_def sent_def)
qed


text \<open>Each way a send can go.\<close>

lemma send_reliable:
  assumes inv: "net_inv w" and ep: "ep_reliable ep" "ep_address ep = src"
    and send: "send ep dst msg w = (w', e)"
  shows "e = Done \<and> sent w w' (next_mid w) src dst msg [] 1 \<and>
    (reliable_at (map ep_static (endpoints w)) src \<longrightarrow> sent_in_order w w' (next_mid w) src dst msg [])"
proof -
  have base: "base_ok w" and ok: "net_ok w" using inv by (simp_all add: net_inv_def)
  define x where "x = fst (uniform LAT_MIN LAT_MAX (net_rng w))"
  define w2 where "w2 = (record_event (MsgEv (sl_time w) SendEv (next_mid w) src dst)
    (w\<lparr>next_mid := Suc (next_mid w)\<rparr>))\<lparr>net_rng := snd (uniform LAT_MIN LAT_MAX (net_rng w))\<rparr>"
  define lat where "lat = py_mul x (slow_factor src dst w2)"
  define last where "last = (case reliable_clock w (src, dst) of None \<Rightarrow> Fin 0 | Some t \<Rightarrow> t)"
  define wh where "wh = py_max (py_add (sl_time w) lat) last"
  define w3 where "w3 = w2\<lparr>reliable_clock := (reliable_clock w)((src, dst) \<mapsto> wh)\<rparr>"
  have send': "send ep dst msg w = call_at wh (Deliver (next_mid w) src dst msg) w3"
    using ep by (simp add: send_def schedule_reliable_def net_uniform_def Let_def w2_def lat_def last_def
        wh_def w3_def x_def record_event_def case_prod_unfold)
  have fsl: "fault_slow_links w2 = fault_slow_links w" by (simp add: w2_def record_event_def)
  note l = send_latency [OF inv x_def fsl, of src dst, folded lat_def]
  note due = due_later [OF base l(3,2)]
  have last: "last \<noteq> NaN \<and> pf_ok last"
    using net_okD(4) [OF ok] over_pos by (auto simp: last_def clock_map_ok_def split: option.splits)
  have wh: "wh = max (py_add (sl_time w) lat) last"
    unfolding wh_def using due(2) last by (intro py_max_eq) auto
  have wh': "wh \<noteq> NaN" "pf_ok wh" using due(2) last unfolding wh by (auto simp: max_def)
  have base3: "base_ok w3"
    using base by (simp add: w3_def w2_def base_ok_def loop_ok_def handles_ok_def record_event_def)
  let ?c = "Deliver (next_mid w) src dst msg"
  have c: "is_net ?c" by simp
  note ca = call_at_net [OF base3 wh' c]
  have w': "w' = fst (call_at wh ?c w3)" "e = snd (call_at wh ?c w3)" using send send' by simp_all
  have p3: "net_pend w3 = net_pend w" "net_timers w3 = net_timers w" "sl_time w3 = sl_time w"
    by (simp_all add: w3_def w2_def net_pend_def pend_def net_timers_def record_event_def)
  have st: "net_state w' = net_state w3" using ca(4) by (simp add: w')
  have s3: "timeline w3 = timeline w @ [MsgEv (sl_time w) SendEv (next_mid w) src dst]"
    "next_mid w3 = Suc (next_mid w)" "reliable_clock w3 = (reliable_clock w)((src, dst) \<mapsto> wh)"
    "fault_partitions w3 = fault_partitions w" "fault_slow_links w3 = fault_slow_links w"
    "crashed w3 = crashed w" "next_fault_id w3 = next_fault_id w" "endpoints w3 = endpoints w"
    by (simp_all add: w3_def w2_def record_event_def)
  have other: "filter P (net_pend w') = filter P (net_pend w)" if "\<not> P ?c" for P
    using call_at_net_other [OF base3 wh'(1), of P ?c] that by (simp add: w' p3)
  have "sent w w' (next_mid w) src dst msg [] 1"
    using ca(1,3,5,6) st s3 other by (auto simp: sent_def w' p3 net_state_def)
  moreover have "reliable_at (map ep_static (endpoints w)) src \<longrightarrow> sent_in_order w w' (next_mid w) src dst msg []"
  proof
    assume rel: "reliable_at (map ep_static (endpoints w)) src"
    have lt: "fst t \<le> wh" if t: "t \<in> net_timers w" "link_flight src dst (tcb t) \<noteq> None" for t
    proof -
      obtain c where "reliable_clock w (src, dst) = Some c" "fst t \<le> c"
        using net_okD(5) [OF ok] rel t unfolding link_ok_def by blast
      then show ?thesis unfolding wh by (simp add: last_def max.coboundedI2)
    qed
    have "filter (\<lambda>c. link_flight src dst c \<noteq> None) (net_pend w') =
        filter (\<lambda>c. link_flight src dst c \<noteq> None) (net_pend w) @ [?c]"
      using call_at_net_last [OF base3 wh'(1), of "\<lambda>c. link_flight src dst c \<noteq> None" ?c] lt
      by (simp add: w' p3)
    moreover have "c \<le> wh" if "reliable_clock w (src, dst) = Some c" for c
      unfolding wh using that by (simp add: last_def)
    moreover have "t \<in> net_timers w \<or> fst t \<le> wh" if "t \<in> net_timers w'" for t
      using that ca(6) by (auto simp: w' p3)
    moreover have "reliable_clock w' = (reliable_clock w)((src, dst) \<mapsto> wh)"
      using st s3(3) by (simp add: net_state_def)
    ultimately show "sent_in_order w w' (next_mid w) src dst msg []"
      unfolding sent_in_order_def Let_def using wh' by (intro conjI exI [of _ wh]) simp_all
  qed
  moreover have "e = Done" using ca(2) by (simp add: w')
  ultimately show ?thesis by blast
qed


text \<open>Drawing from the fault stream, and a deliver call at a later time, keep what was sent.\<close>

lemma sent_trans_calm:
  assumes "sent w w' mid src dst msg evs n" and "calm w' w''" and "sl_time w'' = sl_time w'"
  shows "sent w w'' mid src dst msg evs n"
  using assms by (auto simp: sent_def calm_def quiet_def net_state_def)

lemma sent_drop:
  assumes base: "base_ok w2" and w2: "net_pend w2 = net_pend w" "net_timers w2 = net_timers w"
    "sl_time w2 = sl_time w" "timeline w2 = timeline w @ [MsgEv (sl_time w) SendEv mid src dst]"
    "next_mid w2 = Suc mid" "mid = next_mid w" "endpoints w2 = endpoints w"
    "fault_partitions w2 = fault_partitions w" "fault_slow_links w2 = fault_slow_links w"
    "crashed w2 = crashed w" "next_fault_id w2 = next_fault_id w"
  shows "sent w (record_event (MsgEv (sl_time w2) DropEv mid src dst) w2) mid src dst msg
    [MsgEv (sl_time w) DropEv mid src dst] 0"
  using assms
  by (simp add: sent_def record_event_def base_ok_def loop_ok_def handles_ok_def net_pend_def pend_def net_timers_def)

lemma sent_copy:
  assumes base: "base_ok w2" and d: "Fin 0 \<le> d" "d \<noteq> NaN" and w2: "net_pend w2 = net_pend w"
    "net_timers w2 = net_timers w"
    "sl_time w2 = sl_time w" "timeline w2 = timeline w @ [MsgEv (sl_time w) SendEv mid src dst]"
    "next_mid w2 = Suc mid" "mid = next_mid w" "endpoints w2 = endpoints w"
    "fault_partitions w2 = fault_partitions w" "fault_slow_links w2 = fault_slow_links w"
    "crashed w2 = crashed w" "next_fault_id w2 = next_fault_id w"
  shows "sent w (fst (call_later d (Deliver mid src dst msg) w2)) mid src dst msg [] 1"
    and "snd (call_later d (Deliver mid src dst msg) w2) = Done"
proof -
  let ?c = "Deliver mid src dst msg"
  note wh = due_later(2) [OF base d]
  note ca = call_at_net [OF base wh py_add_ok, of ?c]
  have "filter P (net_pend (fst (call_at (py_add (sl_time w2) d) ?c w2))) = filter P (net_pend w)"
    if "\<not> P ?c" for P
    using call_at_net_other [OF base wh, of P ?c] that by (simp add: w2)
  then show "sent w (fst (call_later d ?c w2)) mid src dst msg [] 1"
    using ca(1,3,4,5,6) w2 by (auto simp: sent_def net_state_def call_later_def)
  show "snd (call_later d ?c w2) = Done" using ca(2) by (simp add: call_later_def)
qed

text \<open>A realized duplicate adds its event and a second copy.\<close>

lemma sent_dup:
  assumes s1: "sent w w1 mid src dst msg [] 1" and d: "Fin 0 \<le> d" "d \<noteq> NaN"
    and w2: "w2 = record_event (MsgEv (sl_time w1) DuplicateEv mid src dst) w1"
  shows "sent w (fst (call_later d (Deliver mid src dst msg) (w2\<lparr>faults_rng := r\<rparr>))) mid src dst msg
      [MsgEv (sl_time w) DuplicateEv mid src dst] 2"
    and "snd (call_later d (Deliver mid src dst msg) (w2\<lparr>faults_rng := r\<rparr>)) = Done"
proof -
  let ?c = "Deliver mid src dst msg" and ?w = "w2\<lparr>faults_rng := r\<rparr>"
  have "base_ok w1" using s1 by (simp add: sent_def)
  then have base: "base_ok ?w"
    by (simp add: w2 record_event_def base_ok_def loop_ok_def handles_ok_def)
  note wh = due_later(2) [OF base d]
  note ca = call_at_net [OF base wh py_add_ok, of ?c]
  have p: "net_pend ?w = net_pend w1" "net_timers ?w = net_timers w1" "sl_time ?w = sl_time w1"
    by (simp_all add: w2 record_event_def net_pend_def pend_def net_timers_def)
  have "filter P (net_pend (fst (call_at (py_add (sl_time ?w) d) ?c ?w))) = filter P (net_pend w)"
    if "\<not> P ?c" for P
    using call_at_net_other [OF base wh, of P ?c] s1 that by (simp add: p sent_def)
  then show "sent w (fst (call_later d ?c ?w)) mid src dst msg [MsgEv (sl_time w) DuplicateEv mid src dst] 2"
    using ca(1,3,4,5,6) s1 unfolding p
    by (auto simp: sent_def net_state_def call_later_def p numeral_2_eq_2 w2 record_event_def)
  show "snd (call_later d ?c ?w) = Done" using ca(2) by (simp add: call_later_def)
qed

lemma faults_happens_cases:
  obtains b r where "faults_happens p w = (b, w\<lparr>faults_rng := r\<rparr>)"
proof (cases "py_lt (Fin 0) p")
  case False
  have "w\<lparr>faults_rng := faults_rng w\<rparr> = w" by simp
  with False that [of False "faults_rng w"] show ?thesis by (simp add: faults_happens_def)
next
  case True
  obtain x r where "py_random (faults_rng w) = (x, r)" by fastforce
  with True that [of "py_lt (Fin x) p" r] show ?thesis by (simp add: faults_happens_def)
qed

text \<open>What follows the first copy: perhaps a second one.\<close>

lemma sent_perhaps_dup:
  assumes inv: "net_inv w" and one: "sent w w4 mid src dst msg [] 1" and rc4: "reliable_clock w4 = reliable_clock w"
    and rest: "(let (dup, w5) = faults_happens p w4 in
        if dup then
          let w6 = record_event (MsgEv (sl_time w5) DuplicateEv mid src dst) w5;
              (u', w7) = faults_uniform LAT_MIN LAT_MAX w6
          in call_later (py_mul u' (slow_factor src dst w7)) (Deliver mid src dst msg) w7
        else (w5, Done)) = (w', e)"
  shows "e = Done \<and> (\<exists>evs n. sent w w' mid src dst msg evs n) \<and> reliable_clock w' = reliable_clock w"
proof -
  have fsl4: "fault_slow_links w4 = fault_slow_links w" using one by (simp add: sent_def)
  obtain dup r5 where dup: "faults_happens p w4 = (dup, w4\<lparr>faults_rng := r5\<rparr>)"
    by (rule faults_happens_cases)
  let ?w5 = "w4\<lparr>faults_rng := r5\<rparr>"
  have s5: "sent w ?w5 mid src dst msg [] 1"
    by (rule sent_trans_calm [OF one calm_heap(5)]) simp
  show ?thesis
  proof (cases dup)
    case False
    with rest dup have "w' = ?w5" "e = Done" by simp_all
    with s5 rc4 show ?thesis by auto
  next
    case True
    define w6 where "w6 = record_event (MsgEv (sl_time ?w5) DuplicateEv mid src dst) ?w5"
    define y where "y = fst (uniform LAT_MIN LAT_MAX (faults_rng w6))"
    define r7 where "r7 = snd (uniform LAT_MIN LAT_MAX (faults_rng w6))"
    have fsl7: "fault_slow_links (w6\<lparr>faults_rng := r7\<rparr>) = fault_slow_links w"
      by (simp add: w6_def record_event_def fsl4)
    note l7 = send_latency [OF inv y_def fsl7, of src dst]
    note sd = sent_dup [OF s5 l7(3,2) w6_def, of r7]
    have "call_later (py_mul y (slow_factor src dst (w6\<lparr>faults_rng := r7\<rparr>))) (Deliver mid src dst msg)
        (w6\<lparr>faults_rng := r7\<rparr>) = (w', e)"
      using rest dup True by (simp add: faults_uniform_def Let_def case_prod_unfold w6_def y_def r7_def)
    with sd show ?thesis
      by (auto simp: prod_eq_iff call_later_def call_at_def w6_def record_event_def rc4)
  qed
qed

lemma send_unreliable:
  assumes inv: "net_inv w" and ep: "\<not> ep_reliable ep" "ep_address ep = src"
    and send: "send ep dst msg w = (w', e)"
  shows "e = Done \<and> (\<exists>evs n. sent w w' (next_mid w) src dst msg evs n) \<and>
    reliable_clock w' = reliable_clock w"
proof -
  have base: "base_ok w" using inv by (simp_all add: net_inv_def)
  let ?mid = "next_mid w"
  let ?c = "Deliver ?mid src dst msg"
  define x where "x = fst (uniform LAT_MIN LAT_MAX (net_rng w))"
  define w2 where "w2 = (record_event (MsgEv (sl_time w) SendEv ?mid src dst)
    (w\<lparr>next_mid := Suc ?mid\<rparr>))\<lparr>net_rng := snd (uniform LAT_MIN LAT_MAX (net_rng w))\<rparr>"
  define lat where "lat = py_mul x (slow_factor src dst w2)"
  have rec: "fault_slow_links (w2\<lparr>faults_rng := r\<rparr>) = fault_slow_links w" for r
    by (simp add: w2_def record_event_def)
  have fsl: "fault_slow_links w2 = fault_slow_links w" by (simp add: w2_def record_event_def)
  note l = send_latency [OF inv x_def fsl, of src dst, folded lat_def]
  obtain lost r3 where lost: "faults_happens (ep_loss ep) w2 = (lost, w2\<lparr>faults_rng := r3\<rparr>)"
    by (rule faults_happens_cases)
  let ?w3 = "w2\<lparr>faults_rng := r3\<rparr>"
  have base3: "base_ok ?w3"
    using base by (simp add: w2_def base_ok_def loop_ok_def handles_ok_def record_event_def)
  have s3: "net_pend ?w3 = net_pend w" "net_timers ?w3 = net_timers w" "sl_time ?w3 = sl_time w"
    "timeline ?w3 = timeline w @ [MsgEv (sl_time w) SendEv ?mid src dst]"
    "next_mid ?w3 = Suc ?mid" "?mid = next_mid w" "endpoints ?w3 = endpoints w"
    "fault_partitions ?w3 = fault_partitions w" "fault_slow_links ?w3 = fault_slow_links w"
    "crashed ?w3 = crashed w" "next_fault_id ?w3 = next_fault_id w"
    by (simp_all add: w2_def net_pend_def pend_def net_timers_def record_event_def)
  have rc3: "reliable_clock ?w3 = reliable_clock w" by (simp add: w2_def record_event_def)
  have eq: "send ep dst msg w = (if lost then (record_event (MsgEv (sl_time ?w3) DropEv ?mid src dst) ?w3, Done)
      else and_then (call_later lat ?c ?w3) (\<lambda>w4.
        let (dup, w5) = faults_happens (ep_duplicate ep) w4 in
        if dup then
          let w6 = record_event (MsgEv (sl_time w5) DuplicateEv ?mid src dst) w5;
              (u', w7) = faults_uniform LAT_MIN LAT_MAX w6
          in call_later (py_mul u' (slow_factor src dst w7)) ?c w7
        else (w5, Done)))"
    using ep lost by (simp add: send_def net_uniform_def Let_def case_prod_unfold lat_def x_def w2_def record_event_def)
  show ?thesis
  proof (cases lost)
    case True
    then have "w' = record_event (MsgEv (sl_time ?w3) DropEv ?mid src dst) ?w3" "e = Done"
      using eq send by simp_all
    with sent_drop [OF base3 s3] rc3 show ?thesis by (auto simp: record_event_def)
  next
    case False
    define w4 where "w4 = fst (call_later lat ?c ?w3)"
    note cp = sent_copy [OF base3 l(3,2) s3, where msg = msg, folded w4_def]
    have cl: "call_later lat ?c ?w3 = (w4, Done)" using cp(2) by (simp add: w4_def prod_eq_iff)
    have rc4: "reliable_clock w4 = reliable_clock w"
      using rc3 by (simp add: w4_def call_later_def call_at_def)
    show ?thesis
      using sent_perhaps_dup [OF inv cp(1) rc4, of "ep_duplicate ep" w' e] send False cl unfolding eq by simp
  qed
qed

text \<open>Sending never fails, and keeps the invariant.\<close>

lemma net_inv_send [inv_intros]:
  assumes inv: "net_inv w" and ep: "map_of (endpoints w) src = Some ep"
  shows "net_inv (fst (send ep dst msg w))" and "snd (send ep dst msg w) = Done"
proof -
  have "eps_ok (map ep_static (endpoints w))" using net_okD(7) [of w] inv by (simp add: net_inv_def)
  then have addr: "ep_address ep = src"
    using map_of_SomeD [OF ep] by (force simp: eps_ok_def ep_static_def)
  obtain w' e where send: "send ep dst msg w = (w', e)" by fastforce
  have rel: "reliable_at (map ep_static (endpoints w)) src \<longleftrightarrow> ep_reliable ep"
    using ep by (auto simp: reliable_at_def map_of_static)
  have bound: "map_of (endpoints w) src \<noteq> None" using ep by simp
  have "net_inv w' \<and> e = Done"
  proof (cases "ep_reliable ep")
    case True
    then have s: "e = Done" "sent w w' (next_mid w) src dst msg [] 1"
        "sent_in_order w w' (next_mid w) src dst msg []"
      using send_reliable [OF inv True addr send] rel by auto
    have "net_inv w'" using rel True by (intro net_inv_sent [OF inv s(2) bound]) (auto intro: s(3))
    with s(1) show ?thesis by simp
  next
    case False
    from send_unreliable [OF inv False addr send] obtain evs n where s: "e = Done"
      "sent w w' (next_mid w) src dst msg evs n" "reliable_clock w' = reliable_clock w" by blast
    have "net_inv w'" using rel False s(3) by (intro net_inv_sent [OF inv s(2) bound]) auto
    with s(1) show ?thesis by simp
  qed
  with send show "net_inv (fst (send ep dst msg w))" and "snd (send ep dst msg w) = Done" by simp_all
qed


section \<open>Running a network callback\<close>

subsection \<open>Fault windows\<close>

lemma window_begin:
  assumes ok: "window_ok about b e (b x fid # cs) act n"
    and about: "\<And>f. about f (b x fid) \<longleftrightarrow> f = fid" and ne: "b x fid \<noteq> e fid"
  shows "window_ok about b e cs (AList.update fid x act) n"
  unfolding window_ok_def
proof (intro conjI allI)
  have "filter (about fid) (b x fid # cs) = b x fid # filter (about fid) cs" using about by simp
  moreover have "window_at about b e (b x fid # cs) act n fid" using ok by (simp add: window_ok_def)
  ultimately have f: "fid < n" "filter (about fid) cs = [e fid]"
    using ne unfolding window_at_def by auto
  show "distinct (map fst (AList.update fid x act))" using ok by (simp add: window_ok_def distinct_update)
  fix f
  show "window_at about b e cs (AList.update fid x act) n f"
  proof (cases "f = fid")
    case True
    with f show ?thesis by (simp add: window_at_def)
  next
    case False
    have "window_at about b e (b x fid # cs) act n f" using ok by (simp add: window_ok_def)
    then show ?thesis by (rule window_at_cong) (use about False in simp_all)
  qed
qed

lemma window_end:
  assumes ok: "window_ok about b e (e fid # cs) act n"
    and about: "\<And>f. about f (e fid) \<longleftrightarrow> f = fid" and ne: "\<And>x. b x fid \<noteq> e fid"
  shows "window_ok about b e cs (AList.delete fid act) n" and "map_of act fid \<noteq> None"
proof -
  have "filter (about fid) (e fid # cs) = e fid # filter (about fid) cs" using about by simp
  moreover have "window_at about b e (e fid # cs) act n fid" using ok by (simp add: window_ok_def)
  ultimately have f: "map_of act fid \<noteq> None" "filter (about fid) cs = []"
    using ne [symmetric] unfolding window_at_def by auto
  show "map_of act fid \<noteq> None" by (rule f)
  have "window_at about b e cs (AList.delete fid act) n f" for f
  proof (cases "f = fid")
    case True
    with f show ?thesis by (simp add: window_at_def)
  next
    case False
    have "window_at about b e (e fid # cs) act n f" using ok by (simp add: window_ok_def)
    then show ?thesis by (rule window_at_cong) (use about False in simp_all)
  qed
  then show "window_ok about b e cs (AList.delete fid act) n"
    using ok by (simp add: window_ok_def distinct_delete)
qed

lemma window_add:
  assumes ok: "window_ok about b e cs act n"
    and new: "filter (about n) cs' = filter (about n) cs @ [b x n, e n]"
    and old: "\<And>f. f \<noteq> n \<Longrightarrow> filter (about f) cs' = filter (about f) cs"
  shows "window_ok about b e cs' act (Suc n)"
  unfolding window_ok_def
proof (intro conjI allI)
  show "distinct (map fst act)" using ok by (simp add: window_ok_def)
  have at: "window_at about b e cs act n f" for f using ok by (simp add: window_ok_def)
  fix f
  show "window_at about b e cs' act (Suc n) f"
  proof (cases "f = n")
    case True
    with at [of n] new show ?thesis by (auto simp: window_at_def)
  next
    case False
    then show ?thesis by (intro window_at_cong [OF at]) (use old in simp_all)
  qed
qed

lemma window_mono:
  "window_ok about b e cs act n \<Longrightarrow> window_ok about b e cs act (Suc n)"
  unfolding window_ok_def by (auto intro: window_at_cong)

subsection \<open>Taking the callback from the ready queue\<close>

fun is_deliver :: "('m, 'u) callback \<Rightarrow> bool" where
  "is_deliver (Deliver mid s d m) = True"
| "is_deliver _ = False"

lemma pop_base:
  assumes "net_inv w" and "ready w = h # hs"
  shows "base_ok (w\<lparr>ready := hs\<rparr>)" and "net_timers (w\<lparr>ready := hs\<rparr>) = net_timers w"
  using assms by (simp_all add: net_inv_def base_ok_def loop_ok_def handles_ok_def net_timers_def)

lemma pop_other:
  assumes inv: "net_inv w" and pend: "net_pend w = c # cs" and c: "\<not> is_deliver c"
  shows "flow_ok (timeline w) cs (next_mid w)"
    and "link_ok (timeline w) cs (reliable_clock w) (net_timers w) (map ep_static (endpoints w))"
    and "bound_ok (timeline w) cs (map ep_static (endpoints w))"
    and "factors_ok cs (fault_slow_links w)"
    and "(\<And>f. \<not> part_about f c) \<Longrightarrow> parts_ok cs (fault_partitions w) (next_fault_id w)"
    and "(\<And>f. \<not> slow_about f c) \<Longrightarrow> slows_ok cs (fault_slow_links w) (next_fault_id w)"
proof -
  have nf: "is_flight mid s d c = False" "link_flight s d c = None" for mid s d
    using c by (cases c; simp)+
  have "net_ok w" using inv by (simp add: net_inv_def)
  note d = net_okD [OF this, unfolded pend]
  show "flow_ok (timeline w) cs (next_mid w)" using d(2) by (simp add: flow_ok_def n_flight_def nf)
  show "link_ok (timeline w) cs (reliable_clock w) (net_timers w) (map ep_static (endpoints w))"
    using d(5) by (simp add: link_ok_def link_flights_filter nf)
  show "bound_ok (timeline w) cs (map ep_static (endpoints w))" using d(6) by (simp add: bound_ok_def)
  show "factors_ok cs (fault_slow_links w)" using d(11) by (auto simp: factors_ok_def)
  show "parts_ok cs (fault_partitions w) (next_fault_id w)" if "\<And>f. \<not> part_about f c"
    using d(9) that by (subst window_ok_cong [of _ cs "c # cs"]) simp_all
  show "slows_ok cs (fault_slow_links w) (next_fault_id w)" if "\<And>f. \<not> slow_about f c"
    using d(10) that by (subst window_ok_cong [of _ cs "c # cs"]) simp_all
qed

lemma net_inv_begin_end_partition:
  assumes inv: "net_inv w" and r: "ready w = h # hs"
    and c: "snd h = BeginFaultPartition fid gs \<and> fps = AList.update fid gs (fault_partitions w) \<or>
      snd h = EndFaultPartition fid \<and> fps = AList.delete fid (fault_partitions w)"
  shows "net_inv (w\<lparr>ready := hs, fault_partitions := fps\<rparr>)"
proof -
  let ?v = "w\<lparr>ready := hs\<rparr>" and ?w = "w\<lparr>ready := hs, fault_partitions := fps\<rparr>"
  have n: "is_net (snd h)" using c by auto
  have pend: "net_pend w = snd h # net_pend ?v" using net_pend_pop [OF r] n by simp
  have nd: "\<not> is_deliver (snd h)" "\<not> slow_about f (snd h)" for f using c by auto
  note o = pop_other [OF inv pend nd(1)] and base = pop_base [OF inv r]
  have "net_ok w" using inv by (simp add: net_inv_def)
  note d = net_okD [OF this]
  have eq: "net_pend ?w = net_pend ?v" "net_timers ?w = net_timers w"
    by (simp_all add: net_pend_def pend_def net_timers_def)
  have base': "base_ok ?w"
    using base by (simp add: base_ok_def loop_ok_def handles_ok_def)
  have parts: "parts_ok (net_pend ?v) fps (next_fault_id w)"
    using c
  proof
    assume c: "snd h = BeginFaultPartition fid gs \<and> fps = AList.update fid gs (fault_partitions w)"
    with d(9) pend have
      "parts_ok (BeginFaultPartition fid gs # net_pend ?v) (fault_partitions w) (next_fault_id w)" by simp
    from window_begin [of part_about _ _ _ fid, OF this] c show ?thesis by auto
  next
    assume c: "snd h = EndFaultPartition fid \<and> fps = AList.delete fid (fault_partitions w)"
    with d(9) pend have
      "parts_ok (EndFaultPartition fid # net_pend ?v) (fault_partitions w) (next_fault_id w)" by simp
    from window_end(1) [of part_about _ _ fid, OF this] c show ?thesis by auto
  qed
  have "net_ok ?w"
    by (rule net_okI [OF refl refl refl])
      (use d o(1-4) o(6) [OF nd(2)] parts in \<open>simp_all add: eq\<close>)
  with base' show ?thesis by (simp add: net_inv_def)
qed

lemma net_inv_begin_end_slow:
  assumes inv: "net_inv w" and r: "ready w = h # hs"
    and c: "snd h = BeginSlowLink fid p x \<and> fsl = AList.update fid (p, x) (fault_slow_links w) \<or>
      snd h = EndSlowLink fid \<and> fsl = AList.delete fid (fault_slow_links w)"
  shows "net_inv (w\<lparr>ready := hs, fault_slow_links := fsl\<rparr>)"
proof -
  let ?v = "w\<lparr>ready := hs\<rparr>" and ?w = "w\<lparr>ready := hs, fault_slow_links := fsl\<rparr>"
  have n: "is_net (snd h)" using c by auto
  have pend: "net_pend w = snd h # net_pend ?v" using net_pend_pop [OF r] n by simp
  have nd: "\<not> is_deliver (snd h)" "\<not> part_about f (snd h)" for f using c by auto
  note o = pop_other [OF inv pend nd(1)] and base = pop_base [OF inv r]
  have "net_ok w" using inv by (simp add: net_inv_def)
  note d = net_okD [OF this]
  have eq: "net_pend ?w = net_pend ?v" "net_timers ?w = net_timers w"
    by (simp_all add: net_pend_def pend_def net_timers_def)
  have base': "base_ok ?w"
    using base by (simp add: base_ok_def loop_ok_def handles_ok_def)
  have slows: "slows_ok (net_pend ?v) fsl (next_fault_id w)"
    using c
  proof
    assume c: "snd h = BeginSlowLink fid p x \<and> fsl = AList.update fid (p, x) (fault_slow_links w)"
    with d(10) pend have "slows_ok ((case (p, x) of (p, x) \<Rightarrow> \<lambda>fid. BeginSlowLink fid p x) fid # net_pend ?v)
      (fault_slow_links w) (next_fault_id w)" by simp
    from window_begin [OF this] c show ?thesis by auto
  next
    assume c: "snd h = EndSlowLink fid \<and> fsl = AList.delete fid (fault_slow_links w)"
    with d(10) pend have
      "slows_ok (EndSlowLink fid # net_pend ?v) (fault_slow_links w) (next_fault_id w)" by simp
    from window_end(1) [OF this] c show ?thesis by auto
  qed
  have factors: "factors_ok (net_pend ?v) fsl"
  proof -
    have "snd h \<in> set (net_pend w)" using pend by simp
    then have "slow_ok x" if "snd h = BeginSlowLink fid p x" using d(11) that by (auto simp: factors_ok_def)
    then show ?thesis
      using c o(4) set_update_subset [of fid "(p, x)" "fault_slow_links w"]
        set_delete_subset [of fid "fault_slow_links w"]
      unfolding factors_ok_def by fastforce
  qed
  have "net_ok ?w"
    by (rule net_okI [OF refl refl refl])
      (use d o(1-4) o(5) [OF nd(2)] slows factors in \<open>simp_all add: eq\<close>)
  with base' show ?thesis by (simp add: net_inv_def)
qed


lemma net_inv_crash:
  assumes inv: "net_inv w" and r: "ready w = h # hs" and c: "snd h = BeginCrash fid node"
  shows "net_inv (begin_crash fid node (w\<lparr>ready := hs\<rparr>))"
proof -
  let ?v = "w\<lparr>ready := hs\<rparr>"
  let ?w = "begin_crash fid node ?v"
  have pend: "net_pend w = snd h # net_pend ?v" using net_pend_pop [OF r] c by simp
  have nd: "\<not> is_deliver (snd h)" "\<not> part_about f (snd h)" "\<not> slow_about f (snd h)" for f using c by auto
  note o = pop_other [OF inv pend nd(1)] and base = pop_base [OF inv r]
  have "net_ok w" using inv by (simp add: net_inv_def)
  note d = net_okD [OF this]
  let ?e = "CrashEv (sl_time w) fid node"
  have eq: "net_pend ?w = net_pend ?v" "net_timers ?w = net_timers w" "timeline ?w = timeline w @ [?e]"
    by (simp_all add: begin_crash_def record_event_def net_pend_def pend_def net_timers_def)
  have fr: "sl_time ?w = sl_time w" "next_mid ?w = next_mid w" "reliable_clock ?w = reliable_clock w"
    "endpoints ?w = endpoints w" "crashed ?w = insert node (crashed w)"
    "fault_partitions ?w = fault_partitions w" "next_fault_id ?w = next_fault_id w"
    "fault_slow_links ?w = fault_slow_links w"
    by (simp_all add: begin_crash_def record_event_def)
  have base': "base_ok ?w"
    using base by (simp add: base_ok_def loop_ok_def handles_ok_def begin_crash_def record_event_def)
  note n = neutral_simps [of ?e]
  have "net_ok ?w"
  proof (rule net_okI [OF refl refl refl], unfold eq fr)
    show "times_ok (timeline w @ [?e]) (sl_time w)" using d(1) by (intro times_ok_append) simp_all
    show "flow_ok (timeline w @ [?e]) (net_pend ?v) (next_mid w)"
      using o(1) by (simp add: flow_ok_def n_out_def)
    show "causal_ok (timeline w @ [?e])" using d(3) by (intro causal_ok_append_one) simp_all
    show "link_ok (timeline w @ [?e]) (net_pend ?v) (reliable_clock w) (net_timers w) (map ep_static (endpoints w))"
      using o(2) by (simp add: link_ok_def)
    show "bound_ok (timeline w @ [?e]) (net_pend ?v) (map ep_static (endpoints w))"
      using o(3) by (simp add: bound_ok_def)
    show "crash_ok (timeline w @ [?e]) (insert node (crashed w))"
      by (rule crash_ok_append_one [OF d(8)]) simp_all
    show "parts_ok (net_pend ?v) (fault_partitions w) (next_fault_id w)" by (rule o(5)) (rule nd)
    show "slows_ok (net_pend ?v) (fault_slow_links w) (next_fault_id w)" by (rule o(6)) (rule nd)
    show "factors_ok (net_pend ?v) (fault_slow_links w)" by (rule o(4))
  qed (rule d)+
  with base' show ?thesis by (simp add: net_inv_def)
qed

text \<open>A delivery, whichever of its three ends it comes to.\<close>

lemma net_inv_out:
  assumes inv: "net_inv w" and r: "ready w = h # hs" and c: "snd h = Deliver mid src dst msg"
    and k: "k \<in> {DeliverEv, DropCrashedEv, DropPartitionedEv}"
    and alive: "k = DeliverEv \<Longrightarrow> src \<notin> crashed w \<and> dst \<notin> crashed w"
  shows "net_inv (record_event (MsgEv (sl_time w) k mid src dst) (w\<lparr>ready := hs\<rparr>))"
proof -
  let ?v = "w\<lparr>ready := hs\<rparr>"
  let ?e = "MsgEv (sl_time w) k mid src dst"
  let ?w = "record_event ?e ?v"
  have pend: "net_pend w = Deliver mid src dst msg # net_pend ?v" using net_pend_pop [OF r] c by simp
  note base = pop_base [OF inv r]
  have "net_ok w" using inv by (simp add: net_inv_def)
  note d = net_okD [OF this, unfolded pend]
  have eq: "net_pend ?w = net_pend ?v" "net_timers ?w = net_timers w" "timeline ?w = timeline w @ [?e]"
    by (simp_all add: record_event_def net_pend_def pend_def net_timers_def)
  have fr: "sl_time ?w = sl_time w" "next_mid ?w = next_mid w" "reliable_clock ?w = reliable_clock w"
    "endpoints ?w = endpoints w" "crashed ?w = crashed w" "fault_partitions ?w = fault_partitions w"
    "next_fault_id ?w = next_fault_id w" "fault_slow_links ?w = fault_slow_links w"
    by (simp_all add: record_event_def)
  have base': "base_ok ?w"
    using base by (simp add: base_ok_def loop_ok_def handles_ok_def record_event_def)
  have ns: "k \<noteq> SendEv" "k \<noteq> DuplicateEv" "k \<noteq> DropEv" using k by auto
  have send: "send_mid ?e = None" "link_send s x ?e = None" for s x using ns by (cases k; simp)+
  have "net_ok ?w"
  proof (rule net_okI [OF refl refl refl], unfold eq fr)
    show "times_ok (timeline w @ [?e]) (sl_time w)" using d(1) by (intro times_ok_append) simp_all
    show "flow_ok (timeline w @ [?e]) (net_pend ?v) (next_mid w)"
      using d(2) ns k unfolding flow_ok_def n_out_def n_flight_def by (auto simp: send split: if_splits)
    show "causal_ok (timeline w @ [?e])" by (rule causal_ok_append_one [OF d(3)]) (unfold send(1), simp)
    show "link_ok (timeline w @ [?e]) (net_pend ?v) (reliable_clock w) (net_timers w) (map ep_static (endpoints w))"
      using d(5) k unfolding link_ok_def link_flights_filter by (auto simp: send split: if_splits)
    have "map_of (map ep_static (endpoints w)) src \<noteq> None"
      using d(6) unfolding bound_ok_def by (metis cb_src.simps(1) list.set_intros(1))
    then show "bound_ok (timeline w @ [?e]) (net_pend ?v) (map ep_static (endpoints w))"
      using d(6) by (auto simp: bound_ok_def)
    show "crash_ok (timeline w @ [?e]) (crashed w)"
      by (rule crash_ok_append_one [OF d(8)]) (use alive in auto)
    show "parts_ok (net_pend ?v) (fault_partitions w) (next_fault_id w)"
      using d(9) by (subst window_ok_cong [of _ _ "Deliver mid src dst msg # net_pend ?v"]) simp_all
    show "slows_ok (net_pend ?v) (fault_slow_links w) (next_fault_id w)"
      using d(10) by (subst window_ok_cong [of _ _ "Deliver mid src dst msg # net_pend ?v"]) simp_all
    show "factors_ok (net_pend ?v) (fault_slow_links w)" using d(11) by (auto simp: factors_ok_def)
  qed (rule d)+
  with base' show ?thesis by (simp add: net_inv_def)
qed

lemma net_inv_deliver:
  assumes inv: "net_inv w" and r: "ready w = h # hs" and c: "snd h = Deliver mid src dst msg"
  shows "net_inv (fst (deliver mid src dst msg (w\<lparr>ready := hs\<rparr>)))"
proof -
  note out = net_inv_out [OF inv r c]
  show ?thesis
  proof (cases "src \<in> crashed w \<or> dst \<in> crashed w")
    case True
    then show ?thesis using out [of DropCrashedEv] by (simp add: deliver_def)
  next
    case alive: False
    show ?thesis
    proof (cases "reachable src dst (w\<lparr>ready := hs\<rparr>)")
      case True
      then show ?thesis
        using alive net_inv_calm [OF out [of DeliverEv] calm_enqueue] by (simp add: deliver_def)
    next
      case False
      then show ?thesis using alive out [of DropPartitionedEv] by (simp add: deliver_def)
    qed
  qed
qed

text \<open>All network callbacks, as the loop runs them.\<close>

fun run_net :: "('m, 'u) callback \<Rightarrow> ('m, 'u, 'k, 'v, 'w) net_scheme \<Rightarrow>
    ('m, 'u, 'k, 'v, 'w) net_scheme \<times> outcome" where
  "run_net (Deliver mid src dst msg) w = deliver mid src dst msg w"
| "run_net (BeginFaultPartition fid groups) w = (begin_fault_partition fid groups w, Done)"
| "run_net (EndFaultPartition fid) w = (end_fault_partition fid w, Done)"
| "run_net (BeginSlowLink fid pair factor) w = (begin_slow_link fid pair factor w, Done)"
| "run_net (EndSlowLink fid) w = (end_slow_link fid w, Done)"
| "run_net (BeginCrash fid node) w = (begin_crash fid node w, Done)"
| "run_net c w = (w, Done)"

lemma net_inv_run_net:
  assumes inv: "net_inv w" and r: "ready w = h # hs" and c: "is_net (snd h)"
  shows "net_inv (fst (run_net (snd h) (w\<lparr>ready := hs\<rparr>)))"
proof (cases "snd h")
  case (Deliver mid src dst msg)
  then show ?thesis using net_inv_deliver [OF inv r] by simp
next
  case (BeginFaultPartition fid gs)
  note i = net_inv_begin_end_partition [OF inv r, of fid gs "AList.update fid gs (fault_partitions w)"]
  have "net_inv (record_event (PartitionBegin (sl_time w) fid)
      (w\<lparr>ready := hs, fault_partitions := AList.update fid gs (fault_partitions w)\<rparr>))"
    using BeginFaultPartition by (intro net_inv_record i) simp_all
  with BeginFaultPartition show ?thesis by (simp add: begin_fault_partition_def)
next
  case (EndFaultPartition fid)
  note i = net_inv_begin_end_partition [OF inv r, of fid _ "AList.delete fid (fault_partitions w)"]
  have "net_inv (record_event (PartitionHeal (sl_time w) fid)
      (w\<lparr>ready := hs, fault_partitions := AList.delete fid (fault_partitions w)\<rparr>))"
    using EndFaultPartition by (intro net_inv_record i) simp_all
  with EndFaultPartition show ?thesis by (simp add: end_fault_partition_def)
next
  case (BeginSlowLink fid p x)
  note i = net_inv_begin_end_slow [OF inv r, of fid p x "AList.update fid (p, x) (fault_slow_links w)"]
  have "net_inv (record_event (SlowBegin (sl_time w) fid)
      (w\<lparr>ready := hs, fault_slow_links := AList.update fid (p, x) (fault_slow_links w)\<rparr>))"
    using BeginSlowLink by (intro net_inv_record i) simp_all
  with BeginSlowLink show ?thesis by (simp add: begin_slow_link_def)
next
  case (EndSlowLink fid)
  note i = net_inv_begin_end_slow [OF inv r, of fid _ _ "AList.delete fid (fault_slow_links w)"]
  have "net_inv (record_event (SlowEnd (sl_time w) fid)
      (w\<lparr>ready := hs, fault_slow_links := AList.delete fid (fault_slow_links w)\<rparr>))"
    using EndSlowLink by (intro net_inv_record i) simp_all
  with EndSlowLink show ?thesis by (simp add: end_slow_link_def)
next
  case (BeginCrash fid node)
  then show ?thesis using net_inv_crash [OF inv r] by simp
qed (use c in simp_all)


section \<open>Committing faults\<close>

text \<open>The invariant but for the fault windows, which are incomplete while a fault is committed.\<close>

definition net_core :: "('m, 'u, 'k, 'v, 'w) net_scheme \<Rightarrow> bool" where
  "net_core w = (let es = map ep_static (endpoints w); cs = net_pend w; tr = timeline w in
     base_ok w \<and> times_ok tr (sl_time w) \<and> flow_ok tr cs (next_mid w) \<and> causal_ok tr \<and>
     clock_map_ok (reliable_clock w) \<and> link_ok tr cs (reliable_clock w) (net_timers w) es \<and>
     bound_ok tr cs es \<and> eps_ok es \<and> crash_ok tr (crashed w) \<and> factors_ok cs (fault_slow_links w))"

lemma net_inv_core:
  "net_inv w \<longleftrightarrow> net_core w \<and> parts_ok (net_pend w) (fault_partitions w) (next_fault_id w) \<and>
     slows_ok (net_pend w) (fault_slow_links w) (next_fault_id w)"
  unfolding net_inv_def net_ok_def net_core_def Let_def by blast

lemma net_core_call_at:
  assumes core: "net_core w" and wh: "when \<noteq> NaN" "pf_ok when" and c: "is_net c" "\<not> is_deliver c"
    and slow: "\<And>fid p f. c = BeginSlowLink fid p f \<Longrightarrow> slow_ok f"
  shows "net_core (fst (call_at when c w))"
proof -
  let ?w = "fst (call_at when c w)"
  have d: "base_ok w" "times_ok (timeline w) (sl_time w)" "flow_ok (timeline w) (net_pend w) (next_mid w)"
    "causal_ok (timeline w)" "clock_map_ok (reliable_clock w)"
    "link_ok (timeline w) (net_pend w) (reliable_clock w) (net_timers w) (map ep_static (endpoints w))"
    "bound_ok (timeline w) (net_pend w) (map ep_static (endpoints w))"
    "eps_ok (map ep_static (endpoints w))" "crash_ok (timeline w) (crashed w)"
    "factors_ok (net_pend w) (fault_slow_links w)"
    using core by (simp_all add: net_core_def Let_def)
  note ca = call_at_net [OF d(1) wh c(1)]
  have nf: "is_flight mid s x c = False" "link_flight s x c = None" "cb_src c = None" for mid s x
    using c(2) by (cases c; simp)+
  have st: "timeline ?w = timeline w" "next_mid ?w = next_mid w" "reliable_clock ?w = reliable_clock w"
    "fault_slow_links ?w = fault_slow_links w" "crashed ?w = crashed w"
    "map ep_static (endpoints ?w) = map ep_static (endpoints w)"
    using ca(4) by (simp_all add: net_state_def)
  have set: "set (net_pend ?w) = insert c (set (net_pend w))"
    using ca(5) by (metis set_mset_add_mset_insert set_mset_mset)
  have "flow_ok (timeline w) (net_pend ?w) (next_mid w)"
    using d(3) nf(1) ca(5) by (simp add: flow_ok_def n_flight_mset)
  moreover have "link_flights s x (net_pend ?w) = link_flights s x (net_pend w)" for s x
    unfolding link_flights_filter
    using call_at_net_other [OF d(1) wh(1), of "\<lambda>c. link_flight s x c \<noteq> None" c] nf(2) by simp
  then have "link_ok (timeline w) (net_pend ?w) (reliable_clock w) (net_timers ?w) (map ep_static (endpoints w))"
    using d(6) nf(2) unfolding link_ok_def ca(6) by simp
  moreover have "bound_ok (timeline w) (net_pend ?w) (map ep_static (endpoints w))"
    using d(7) nf(3) unfolding bound_ok_def set by simp
  moreover have "factors_ok (net_pend ?w) (fault_slow_links w)"
    using d(10) slow unfolding factors_ok_def set by blast
  ultimately show ?thesis using d ca(1,3) by (simp add: net_core_def Let_def st)
qed

lemma net_core_fault_id: "net_core (w\<lparr>next_fault_id := n\<rparr>) = net_core w"
  by (simp add: net_core_def base_ok_def loop_ok_def handles_ok_def net_pend_def pend_def net_timers_def Let_def)

lemma sched_core:
  assumes inv: "net_inv w" and fid: "fid = next_fault_id w"
  shows "net_core (w\<lparr>next_fault_id := Suc fid\<rparr>)" "net_pend (w\<lparr>next_fault_id := Suc fid\<rparr>) = net_pend w"
  using inv by (simp_all add: net_inv_core net_core_fault_id) (simp_all add: net_pend_def pend_def)

text \<open>A window: its begin and, at the same time or later, its end.\<close>

lemma sched_pair:
  assumes base: "base_ok w" and t: "t1 \<noteq> NaN" "pf_ok t1" "t2 \<noteq> NaN" "pf_ok t2" "t1 \<le> t2"
    and b: "is_net b" "is_net e" "P b" "P e" and fresh: "filter P (net_pend w) = []"
    and res: "w' = fst (call_at t2 e (fst (call_at t1 b w)))"
  shows "filter P (net_pend w') = [b, e]"
proof -
  let ?v = "fst (call_at t1 b w)"
  note c1 = call_at_net [OF base t(1,2) b(1)]
  have none: "\<not> P (tcb t)" if "t \<in> net_timers w" for t
    using net_timers_pend [OF that] fresh by (auto simp: filter_empty_conv)
  have 1: "filter P (net_pend ?v) = [b]"
    using call_at_net_last [where P = P, OF base t(1) b(3,1)] none fresh by simp
  have "fst t \<le> t2" if "t \<in> net_timers ?v" "P (tcb t)" for t
    using that none [of t] t(5) unfolding c1(6) by auto
  from call_at_net_last [where P = P, OF c1(1) t(3) b(4,2) this] show ?thesis
    using 1 by (simp add: res)
qed

lemma window_fresh: "window_ok about b e cs act n \<Longrightarrow> filter (about n) cs = []"
  unfolding window_ok_def window_at_def by blast

lemma net_inv_sched_partition:
  assumes inv: "net_inv w" and t: "t1 \<noteq> NaN" "pf_ok t1" "t2 \<noteq> NaN" "pf_ok t2" "t1 \<le> t2"
    and fid: "fid = next_fault_id w"
    and r_def: "r = and_then (call_at t1 (BeginFaultPartition fid gs) (w\<lparr>next_fault_id := Suc fid\<rparr>))
    (call_at t2 (EndFaultPartition fid))"
  shows "net_inv (fst r)" and "snd r = Done"
proof -
  let ?b = "BeginFaultPartition fid gs :: ('a, 'b) callback" and ?e = "EndFaultPartition fid :: ('a, 'b) callback"
  let ?v = "w\<lparr>next_fault_id := Suc fid\<rparr>"
  let ?x = "fst (call_at t1 ?b ?v)"
  note core = sched_core [OF inv fid]
  have base: "base_ok ?v" using core(1) by (simp add: net_core_def Let_def)
  have nb: "is_net ?b" "is_net ?e" by simp_all
  note c1 = call_at_net [OF base t(1,2) nb(1)]
  note c2 = call_at_net [OF c1(1) t(3,4) nb(2)]
  have r: "fst r = fst (call_at t2 ?e ?x)" "snd r = Done"
    using c1(2) c2(2) unfolding r_def by (simp_all add: and_then_def case_prod_unfold)
  show "snd r = Done" by (rule r)
  have "net_core (fst r)" unfolding r
    by (intro net_core_call_at core t) simp_all
  have st: "fault_partitions (fst r) = fault_partitions w" "fault_slow_links (fst r) = fault_slow_links w"
    "next_fault_id (fst r) = Suc fid"
    using c1(4) c2(4) unfolding r by (simp_all add: net_state_def)
  have inv': "parts_ok (net_pend w) (fault_partitions w) fid" "slows_ok (net_pend w) (fault_slow_links w) fid"
    using inv by (simp_all add: net_inv_core fid)
  have other: "filter P (net_pend (fst r)) = filter P (net_pend w)" if "\<not> P ?b" "\<not> P ?e" for P
    using call_at_net_other [OF base t(1), of P ?b] call_at_net_other [OF c1(1) t(3), of P ?e] that
    unfolding r core(2) by simp
  have "filter (part_about fid) (net_pend (fst r)) = [?b, ?e]"
    by (rule sched_pair [OF base t nb _ _ _ r(1)]) (simp_all add: core(2) window_fresh [OF inv'(1)])
  then have "parts_ok (net_pend (fst r)) (fault_partitions w) (Suc fid)"
    by (intro window_add [OF inv'(1)]) (auto simp: window_fresh [OF inv'(1)] intro: other)
  moreover have "slows_ok (net_pend (fst r)) (fault_slow_links w) (Suc fid)"
    using window_mono [OF inv'(2)] by (subst window_ok_cong) (auto intro: other)
  ultimately show "net_inv (fst r)" using \<open>net_core (fst r)\<close> by (simp add: net_inv_core st)
qed

lemma net_inv_sched_slow:
  assumes inv: "net_inv w" and t: "t1 \<noteq> NaN" "pf_ok t1" "t2 \<noteq> NaN" "pf_ok t2" "t1 \<le> t2"
    and fid: "fid = next_fault_id w" and slow: "slow_ok f"
    and r_def: "r = and_then (call_at t1 (BeginSlowLink fid p f) (w\<lparr>next_fault_id := Suc fid\<rparr>))
    (call_at t2 (EndSlowLink fid))"
  shows "net_inv (fst r)" and "snd r = Done"
proof -
  let ?b = "BeginSlowLink fid p f :: ('a, 'b) callback" and ?e = "EndSlowLink fid :: ('a, 'b) callback"
  let ?v = "w\<lparr>next_fault_id := Suc fid\<rparr>"
  let ?x = "fst (call_at t1 ?b ?v)"
  note core = sched_core [OF inv fid]
  have base: "base_ok ?v" using core(1) by (simp add: net_core_def Let_def)
  have nb: "is_net ?b" "is_net ?e" by simp_all
  note c1 = call_at_net [OF base t(1,2) nb(1)]
  note c2 = call_at_net [OF c1(1) t(3,4) nb(2)]
  have r: "fst r = fst (call_at t2 ?e ?x)" "snd r = Done"
    using c1(2) c2(2) unfolding r_def by (simp_all add: and_then_def case_prod_unfold)
  show "snd r = Done" by (rule r)
  have "net_core (fst r)" unfolding r
    by (intro net_core_call_at core t) (use slow in simp_all)
  have st: "fault_partitions (fst r) = fault_partitions w" "fault_slow_links (fst r) = fault_slow_links w"
    "next_fault_id (fst r) = Suc fid"
    using c1(4) c2(4) unfolding r by (simp_all add: net_state_def)
  have inv': "parts_ok (net_pend w) (fault_partitions w) fid" "slows_ok (net_pend w) (fault_slow_links w) fid"
    using inv by (simp_all add: net_inv_core fid)
  have other: "filter P (net_pend (fst r)) = filter P (net_pend w)" if "\<not> P ?b" "\<not> P ?e" for P
    using call_at_net_other [OF base t(1), of P ?b] call_at_net_other [OF c1(1) t(3), of P ?e] that
    unfolding r core(2) by simp
  have "filter (slow_about fid) (net_pend (fst r)) = [?b, ?e]"
    by (rule sched_pair [OF base t nb _ _ _ r(1)]) (simp_all add: core(2) window_fresh [OF inv'(2)])
  then have "slows_ok (net_pend (fst r)) (fault_slow_links w) (Suc fid)"
    by (intro window_add [OF inv'(2), of _ "(p, f)"]) (auto simp: window_fresh [OF inv'(2)] intro: other)
  moreover have "parts_ok (net_pend (fst r)) (fault_partitions w) (Suc fid)"
    using window_mono [OF inv'(1)] by (subst window_ok_cong) (auto intro: other)
  ultimately show "net_inv (fst r)" using \<open>net_core (fst r)\<close> by (simp add: net_inv_core st)
qed

lemma net_inv_sched_crash:
  assumes inv: "net_inv w" and t: "t \<noteq> NaN" "pf_ok t" and fid: "fid = next_fault_id w"
    and r_def: "r = call_at t (BeginCrash fid' node) (w\<lparr>next_fault_id := Suc fid\<rparr>)"
  shows "net_inv (fst r)" and "snd r = Done"
proof -
  let ?b = "BeginCrash fid' node :: ('a, 'b) callback" and ?v = "w\<lparr>next_fault_id := Suc fid\<rparr>"
  note core = sched_core [OF inv fid]
  have base: "base_ok ?v" using core(1) by (simp add: net_core_def Let_def)
  have nb: "is_net ?b" by simp
  note c1 = call_at_net [OF base t nb]
  show "snd r = Done" unfolding r_def by (rule c1)
  have "net_core (fst r)" unfolding r_def
    by (intro net_core_call_at core t) simp_all
  have st: "fault_partitions (fst r) = fault_partitions w" "fault_slow_links (fst r) = fault_slow_links w"
    "next_fault_id (fst r) = Suc fid"
    using c1(4) unfolding r_def by (simp_all add: net_state_def)
  have inv': "parts_ok (net_pend w) (fault_partitions w) fid" "slows_ok (net_pend w) (fault_slow_links w) fid"
    using inv by (simp_all add: net_inv_core fid)
  have other: "filter P (net_pend (fst r)) = filter P (net_pend w)" if "\<not> P ?b" for P
    using call_at_net_other [OF base t(1), of P ?b] that unfolding r_def core(2) by simp
  have "slows_ok (net_pend (fst r)) (fault_slow_links w) (Suc fid)"
    using window_mono [OF inv'(2)] by (subst window_ok_cong) (auto intro: other)
  moreover have "parts_ok (net_pend (fst r)) (fault_partitions w) (Suc fid)"
    using window_mono [OF inv'(1)] by (subst window_ok_cong) (auto intro: other)
  ultimately show "net_inv (fst r)" using \<open>net_core (fst r)\<close> by (simp add: net_inv_core st)
qed


subsection \<open>Resolving what the caller left open\<close>

text \<open>
  What the timeline records of a committed fault: a window inside the \<open>run_for\<close> call, two distinct
  ends and a slowing factor for a slow link.
\<close>

fun sched_ok :: "pyfloat \<Rightarrow> pyfloat \<Rightarrow> 'v event \<Rightarrow> bool" where
  "sched_ok now seconds (PartitionScheduled t fid groups t1 t2) =
     (t = now \<and> now \<le> t1 \<and> t1 \<le> t2 \<and> t2 \<le> py_add now seconds)"
| "sched_ok now seconds (SlowScheduled t fid a b f t1 t2) =
     (t = now \<and> a \<noteq> b \<and> slow_ok f \<and> now \<le> t1 \<and> t1 \<le> t2 \<and> t2 \<le> py_add now seconds)"
| "sched_ok now seconds (CrashScheduled t fid node t1) =
     (t = now \<and> now \<le> t1 \<and> t1 \<le> py_add now seconds)"
| "sched_ok now seconds _ = False"

definition committed where
  "committed w seconds r = (net_inv (fst r) \<and> sl_time (fst r) = sl_time w \<and>
     endpoints (fst r) = endpoints w \<and>
     (snd r = Done \<and> (\<exists>e. timeline (fst r) = timeline w @ [e] \<and> sched_ok (sl_time w) seconds e) \<or>
      snd r = Diverged))"

lemma committed_diverged: "net_inv w \<Longrightarrow> committed (w\<lparr>faults_rng := r\<rparr>) seconds (w, Diverged)"
  by (simp add: committed_def)

lemma committed_rng: "committed (w\<lparr>faults_rng := r\<rparr>) seconds = committed w seconds"
  by (simp add: committed_def fun_eq_iff)

lemma net_inv_rng [simp]: "net_inv (w\<lparr>faults_rng := r\<rparr>) = net_inv w"
  using net_inv_calm [OF _ calm_heap(5), of w r]
    net_inv_calm [OF _ calm_heap(5), of "w\<lparr>faults_rng := r\<rparr>" "faults_rng w"] by auto

lemma faults_uniform_result:
  assumes "faults_uniform a b w = (x, w')"
  shows "x = fst (uniform a b (faults_rng w))" and "w' = w\<lparr>faults_rng := snd (uniform a b (faults_rng w))\<rparr>"
  using assms by (simp_all add: faults_uniform_def case_prod_unfold)

lemma window_draw:
  assumes s: "pf_ok (Fin s)" "0 \<le> s"
    and d1: "faults_uniform (Fin 0) (Fin s) w = (start, w1)"
    and d2: "faults_uniform start (Fin s) w1 = (fin, w2)"
  shows "\<exists>a b r. start = Fin a \<and> fin = Fin b \<and> 0 \<le> a \<and> a \<le> b \<and> b \<le> s \<and> pf_ok (Fin a) \<and>
    pf_ok (Fin b) \<and> w2 = w\<lparr>faults_rng := r\<rparr>"
proof -
  have zero: "pf_ok (Fin 0)" by simp
  obtain a where a: "fst (uniform (Fin 0) (Fin s) (faults_rng w)) = Fin a" "pf_ok (Fin a)" "0 \<le> a" "a \<le> s"
    using uniform_bounds [OF zero s(1) _ s(2)] by blast
  have w1: "start = Fin a" "w1 = w\<lparr>faults_rng := snd (uniform (Fin 0) (Fin s) (faults_rng w))\<rparr>"
    using d1 a(1) by (auto simp: faults_uniform_def case_prod_unfold)
  obtain b where b: "fst (uniform (Fin a) (Fin s) (faults_rng w1)) = Fin b" "pf_ok (Fin b)" "a \<le> b" "b \<le> s"
    using uniform_bounds [OF a(2) s(1) a(3,4)] by blast
  have w2: "fin = Fin b" "w2 = w1\<lparr>faults_rng := snd (uniform (Fin a) (Fin s) (faults_rng w1))\<rparr>"
    using d2 b(1) unfolding w1(1) by (auto simp: faults_uniform_def case_prod_unfold)
  show ?thesis
    using a b w1(1) w2(1) unfolding w2(2)
    by (intro exI [of _ a] exI [of _ b] exI [of _ "snd (uniform (Fin a) (Fin s) (faults_rng w1))"])
      (simp add: w1(2))
qed

lemma window_times:
  assumes base: "base_ok w" and a: "0 \<le> a" "a \<le> b" "b \<le> s"
  shows "py_add (sl_time w) (Fin a) \<noteq> NaN" "py_add (sl_time w) (Fin b) \<noteq> NaN"
    "sl_time w \<le> py_add (sl_time w) (Fin a)" "py_add (sl_time w) (Fin a) \<le> py_add (sl_time w) (Fin b)"
    "py_add (sl_time w) (Fin b) \<le> py_add (sl_time w) (Fin s)"
proof -
  obtain t where t: "sl_time w = Fin t" "0 \<le> t" "pf_ok (Fin t)" using net_time [OF base] by metis
  show "py_add (sl_time w) (Fin a) \<noteq> NaN" "py_add (sl_time w) (Fin b) \<noteq> NaN" by (simp_all add: t(1))
  show "sl_time w \<le> py_add (sl_time w) (Fin a)" using due_later(1) [OF base] a(1) by simp
  show "py_add (sl_time w) (Fin a) \<le> py_add (sl_time w) (Fin b)"
    "py_add (sl_time w) (Fin b) \<le> py_add (sl_time w) (Fin s)"
    using a by (simp_all add: t(1) of_exact_mono)
qed

lemma record_fault_id: "record_event ev (w\<lparr>next_fault_id := n\<rparr>) = (record_event ev w)\<lparr>next_fault_id := n\<rparr>"
  by (simp add: record_event_def)

lemma call_at_keeps:
  "timeline (fst (call_at t c w)) = timeline w" "endpoints (fst (call_at t c w)) = endpoints w"
  "sl_time (fst (call_at t c w)) = sl_time w"
  by (simp_all add: call_at_def)

lemma and_then_call_at_keeps:
  "timeline (fst (and_then (call_at t c w) (call_at t' c'))) = timeline w"
  "endpoints (fst (and_then (call_at t c w) (call_at t' c'))) = endpoints w"
  "sl_time (fst (and_then (call_at t c w) (call_at t' c'))) = sl_time w"
  by (cases "snd (call_at t c w)"; simp add: and_then_def case_prod_unfold call_at_keeps)+

lemma commit_partition_spec:
  assumes inv: "net_inv w" and s: "pf_ok (Fin s)" "0 \<le> s"
  shows "committed w (Fin s) (commit_partition_fault groups (sl_time w) (Fin s) w)"
proof (cases "if groups \<noteq> Groups [] then Some (groups_sets groups, faults_rng w)
      else draw_bipartition (bound_addresses w) (faults_rng w)")
  case None
  then show ?thesis using inv by (simp add: commit_partition_fault_def committed_def)
next
  case (Some p)
  obtain gs r where p: "p = (gs, r)" by (cases p) auto
  obtain start w1 where d1: "faults_uniform (Fin 0) (Fin s) (w\<lparr>faults_rng := r\<rparr>) = (start, w1)" by fastforce
  obtain fin w2 where d2: "faults_uniform start (Fin s) w1 = (fin, w2)" by fastforce
  from window_draw [OF s d1 d2] obtain a b r' where
    d: "start = Fin a" "fin = Fin b" "0 \<le> a" "a \<le> b" "b \<le> s" "w2 = w\<lparr>faults_rng := r'\<rparr>" by auto
  let ?e = "PartitionScheduled (sl_time w) (next_fault_id w2) (map sorted_list_of_set gs)
    (py_add (sl_time w) start) (py_add (sl_time w) fin)"
  let ?w3 = "record_event ?e w2"
  have inv2: "net_inv w2" using inv by (simp add: d(6))
  have base: "base_ok w" using inv by (simp add: net_inv_def)
  have inv3: "net_inv ?w3" using d(6) by (intro net_inv_record inv2) simp_all
  have eq: "commit_partition_fault groups (sl_time w) (Fin s) w =
      and_then (call_at (py_add (sl_time w) start) (BeginFaultPartition (next_fault_id w2) gs)
        (?w3\<lparr>next_fault_id := Suc (next_fault_id w2)\<rparr>))
      (call_at (py_add (sl_time w) fin) (EndFaultPartition (next_fault_id w2)))"
    using d1 d2 Some p by (simp add: commit_partition_fault_def Let_def record_fault_id)
  note wt = window_times [OF base d(3-5)]
  have fid: "next_fault_id w2 = next_fault_id ?w3" by (simp add: record_event_def)
  note sched = net_inv_sched_partition [OF inv3 _ _ _ _ _ fid eq, unfolded d(1,2), OF wt(1) py_add_ok wt(2) py_add_ok wt(4)]
  have k: "timeline (fst (commit_partition_fault groups (sl_time w) (Fin s) w)) = timeline w @ [?e]"
    "endpoints (fst (commit_partition_fault groups (sl_time w) (Fin s) w)) = endpoints w"
    "sl_time (fst (commit_partition_fault groups (sl_time w) (Fin s) w)) = sl_time w"
    unfolding eq and_then_call_at_keeps using d(6) by (simp_all add: record_event_def)
  show ?thesis unfolding committed_def using sched k wt d(1,2) by simp
qed

lemma commit_slow_resolved_spec:
  assumes inv: "net_inv w" and s: "pf_ok (Fin s)" "0 \<le> s" and ab: "a \<noteq> b" and f: "\<not> bad_factor ff"
  shows "committed w (Fin s) (commit_slow_resolved ff (sl_time w) (Fin s) a b w)"
proof -
  obtain factor w0 where d0: "(case ff of Some f \<Rightarrow> (f, w) | None \<Rightarrow> faults_uniform (Fin 2) (Fin 50) w) = (factor, w0)"
    by fastforce
  have "slow_ok factor \<and> (\<exists>r. w0 = w\<lparr>faults_rng := r\<rparr>)"
  proof (cases ff)
    case None
    have num: "pf_ok (Fin 2)" "pf_ok (Fin 50)"
      using over_big [of 2] over_big [of 50] is_double_numeral by simp_all
    have two: "(0::real) \<le> 2" "(2::real) \<le> 50" by simp_all
    obtain v where "fst (uniform (Fin 2) (Fin 50) (faults_rng w)) = Fin v" "2 \<le> v"
      using uniform_bounds [OF num two] by blast
    note v = this
    have "faults_uniform (Fin 2) (Fin 50) w = (factor, w0)" using None d0 by simp
    note u = faults_uniform_result [OF this]
    have "factor = Fin v" using u(1) v(1) by (rule trans)
    with v(2) have "slow_ok factor" by (simp add: slow_ok_def)
    with u(2) show ?thesis by blast
  next
    case (Some f)
    have "w\<lparr>faults_rng := faults_rng w\<rparr> = w" by simp
    moreover have "factor = f" "w0 = w" using Some d0 by simp_all
    moreover have "slow_ok f" using bad_factor_Some [of f] f Some by (auto simp: slow_ok_def)
    ultimately show ?thesis by metis
  qed
  then obtain r0 where slow: "slow_ok factor" and w0: "w0 = w\<lparr>faults_rng := r0\<rparr>" by blast
  obtain start w1 where d1: "faults_uniform (Fin 0) (Fin s) w0 = (start, w1)" by fastforce
  obtain fin w2 where d2: "faults_uniform start (Fin s) w1 = (fin, w2)" by fastforce
  from window_draw [OF s d1 d2] obtain x y r' where
    d: "start = Fin x" "fin = Fin y" "0 \<le> x" "x \<le> y" "y \<le> s" "w2 = w\<lparr>faults_rng := r'\<rparr>" by (auto simp: w0)
  let ?e = "SlowScheduled (sl_time w) (next_fault_id w2) a b factor
    (py_add (sl_time w) start) (py_add (sl_time w) fin)"
  let ?w3 = "record_event ?e w2"
  have inv2: "net_inv w2" using inv by (simp add: d(6))
  have base: "base_ok w" using inv by (simp add: net_inv_def)
  have inv3: "net_inv ?w3" using d(6) by (intro net_inv_record inv2) simp_all
  have eq: "commit_slow_resolved ff (sl_time w) (Fin s) a b w =
      and_then (call_at (py_add (sl_time w) start) (BeginSlowLink (next_fault_id w2) {a, b} factor)
        (?w3\<lparr>next_fault_id := Suc (next_fault_id w2)\<rparr>))
      (call_at (py_add (sl_time w) fin) (EndSlowLink (next_fault_id w2)))"
    using d0 d1 d2 by (simp add: commit_slow_resolved_def Let_def record_fault_id)
  note wt = window_times [OF base d(3-5)]
  have fid: "next_fault_id w2 = next_fault_id ?w3" by (simp add: record_event_def)
  note sched = net_inv_sched_slow [OF inv3 _ _ _ _ _ fid slow eq, unfolded d(1,2), OF wt(1) py_add_ok wt(2) py_add_ok wt(4)]
  have k: "timeline (fst (commit_slow_resolved ff (sl_time w) (Fin s) a b w)) = timeline w @ [?e]"
    "endpoints (fst (commit_slow_resolved ff (sl_time w) (Fin s) a b w)) = endpoints w"
    "sl_time (fst (commit_slow_resolved ff (sl_time w) (Fin s) a b w)) = sl_time w"
    unfolding eq and_then_call_at_keeps using d(6) by (simp_all add: record_event_def)
  show ?thesis unfolding committed_def using sched k wt d(1,2) slow ab by simp
qed

text \<open>A choice from a non-empty list either returns an element of it or draws for ever.\<close>

lemma with_choice_spec:
  assumes ne: "xs \<noteq> []" and inv: "net_inv w"
    and f: "\<And>x r. x \<in> set xs \<Longrightarrow> committed w s (f x (w\<lparr>faults_rng := r\<rparr>))"
  shows "committed w s (with_choice xs w f)"
proof (cases "choice xs (faults_rng w)")
  case (Chosen x r)
  then show ?thesis using f [OF choice_Chosen [OF Chosen], of r] by (simp add: with_choice_def)
next
  case ChoiceIndexError
  then show ?thesis using choice_no_index_error [OF ne] by blast
next
  case ChoiceDiverges
  then show ?thesis using inv by (simp add: with_choice_def committed_def)
qed

lemma bound_addresses_rng [simp]: "bound_addresses (w\<lparr>faults_rng := r\<rparr>) = bound_addresses w"
  by (simp add: bound_addresses_def)

lemma other_address:
  assumes inv: "net_inv w" and two: "2 \<le> length (bound_addresses w)"
  shows "\<exists>x\<in>set (bound_addresses w). x \<noteq> a"
proof (rule ccontr)
  have "distinct (map fst (endpoints w))"
    using net_okD(7) [of w] inv by (auto simp: net_inv_def eps_ok_def ep_static_def o_def case_prod_unfold)
  then have "distinct (bound_addresses w)" by (simp add: bound_addresses_def)
  then have card: "card (set (bound_addresses w)) = length (bound_addresses w)" by (rule distinct_card)
  assume "\<not> ?thesis"
  then have "set (bound_addresses w) \<subseteq> {a}" by blast
  then have "card (set (bound_addresses w)) \<le> card {a}" by (intro card_mono) simp_all
  with two card show False by simp
qed

lemma commit_slow_link_spec:
  assumes inv: "net_inv w" and s: "pf_ok (Fin s)" "0 \<le> s"
    and valid: "validate_fault (bound_addresses w) (Fin s) (SlowLinkFault fa fb ff) = None"
  shows "committed w (Fin s) (commit_fault (SlowLinkFault fa fb ff) (Fin s) w)"
proof -
  have bf: "\<not> bad_factor ff" using valid by (simp split: if_splits)
  let ?c = "\<lambda>a b w'. commit_slow_resolved ff (sl_time w) (Fin s) a b w'"
  have res: "committed w (Fin s) (?c a b (w\<lparr>faults_rng := r\<rparr>))" if "a \<noteq> b" for a b r
    using commit_slow_resolved_spec [of "w\<lparr>faults_rng := r\<rparr>", OF _ s that bf] inv by (simp add: committed_rng)
  have res0: "committed w (Fin s) (?c a b w)" if "a \<noteq> b" for a b
    using commit_slow_resolved_spec [OF inv s that bf] .
  have pick_a: "committed w (Fin s) (with_choice (filter (\<lambda>x. x \<noteq> b) (bound_addresses w)) w (\<lambda>a w. ?c a b w))"
    if "\<exists>x\<in>set (bound_addresses w). x \<noteq> b" for b
    using that by (intro with_choice_spec inv res) (auto simp: filter_empty_conv)
  have pick_b: "committed w (Fin s)
      (with_choice (filter (\<lambda>x. x \<noteq> a) (bound_addresses w)) (w\<lparr>faults_rng := r\<rparr>) (\<lambda>b w. ?c a b w))"
    if "\<exists>x\<in>set (bound_addresses w). x \<noteq> a" for a r
    using with_choice_spec [of "filter (\<lambda>x. x \<noteq> a) (bound_addresses w)" "w\<lparr>faults_rng := r\<rparr>" "Fin s" "\<lambda>b w. ?c a b w"]
      that inv res by (auto simp: committed_rng filter_empty_conv)
  show ?thesis
  proof (cases fa; cases fb)
    assume n: "fa = None" "fb = None"
    then have two: "2 \<le> length (bound_addresses w)" using valid by (auto split: if_splits)
    have "bound_addresses w \<noteq> []" using two by auto
    then have "committed w (Fin s) (with_choice (bound_addresses w) w (\<lambda>a w'.
        with_choice (filter (\<lambda>x. x \<noteq> a) (bound_addresses w')) w' (\<lambda>b w. ?c a b w)))"
      by (intro with_choice_spec inv) (auto intro: pick_b other_address [OF inv two])
    then show ?thesis using n by (simp add: commit_slow_link_fault_def)
  next
    fix b
    assume n: "fa = None" "fb = Some b"
    then have "b \<noteq> BadArg" "\<exists>x\<in>set (bound_addresses w). AddrArg x \<noteq> b"
      using valid by (auto simp: bad_addr_def split: if_splits)
    then have "\<exists>x\<in>set (bound_addresses w). x \<noteq> arg_int b" by (cases b) (auto simp: arg_int_def)
    from pick_a [OF this] show ?thesis using n by (simp add: commit_slow_link_fault_def)
  next
    fix a
    assume n: "fa = Some a" "fb = None"
    then have "a \<noteq> BadArg" "\<exists>x\<in>set (bound_addresses w). AddrArg x \<noteq> a"
      using valid by (auto simp: bad_addr_def split: if_splits)
    then have "\<exists>x\<in>set (bound_addresses w). x \<noteq> arg_int a" by (cases a) (auto simp: arg_int_def)
    then show ?thesis using n pick_b [of "arg_int a" "faults_rng w"] by (simp add: commit_slow_link_fault_def)
  next
    fix a b
    assume n: "fa = Some a" "fb = Some b"
    then have "a \<noteq> BadArg" "b \<noteq> BadArg" "a \<noteq> b"
      using valid by (auto simp: bad_addr_def split: if_splits)
    then have "arg_int a \<noteq> arg_int b" by (cases a; cases b) (auto simp: arg_int_def)
    then show ?thesis using n res0 by (simp add: commit_slow_link_fault_def)
  qed
qed

text \<open>When a crash happens: the pinned moment, or one drawn inside the run.\<close>

lemma crash_time_spec:
  assumes s: "pf_ok (Fin s)" "0 \<le> s"
    and valid: "validate_fault (bound_addresses w) (Fin s) (CrashFault fnode fwhen) = None"
    and d0: "(case fwhen of Some t \<Rightarrow> (t, w) | None \<Rightarrow> faults_uniform (Fin 0) (Fin s) w) = (t, w0)"
  shows "\<exists>x r. t = Fin x \<and> 0 \<le> x \<and> x \<le> s \<and> w0 = w\<lparr>faults_rng := r\<rparr>"
proof (cases fwhen)
  case None
  have zero: "pf_ok (Fin 0)" by simp
  obtain v where "fst (uniform (Fin 0) (Fin s) (faults_rng w)) = Fin v" "0 \<le> v" "v \<le> s"
    using uniform_bounds [OF zero s(1) _ s(2)] by blast
  note v = this
  have "faults_uniform (Fin 0) (Fin s) w = (t, w0)" using None d0 by simp
  note u = faults_uniform_result [OF this]
  have "t = Fin v" using u(1) v(1) by (rule trans)
  with v(2,3) u(2) show ?thesis by blast
next
  case (Some u)
  then have "\<not> bad_at (Some u)" "\<not> py_lt (Fin s) u" using valid by (auto split: if_splits)
  moreover obtain x where "u = Fin x" "0 \<le> x" using bad_at_Some calculation(1) by blast
  ultimately show ?thesis using Some d0 by (auto intro!: exI [of _ "faults_rng w"])
qed

lemma commit_crash_spec:
  assumes inv: "net_inv w" and s: "pf_ok (Fin s)" "0 \<le> s"
    and valid: "validate_fault (bound_addresses w) (Fin s) (CrashFault fnode fwhen) = None"
  shows "committed w (Fin s) (commit_fault (CrashFault fnode fwhen) (Fin s) w)"
proof -
  obtain t w0 where d0: "(case fwhen of Some t \<Rightarrow> (t, w) | None \<Rightarrow> faults_uniform (Fin 0) (Fin s) w) = (t, w0)"
    by fastforce
  from crash_time_spec [OF s valid d0] obtain x r where x: "t = Fin x" "0 \<le> x" "x \<le> s" "w0 = w\<lparr>faults_rng := r\<rparr>" by blast
  have base: "base_ok w" using inv by (simp add: net_inv_def)
  note wt = window_times [OF base x(2) order_refl x(3)]
  let ?s = "\<lambda>node w'. call_at (py_add (sl_time w) t) (BeginCrash (next_fault_id w') node)
    (record_event (CrashScheduled (sl_time w) (next_fault_id w') node (py_add (sl_time w) t))
      (w'\<lparr>next_fault_id := Suc (next_fault_id w')\<rparr>))"
  have res: "committed w (Fin s) (?s node (w\<lparr>faults_rng := r'\<rparr>))" for node r'
  proof -
    let ?w = "w\<lparr>faults_rng := r'\<rparr>"
    let ?e = "CrashScheduled (sl_time w) (next_fault_id ?w) node (py_add (sl_time w) t)"
    have inv': "net_inv (record_event ?e ?w)" using inv by (intro net_inv_record) simp_all
    have fid: "next_fault_id ?w = next_fault_id (record_event ?e ?w)" by (simp add: record_event_def)
    note sc = net_inv_sched_crash [OF inv' wt(1) py_add_ok fid refl, of "next_fault_id ?w" node, folded x(1)]
    show ?thesis
      using sc wt x(1) by (simp add: committed_def record_fault_id call_at_keeps) (simp add: record_event_def)
  qed
  show ?thesis
  proof (cases fnode)
    case None
    then have "bound_addresses w \<noteq> []" using valid by (auto split: if_splits)
    moreover have "committed w0 (Fin s) (?s node (w0\<lparr>faults_rng := r'\<rparr>))" for node r'
      using res [of r' node] by (simp add: x(4) committed_rng)
    ultimately have "committed w0 (Fin s) (with_choice (bound_addresses w0) w0 ?s)"
      using inv by (intro with_choice_spec) (simp_all only: x(4) net_inv_rng bound_addresses_rng not_False_eq_True)
    then show ?thesis
      using None d0 by (simp add: commit_crash_fault_def Let_def x(4) committed_rng)
  next
    case (Some a)
    then show ?thesis using Some d0 res [of r "arg_int a"] by (simp add: commit_crash_fault_def Let_def x(4))
  qed
qed

lemma commit_fault_spec:
  assumes inv: "net_inv w" and s: "pf_ok (Fin s)" "0 \<le> s"
    and valid: "validate_fault (bound_addresses w) (Fin s) f = None"
  shows "committed w (Fin s) (commit_fault f (Fin s) w)"
  using commit_partition_spec [OF inv s] commit_slow_link_spec [OF inv s] commit_crash_spec [OF inv s] valid
  by (cases f) simp_all


text \<open>All faults of a \<open>run_for\<close> call, validated before the first is committed.\<close>

lemma commit_faults_spec:
  assumes "net_inv w" and s: "pf_ok (Fin s)" "0 \<le> s"
    and "validate_faults (bound_addresses w) (Fin s) fs = None"
  shows "net_inv (fst (commit_faults fs (Fin s) w))"
    and "snd (commit_faults fs (Fin s) w) = Done \<or> snd (commit_faults fs (Fin s) w) = Diverged"
    and "snd (commit_faults fs (Fin s) w) = Done \<Longrightarrow>
      \<exists>evs. timeline (fst (commit_faults fs (Fin s) w)) = timeline w @ evs \<and>
        length evs = length fs \<and> (\<forall>e\<in>set evs. sched_ok (sl_time w) (Fin s) e)"
proof -
  have "net_inv (fst (commit_faults fs (Fin s) w)) \<and>
    (snd (commit_faults fs (Fin s) w) = Done \<or> snd (commit_faults fs (Fin s) w) = Diverged) \<and>
    (snd (commit_faults fs (Fin s) w) = Done \<longrightarrow>
      (\<exists>evs. timeline (fst (commit_faults fs (Fin s) w)) = timeline w @ evs \<and>
        length evs = length fs \<and> (\<forall>e\<in>set evs. sched_ok (sl_time w) (Fin s) e)))"
    using assms(1,4)
  proof (induction fs arbitrary: w)
    case (Cons f fs)
    have "validate_fault (bound_addresses w) (Fin s) f = None"
      using Cons.prems(2) by (simp split: option.splits)
    note c = commit_fault_spec [OF Cons.prems(1) s this]
    obtain v e where r: "commit_fault f (Fin s) w = (v, e)" by fastforce
    show ?case
    proof (cases "e = Done")
      case False
      then have "e = Diverged" using c r by (auto simp: committed_def)
      then show ?thesis using c r by (simp add: committed_def)
    next
      case True
      then obtain ev where v: "net_inv v" "sl_time v = sl_time w" "endpoints v = endpoints w"
        "timeline v = timeline w @ [ev]" "sched_ok (sl_time w) (Fin s) ev"
        using c r by (auto simp: committed_def)
      have "validate_faults (bound_addresses v) (Fin s) fs = None"
        using Cons.prems(2) v(3) by (simp add: bound_addresses_def split: option.splits)
      note IH = Cons.IH [OF v(1) this]
      have eq: "commit_faults (f # fs) (Fin s) w = commit_faults fs (Fin s) v" using r True by simp
      show ?thesis
      proof (cases "snd (commit_faults fs (Fin s) v) = Done")
        case False
        then show ?thesis unfolding eq using IH by simp
      next
        case True
        then obtain evs where evs: "timeline (fst (commit_faults fs (Fin s) v)) = timeline v @ evs"
          "length evs = length fs" "\<forall>e\<in>set evs. sched_ok (sl_time v) (Fin s) e" using IH by blast
        have "timeline (fst (commit_faults fs (Fin s) v)) = timeline w @ (ev # evs)" using evs(1) v(4) by simp
        moreover have "\<forall>e\<in>set (ev # evs). sched_ok (sl_time w) (Fin s) e" using evs(3) v(2,5) by simp
        ultimately show ?thesis unfolding eq using IH True evs(2) by (metis length_Cons)
      qed
    qed
  qed (simp add: exI [of _ "[]"])
  then show "net_inv (fst (commit_faults fs (Fin s) w))"
    "snd (commit_faults fs (Fin s) w) = Done \<or> snd (commit_faults fs (Fin s) w) = Diverged"
    "snd (commit_faults fs (Fin s) w) = Done \<Longrightarrow>
      \<exists>evs. timeline (fst (commit_faults fs (Fin s) w)) = timeline w @ evs \<and>
        length evs = length fs \<and> (\<forall>e\<in>set evs. sched_ok (sl_time w) (Fin s) e)" by blast+
qed

section \<open>A new network\<close>

lemma net_inv_init: "net_inv (net_init r1 r2)"
  by (simp add: net_inv_def net_ok_def base_ok_def net_init_def loop_init_def loop.defs net_pend_def
      pend_def net_timers_def handles_ok_def loop_ok_def clock_ok_def timers_ok_def timers_sorted_def
      times_ok_def flow_ok_def n_flight_def n_out_def causal_ok_def clock_map_ok_def link_ok_def
      reliable_at_def bound_ok_def eps_ok_def crash_ok_def window_ok_def window_at_def factors_ok_def)

end
