(* ===== verification/Boundary.thy ===== *)
theory Boundary
  imports Errors
begin

text \<open>
  The operations a run may not use (\<open>_reject\<close> and its callers in \<open>src/seedloop/_loop.py\<close>): every way the loop
  has of reaching real threads, sockets, pipes, subprocesses or signals raises, whatever its
  arguments.
\<close>

datatype real_op =
    RunInExecutor | CallSoonThreadsafe | AddReader | AddWriter | SockRecv | SockSendall | SockConnect
  | Getaddrinfo | Getnameinfo | CreateConnection | CreateServer | CreateDatagramEndpoint
  | ConnectReadPipe | ConnectWritePipe | SubprocessExec | SubprocessShell | AddSignalHandler

fun rejected_as :: "real_op \<Rightarrow> string" where
  "rejected_as RunInExecutor = ''run_in_executor (real threads)''"
| "rejected_as CallSoonThreadsafe = ''call_soon_threadsafe (another thread)''"
| "rejected_as AddReader = ''add_reader (real I/O)''"
| "rejected_as AddWriter = ''add_writer (real I/O)''"
| "rejected_as SockRecv = ''sock_recv (real socket)''"
| "rejected_as SockSendall = ''sock_sendall (real socket)''"
| "rejected_as SockConnect = ''sock_connect (real socket)''"
| "rejected_as Getaddrinfo = ''getaddrinfo (real DNS)''"
| "rejected_as Getnameinfo = ''getnameinfo (real DNS)''"
| "rejected_as CreateConnection = ''create_connection (real socket)''"
| "rejected_as CreateServer = ''create_server (real socket)''"
| "rejected_as CreateDatagramEndpoint = ''create_datagram_endpoint (real socket)''"
| "rejected_as ConnectReadPipe = ''connect_read_pipe (real pipe)''"
| "rejected_as ConnectWritePipe = ''connect_write_pipe (real pipe)''"
| "rejected_as SubprocessExec = ''subprocess_exec (real subprocess)''"
| "rejected_as SubprocessShell = ''subprocess_shell (real subprocess)''"
| "rejected_as AddSignalHandler = ''add_signal_handler (real signals)''"

definition reject :: "string \<Rightarrow> exn" where
  "reject what = exn (BoundaryError (what @
     '' cannot be made deterministic and is out of scope inside a simulated run (see docs/scope.md)''))"

definition real_call :: "real_op \<Rightarrow> exn" where
  "real_call r = reject (rejected_as r)"

text \<open>The error of a rejected call is an ordinary exception and names the call.\<close>

lemma real_call_class: "is_exception (real_call r) \<and> isinstance_exn (real_call r) BoundaryErrorC"
  by (simp add: real_call_def reject_def exn_def is_exception_iff is_interrupt_def isinstance_exn_def is_subclass_eval)

end
