(* ===== verification/World.thy ===== *)
theory World
  imports Net_Inv Boundary
begin

text \<open>
  The world of one run (\<open>src/seedloop/_world.py\<close>): loop, network, seeded entropy, timeline,
  invariants, and the tasks that run user code. A scenario is user code; it is modelled as a tree
  of what it does next (\<open>code\<close>): read and change its own objects (\<open>Heap\<close>), call an operation of
  the world, the network or the loop and continue with the reply (\<open>Op\<close>), return, raise, or never
  come back (\<open>Hang\<close>). \<open>'m\<close> is the type of messages, \<open>'v\<close> of recorded events, \<open>'s\<close> of the state of
  the user's objects. Tasks and futures are modelled as \<open>asyncio\<close> runs them. A float a scenario
  passes is rounded to a binary64 number first (\<open>norm\<close>), since Python holds no other.
\<close>

section \<open>User code\<close>

text \<open>A predicate reads the user's objects and the clock.\<close>

datatype presult = Holds | Fails | PredRaises exn

type_synonym 's pred = "'s \<Rightarrow> pyfloat \<Rightarrow> presult"

datatype 'm reply = ROk | RExn exn | RItem int 'm | RId nat | RTime pyfloat | RReal real

datatype ('m, 'v, 's, 'c) op =
    ONow
  | ORandom
  | ORecord 'v
  | OAlways string "'s pred"
  | ORunFor pyfloat "fault list"
  | ORunUntil "'s pred" "pyfloat option"
  | OStart "'c list"
  | OBind int bool pyfloat pyfloat
  | OSend int int 'm
  | ORecv int
  | OPartition "int set list"
  | OHeal
  | OCallSoon 'c
  | OCallAt pyfloat 'c
  | OCallLater pyfloat 'c
  | OCancelHandle nat
  | OStop
  | OSpawn 'c
  | OCancelTask nat
  | OAwait nat
  | OFuture
  | OSetResult nat
  | OSleep pyfloat
  | OTimeout pyfloat
  | OTimeoutEnd nat "exn option"
  | OOnDone nat 'c
  | OReal real_op

datatype ('m, 'v, 's) code =
    Return
  | Throw exn
  | Hang
  | Heap "'s \<Rightarrow> 's" "'s \<Rightarrow> ('m, 'v, 's) code"
  | Op "('m, 'v, 's, ('m, 'v, 's) code) op" "'m reply \<Rightarrow> ('m, 'v, 's) code"

text \<open>
  The library's own frame a suspended task is in: the handle and future of a sleep, the future and
  deadline timer of \<open>run_until\<close>, the address of \<open>recv\<close>, a plain \<open>await\<close>, a bare \<open>yield\<close>.
\<close>

datatype frame = FSleep nat nat | FUntil nat "nat option" | FRecv int | FAwait nat | FYield

datatype ('m, 'v, 's) cont =
    Begin "('m, 'v, 's) code"
  | Resume frame "'m reply \<Rightarrow> ('m, 'v, 's) code"
  | Finished

datatype ('m, 'v, 's) ucb =
    TaskStep nat "exn option"
  | TaskWakeup nat nat
  | Plain "('m, 'v, 's) code"
  | GatherDone nat
  | StopLoop
  | Expire nat

section \<open>State\<close>

datatype 's hook = CheckInvariants | UntilCheck nat "'s pred" "pyfloat option"

record ('m, 'v, 's) task =
  t_cont :: "('m, 'v, 's) cont"
  t_waiter :: "nat option"
  t_must_cancel :: bool
  t_cancels :: nat
  t_seq :: nat

text \<open>An \<open>asyncio.timeout\<close>: its task, the cancellations requested on entry, whether it has fired.\<close>

datatype timeout = Timeout nat nat bool

record ('m, 'v, 's) world = "('m, ('m, 'v, 's) ucb, 's hook, 'v) net" +
  seed :: int
  max_steps :: "nat option"
  tearing_down :: bool
  user_rng :: rng
  started :: "nat list"
  invariants :: "(string \<times> 's pred) list"
  invariants_hook_installed :: bool
  run_until_active :: bool
  heap :: 's
  tasks :: "nat \<Rightarrow> ('m, 'v, 's) task option"
  gather_left :: "nat \<Rightarrow> nat"
  current :: "nat option"
  timeouts :: "nat \<Rightarrow> timeout option"

text \<open>\<open>World.__init__\<close>: every source of entropy is a named sub-stream of the seed.\<close>

definition world_init ::
    "(int \<Rightarrow> string \<Rightarrow> rng) \<Rightarrow> int \<Rightarrow> nat option \<Rightarrow> 's \<Rightarrow> ('m, 'v, 's) world" where
  "world_init streams sd limit objs = net.extend (net_init (streams sd ''net'') (streams sd ''faults''))
     \<lparr>seed = sd, max_steps = limit, tearing_down = False, user_rng = streams sd ''user'',
      started = [], invariants = [], invariants_hook_installed = False, run_until_active = False,
      heap = objs, tasks = Map.empty, gather_left = (\<lambda>_. 0), current = None, timeouts = Map.empty\<rparr>"

definition norm :: "pyfloat \<Rightarrow> pyfloat" where
  "norm x = (case x of Fin r \<Rightarrow> of_exact r | _ \<Rightarrow> x)"

section \<open>Operations of the world\<close>

definition now :: "('m, 'v, 's) world \<Rightarrow> pyfloat" where
  "now w = time w"

definition world_record :: "'v \<Rightarrow> ('m, 'v, 's) world \<Rightarrow> ('m, 'v, 's) world" where
  "world_record ev w = record_event (UserEv (time w) ev) w"

definition always :: "string \<Rightarrow> 's pred \<Rightarrow> ('m, 'v, 's) world \<Rightarrow> ('m, 'v, 's) world" where
  "always name p w =
     (if tearing_down w then w
      else let w1 = w\<lparr>invariants := invariants w @ [(name, p)]\<rparr>
        in if \<not> invariants_hook_installed w1
           then w1\<lparr>sl_hooks := sl_hooks w1 @ [CheckInvariants], invariants_hook_installed := True\<rparr>
           else w1)"

fun first_failure :: "(string \<times> 's pred) list \<Rightarrow> 's \<Rightarrow> pyfloat \<Rightarrow> exn option" where
  "first_failure [] objs t = None"
| "first_failure ((name, p) # ps) objs t = (case p objs t of
     Holds \<Rightarrow> first_failure ps objs t
   | Fails \<Rightarrow> Some (exn (InvariantError name t))
   | PredRaises e \<Rightarrow> Some e)"

definition check_invariants :: "('m, 'v, 's) world \<Rightarrow> ('m, 'v, 's) world \<times> hook_result" where
  "check_invariants w = (w, case first_failure (invariants w) (heap w) (time w) of
     None \<Rightarrow> HookOk | Some e \<Rightarrow> HookHard e)"

text \<open>How an awaitable call ends for now: with a reply, waiting for a future (or a bare yield), or not.\<close>

datatype 'm op_result = Reply "'m reply" | Wait frame "nat option" | Hangs

definition cancelled_error :: exn where
  "cancelled_error = exn (PyError ''CancelledError'')"

definition is_cancelled_error :: "exn \<Rightarrow> bool" where
  "is_cancelled_error e = (ekind e = PyError ''CancelledError'')"

definition fut_reply :: "nat \<Rightarrow> ('m, 'v, 's) world \<Rightarrow> exn option" where
  "fut_reply f w = (case futs w f of Failed e \<Rightarrow> Some e | FutCancelled \<Rightarrow> Some cancelled_error | _ \<Rightarrow> None)"

definition reply_of :: "exn option \<Rightarrow> 'm reply" where
  "reply_of err = (case err of None \<Rightarrow> ROk | Some e \<Rightarrow> RExn e)"

text \<open>\<open>asyncio.sleep\<close>, as \<open>run_for\<close> and scenarios use it.\<close>

definition sleep :: "pyfloat \<Rightarrow> ('m, 'v, 's) world \<Rightarrow> ('m, 'v, 's) world \<times> 'm op_result" where
  "sleep delay w =
     (if isnan delay then (w, Reply (RExn (exn (PyError ''ValueError''))))
      else if py_le delay (Fin 0) then (w, Wait FYield None)
      else let (w1, f) = create_future w; t = next_handle w1
        in case call_later delay (SetResultUnlessCancelled f) w1 of
             (w2, Done) \<Rightarrow> (w2, Wait (FSleep t f) (Some f))
           | (w2, Raised e) \<Rightarrow> (w2, Reply (RExn e))
           | (w2, Diverged) \<Rightarrow> (w2, Hangs))"

definition run_for ::
    "pyfloat \<Rightarrow> fault list \<Rightarrow> ('m, 'v, 's) world \<Rightarrow> ('m, 'v, 's) world \<times> 'm op_result" where
  "run_for seconds faults w =
     (if \<not> isfinite seconds \<or> py_lt seconds (Fin 0)
      then (w, Reply (RExn (exn (SeedloopError ''seconds must be a finite number >= 0''))))
      else case validate_faults (bound_addresses w) seconds faults of
        Some e \<Rightarrow> (w, Reply (RExn (exn e)))
      | None \<Rightarrow> (case commit_faults faults seconds w of
          (w1, Done) \<Rightarrow> sleep seconds w1
        | (w1, Raised e) \<Rightarrow> (w1, Reply (RExn e))
        | (w1, Diverged) \<Rightarrow> (w1, Hangs)))"

text \<open>The \<open>check\<close> closure of \<open>run_until\<close>, installed as a hook.\<close>

definition timeout_error :: exn where
  "timeout_error = exn (PyError ''TimeoutError'')"

definition until_check ::
    "nat \<Rightarrow> 's pred \<Rightarrow> pyfloat option \<Rightarrow> ('m, 'v, 's) world \<Rightarrow> ('m, 'v, 's) world \<times> hook_result" where
  "until_check done p deadline_at w =
     (if fut_done done w then (w, HookOk)
      else case p (heap w) (time w) of
        PredRaises e \<Rightarrow>
          if is_exception e then (fst (complete_future done (Failed e) w), HookSoft e)
          else (w, HookHard e)
      | Holds \<Rightarrow> (fst (complete_future done Result w), HookOk)
      | Fails \<Rightarrow>
          if deadline_at \<noteq> None \<and> py_le (the deadline_at) (time w)
          then (fst (complete_future done (Failed timeout_error) w), HookOk)
          else (w, HookOk))"

fun is_until :: "nat \<Rightarrow> 's hook \<Rightarrow> bool" where
  "is_until done CheckInvariants = False"
| "is_until done (UntilCheck d p t) = (d = done)"

text \<open>The \<open>finally\<close> of \<open>run_until\<close>.\<close>

definition run_until_end ::
    "nat \<Rightarrow> nat option \<Rightarrow> ('m, 'v, 's) world \<Rightarrow> ('m, 'v, 's) world" where
  "run_until_end done timer w =
     (let w1 = w\<lparr>sl_hooks := filter (\<lambda>h. \<not> is_until done h) (sl_hooks w)\<rparr>;
          w2 = (case timer of None \<Rightarrow> w1 | Some t \<Rightarrow> cancel_handle (t, Nop) w1)
      in w2\<lparr>run_until_active := False\<rparr>)"

definition run_until ::
    "'s pred \<Rightarrow> pyfloat option \<Rightarrow> ('m, 'v, 's) world \<Rightarrow> ('m, 'v, 's) world \<times> 'm op_result" where
  "run_until p deadline w =
     (if run_until_active w
      then (w, Reply (RExn (exn (SeedloopError ''run_until does not support concurrent or nested calls''))))
      else if deadline \<noteq> None \<and> \<not> isfinite (the deadline)
      then (w, Reply (RExn (exn (SeedloopError ''deadline must be a finite number or None''))))
      else
        let (w1, done) = create_future (w\<lparr>run_until_active := True\<rparr>);
            deadline_at = map_option (py_add (time w1)) deadline;
            w2 = w1\<lparr>sl_hooks := sl_hooks w1 @ [UntilCheck done p deadline_at]\<rparr>;
            timer = (case deadline_at of None \<Rightarrow> None | Some t \<Rightarrow> Some (next_handle w2));
            w3 = (case deadline_at of None \<Rightarrow> w2 | Some t \<Rightarrow> fst (call_at t Nop w2));
            (w4, r) = until_check done p deadline_at w3
        in case r of
             HookHard e \<Rightarrow> (run_until_end done timer w4, Reply (RExn e))
           | _ \<Rightarrow> if fut_done done w4
                  then (run_until_end done timer w4, Reply (reply_of (fut_reply done w4)))
                  else (w4, Wait (FUntil done timer) (Some done)))"

section \<open>Tasks\<close>

text \<open>\<open>create_task\<close>: a future, an index, and the first step in the ready queue.\<close>

definition spawn :: "('m, 'v, 's) code \<Rightarrow> ('m, 'v, 's) world \<Rightarrow> ('m, 'v, 's) world \<times> nat" where
  "spawn c w =
     (let (w1, f) = create_future w; (w2, e, s) = create_task (User (TaskStep f None)) w1
      in (w2\<lparr>tasks := (tasks w2)(f \<mapsto>
            \<lparr>t_cont = Begin c, t_waiter = None, t_must_cancel = False, t_cancels = 0, t_seq = s\<rparr>)\<rparr>, f))"

fun start :: "('m, 'v, 's) code list \<Rightarrow> ('m, 'v, 's) world \<Rightarrow> ('m, 'v, 's) world" where
  "start [] w = w"
| "start (c # cs) w = (let (w1, f) = spawn c w in start cs (w1\<lparr>started := started w1 @ [f]\<rparr>))"

definition upd_task ::
    "nat \<Rightarrow> (('m, 'v, 's) task \<Rightarrow> ('m, 'v, 's) task) \<Rightarrow> ('m, 'v, 's) world \<Rightarrow> ('m, 'v, 's) world" where
  "upd_task f g w = w\<lparr>tasks := (tasks w)(f := map_option g (tasks w f))\<rparr>"

text \<open>
  \<open>cancel\<close> of a future or a task: a waiting task passes the request on to what it awaits, any other
  is marked. A chain of tasks awaiting each other is no longer than the number of futures; the
  first argument bounds the recursion (a cycle would exhaust Python's stack).
\<close>

fun cancel_fut :: "nat \<Rightarrow> nat \<Rightarrow> ('m, 'v, 's) world \<Rightarrow> ('m, 'v, 's) world \<times> bool" where
  "cancel_fut 0 f w = (w, False)"
| "cancel_fut (Suc n) f w =
     (if fut_done f w then (w, False)
      else case tasks w f of
        None \<Rightarrow> (fst (complete_future f FutCancelled w), True)
      | Some t \<Rightarrow>
        let w0 = upd_task f (t_cancels_update Suc) w in (case t_waiter t of
          None \<Rightarrow> (upd_task f (t_must_cancel_update (\<lambda>_. True)) w0, True)
        | Some g \<Rightarrow>
            let (w1, b) = cancel_fut n g w0
            in if b then (w1, True)
               else (upd_task f (t_must_cancel_update (\<lambda>_. True)) w1, True)))"

definition cancel_task :: "nat \<Rightarrow> ('m, 'v, 's) world \<Rightarrow> ('m, 'v, 's) world" where
  "cancel_task f w = fst (cancel_fut (Suc (next_fut w)) f w)"

section \<open>Running user code\<close>

text \<open>The handle of a user callback, cancelled by its number.\<close>

fun is_user :: "('m, 'u) callback \<Rightarrow> bool" where
  "is_user (User u) = True"
| "is_user _ = False"

definition cancel_user :: "nat \<Rightarrow> ('m, 'v, 's) world \<Rightarrow> ('m, 'v, 's) world" where
  "cancel_user n w =
     fold cancel_handle (filter (\<lambda>h. fst h = n \<and> is_user (snd h))
       (ready w @ map (\<lambda>t. snd (snd t)) (sl_timers w))) w"

text \<open>\<open>asyncio.timeout\<close>, as \<open>asyncio.wait_for\<close> uses it: entering, its timer, leaving.\<close>

definition cancels :: "nat \<Rightarrow> ('m, 'v, 's) world \<Rightarrow> nat" where
  "cancels f w = (case tasks w f of None \<Rightarrow> 0 | Some t \<Rightarrow> t_cancels t)"

definition enter_timeout ::
    "pyfloat \<Rightarrow> ('m, 'v, 's) world \<Rightarrow> ('m, 'v, 's) world \<times> 'm op_result" where
  "enter_timeout when w = (case current w of
     None \<Rightarrow> (w, Reply (RExn (exn (PyError ''RuntimeError''))))
   | Some f \<Rightarrow>
       let i = next_handle w;
           w1 = w\<lparr>timeouts := (timeouts w)(i \<mapsto> Timeout f (cancels f w) False)\<rparr>
       in (case (if py_le when (time w1) then call_soon (User (Expire i)) w1
                 else call_at when (User (Expire i)) w1) of
             (w2, Done) \<Rightarrow> (w2, Reply (RId i))
           | (w2, Raised e) \<Rightarrow> (w2, Reply (RExn e))
           | (w2, Diverged) \<Rightarrow> (w2, Hangs)))"

definition expire :: "nat \<Rightarrow> ('m, 'v, 's) world \<Rightarrow> ('m, 'v, 's) world" where
  "expire i w = (case timeouts w i of
     None \<Rightarrow> w
   | Some (Timeout f n x) \<Rightarrow>
       let w1 = cancel_task f w in w1\<lparr>timeouts := (timeouts w1)(i \<mapsto> Timeout f n True)\<rparr>)"

definition exit_timeout ::
    "nat \<Rightarrow> exn option \<Rightarrow> ('m, 'v, 's) world \<Rightarrow> ('m, 'v, 's) world \<times> 'm op_result" where
  "exit_timeout i err w =
     (let w1 = cancel_user i w in
      case timeouts w1 i of
        Some (Timeout f n True) \<Rightarrow>
          let w2 = upd_task f (t_cancels_update (\<lambda>k. k - 1)) w1
          in (w2, Reply (if cancels f w2 \<le> n \<and> err \<noteq> None \<and> is_cancelled_error (the err)
                         then RExn timeout_error else reply_of err))
      | _ \<Rightarrow> (w1, Reply (reply_of err)))"

definition handle_reply ::
    "nat \<Rightarrow> ('m, 'v, 's) world \<times> outcome \<Rightarrow> ('m, 'v, 's) world \<times> 'm op_result" where
  "handle_reply n r = (case r of (w, Done) \<Rightarrow> (w, Reply (RId n))
     | (w, Raised e) \<Rightarrow> (w, Reply (RExn e)) | (w, Diverged) \<Rightarrow> (w, Hangs))"

definition unit_reply :: "('m, 'v, 's) world \<times> outcome \<Rightarrow> ('m, 'v, 's) world \<times> 'm op_result" where
  "unit_reply r = (case r of (w, Done) \<Rightarrow> (w, Reply ROk)
     | (w, Raised e) \<Rightarrow> (w, Reply (RExn e)) | (w, Diverged) \<Rightarrow> (w, Hangs))"

definition recv_reply ::
    "int \<Rightarrow> ('m, 'v, 's) world \<times> 'm recv_result \<Rightarrow> ('m, 'v, 's) world \<times> 'm op_result" where
  "recv_reply a r = (case r of (w, Received (s, m)) \<Rightarrow> (w, Reply (RItem s m))
     | (w, RecvRaised e) \<Rightarrow> (w, Reply (RExn e)) | (w, Suspended f) \<Rightarrow> (w, Wait (FRecv a) (Some f)))"

fun do_op ::
    "('m, 'v, 's, ('m, 'v, 's) code) op \<Rightarrow> ('m, 'v, 's) world \<Rightarrow>
     ('m, 'v, 's) world \<times> 'm op_result" where
  "do_op ONow w = (w, Reply (RTime (now w)))"
| "do_op ORandom w = (let (x, r) = py_random (user_rng w) in (w\<lparr>user_rng := r\<rparr>, Reply (RReal x)))"
| "do_op (ORecord v) w = (world_record v w, Reply ROk)"
| "do_op (OAlways name p) w = (always name p w, Reply ROk)"
| "do_op (ORunFor seconds faults) w = run_for (norm seconds) faults w"
| "do_op (ORunUntil p deadline) w = run_until p (map_option norm deadline) w"
| "do_op (OStart cs) w = (start cs w, Reply ROk)"
| "do_op (OBind a reliable loss duplicate) w = unit_reply (bind_ep a reliable loss duplicate w)"
| "do_op (OSend src dst m) w = (case map_of (endpoints w) src of
     None \<Rightarrow> (w, Reply (RExn (exn (PyError ''NameError''))))
   | Some ep \<Rightarrow> unit_reply (send ep dst m w))"
| "do_op (ORecv a) w = recv_reply a (recv a w)"
| "do_op (OPartition groups) w = (set_partition groups w, Reply ROk)"
| "do_op OHeal w = (heal w, Reply ROk)"
| "do_op (OCallSoon c) w = handle_reply (next_handle w) (call_soon (User (Plain c)) w)"
| "do_op (OCallAt t c) w = handle_reply (next_handle w) (call_at (norm t) (User (Plain c)) w)"
| "do_op (OCallLater d c) w = handle_reply (next_handle w) (call_later (norm d) (User (Plain c)) w)"
| "do_op (OCancelHandle n) w = (cancel_user n w, Reply ROk)"
| "do_op OStop w = (stop w, Reply ROk)"
| "do_op (OSpawn c) w = (let (w1, f) = spawn c w in (w1, Reply (RId f)))"
| "do_op (OCancelTask f) w = (cancel_task f w, Reply ROk)"
| "do_op (OAwait f) w =
     (if fut_done f w then (w, Reply (reply_of (fut_reply f w))) else (w, Wait (FAwait f) (Some f)))"
| "do_op OFuture w = (let (w1, f) = create_future w in (w1, Reply (RId f)))"
| "do_op (OSetResult f) w = unit_reply (complete_future f Result w)"
| "do_op (OSleep d) w = sleep (norm d) w"
| "do_op (OTimeout d) w = enter_timeout (py_add (time w) (norm d)) w"
| "do_op (OTimeoutEnd i err) w = exit_timeout i err w"
| "do_op (OOnDone f c) w = (add_done_callback f (User (Plain c)) w, Reply ROk)"
| "do_op (OReal r) w = (w, Reply (RExn (real_call r)))"

text \<open>Where a stretch of user code ends: with the task's outcome or at its next suspension.\<close>

datatype ('m, 'v, 's) ended =
    Returned
  | Threw exn
  | Hung
  | Waiting frame "nat option" "'m reply \<Rightarrow> ('m, 'v, 's) code"

primrec exec ::
    "('m, 'v, 's) code \<Rightarrow> ('m, 'v, 's) world \<Rightarrow> ('m, 'v, 's) world \<times> ('m, 'v, 's) ended" where
  "exec Return = (\<lambda>w. (w, Returned))"
| "exec (Throw e) = (\<lambda>w. (w, Threw e))"
| "exec Hang = (\<lambda>w. (w, Hung))"
| "exec (Heap f k) = (\<lambda>w. exec (k (heap w)) (w\<lparr>heap := f (heap w)\<rparr>))"
| "exec (Op op k) = (\<lambda>w. case do_op op w of
     (w', Reply r) \<Rightarrow> exec (k r) w'
   | (w', Wait fr f) \<Rightarrow> (w', Waiting fr f k)
   | (w', Hangs) \<Rightarrow> (w', Hung))"

text \<open>The library's frame, resumed with the exception the await raises, if any.\<close>

fun wake :: "frame \<Rightarrow> exn option \<Rightarrow> ('m, 'v, 's) world \<Rightarrow> ('m, 'v, 's) world \<times> 'm op_result" where
  "wake (FSleep t f) err w = (cancel_handle (t, SetResultUnlessCancelled f) w, Reply (reply_of err))"
| "wake (FUntil done timer) err w = (run_until_end done timer w, Reply (reply_of err))"
| "wake (FRecv a) err w = recv_reply a (recv_wake a err w)"
| "wake (FAwait f) err w = (w, Reply (reply_of err))"
| "wake FYield err w = (w, Reply (reply_of err))"

fun resume ::
    "('m, 'v, 's) cont \<Rightarrow> exn option \<Rightarrow> ('m, 'v, 's) world \<Rightarrow>
     ('m, 'v, 's) world \<times> ('m, 'v, 's) ended" where
  "resume (Begin c) None w = exec c w"
| "resume (Begin c) (Some e) w = (w, Threw e)"
| "resume (Resume fr k) err w = (case wake fr err w of
     (w', Reply r) \<Rightarrow> exec (k r) w'
   | (w', Wait fr' f) \<Rightarrow> (w', Waiting fr' f k)
   | (w', Hangs) \<Rightarrow> (w', Hung))"
| "resume Finished err w = (w, Threw (exn (PyError ''RuntimeError'')))"

text \<open>What a task does with the end of a stretch (\<open>Task.__step\<close>).\<close>

definition must_cancel :: "nat \<Rightarrow> ('m, 'v, 's) world \<Rightarrow> bool" where
  "must_cancel f w = (case tasks w f of None \<Rightarrow> False | Some t \<Rightarrow> t_must_cancel t)"

definition finish_task :: "nat \<Rightarrow> fut_state \<Rightarrow> ('m, 'v, 's) world \<Rightarrow> ('m, 'v, 's) world" where
  "finish_task f r w = fst (complete_future f r
     (upd_task f (\<lambda>t. t\<lparr>t_cont := Finished, t_must_cancel := False\<rparr>) w))"

definition task_wait ::
    "nat \<Rightarrow> frame \<Rightarrow> nat \<Rightarrow> ('m reply \<Rightarrow> ('m, 'v, 's) code) \<Rightarrow> ('m, 'v, 's) world \<Rightarrow> ('m, 'v, 's) world" where
  "task_wait f fr g k w =
     (let w1 = add_done_callback g (User (TaskWakeup f g))
            (upd_task f (\<lambda>t. t\<lparr>t_cont := Resume fr k, t_waiter := Some g\<rparr>) w)
      in if must_cancel f w1
         then let (w2, b) = cancel_fut (Suc (next_fut w1)) g w1
              in if b then upd_task f (t_must_cancel_update (\<lambda>_. False)) w2 else w2
         else w1)"

definition task_end ::
    "nat \<Rightarrow> ('m, 'v, 's) world \<times> ('m, 'v, 's) ended \<Rightarrow> ('m, 'v, 's) world \<times> outcome" where
  "task_end f r = (case r of
     (w, Returned) \<Rightarrow>
       (finish_task f (if must_cancel f w then FutCancelled else Result) w, Done)
   | (w, Threw e) \<Rightarrow>
       if is_cancelled_error e then (finish_task f FutCancelled w, Done)
       else (finish_task f (Failed e) w, if is_interrupt e then Raised e else Done)
   | (w, Hung) \<Rightarrow> (w, Diverged)
   | (w, Waiting fr None k) \<Rightarrow>
       (fst (call_soon (User (TaskStep f None)) (upd_task f (\<lambda>t. t\<lparr>t_cont := Resume fr k\<rparr>) w)), Done)
   | (w, Waiting fr (Some g) k) \<Rightarrow> (task_wait f fr g k w, Done))"

definition task_step ::
    "nat \<Rightarrow> exn option \<Rightarrow> ('m, 'v, 's) world \<Rightarrow> ('m, 'v, 's) world \<times> outcome" where
  "task_step f err w = (case tasks w f of
     None \<Rightarrow> (w, Done)
   | Some t \<Rightarrow>
       if fut_done f w then (w, Done)
       else
         let err' = (if t_must_cancel t \<and> \<not> (err \<noteq> None \<and> is_cancelled_error (the err))
                     then Some cancelled_error else err);
             w1 = (upd_task f (\<lambda>t. t\<lparr>t_waiter := None, t_must_cancel := False\<rparr>) w)\<lparr>current := Some f\<rparr>;
             (w2, e) = task_end f (resume (t_cont t) err' w1)
         in (w2\<lparr>current := None\<rparr>, e))"

section \<open>The callbacks and hooks the loop runs\<close>

text \<open>\<open>asyncio.gather\<close>: an outer future, done when the last of its children has reported.\<close>

definition gather :: "nat list \<Rightarrow> ('m, 'v, 's) world \<Rightarrow> ('m, 'v, 's) world \<times> nat" where
  "gather fs w =
     (let (w1, outer) = create_future w;
          w2 = w1\<lparr>gather_left := (gather_left w1)(outer := length fs)\<rparr>
      in (fold (\<lambda>f. add_done_callback f (User (GatherDone outer))) fs w2, outer))"

definition gather_done :: "nat \<Rightarrow> ('m, 'v, 's) world \<Rightarrow> ('m, 'v, 's) world" where
  "gather_done outer w =
     (let n = gather_left w outer - 1; w1 = w\<lparr>gather_left := (gather_left w)(outer := n)\<rparr>
      in if n = 0 then fst (complete_future outer Result w1) else w1)"

text \<open>
  A handle catches the exception of its callback (\<open>Handle._run\<close>), but not an interrupt.
\<close>

fun run_cb ::
    "('m, ('m, 'v, 's) ucb) callback \<Rightarrow> ('m, 'v, 's) world \<Rightarrow> ('m, 'v, 's) world \<times> outcome" where
  "run_cb Nop w = (w, Done)"
| "run_cb (SetResultUnlessCancelled f) w =
     (if futs w f = FutCancelled then (w, Done) else (fst (complete_future f Result w), Done))"
| "run_cb (User (TaskStep f err)) w = task_step f err w"
| "run_cb (User (TaskWakeup f g)) w = task_step f (fut_reply g w) w"
| "run_cb (User (Plain c)) w = (case exec c w of
     (w', Threw e) \<Rightarrow> (w', if is_interrupt e then Raised e else Done)
   | (w', Hung) \<Rightarrow> (w', Diverged)
   | (w', _) \<Rightarrow> (w', Done))"
| "run_cb (User (GatherDone outer)) w = (gather_done outer w, Done)"
| "run_cb (User StopLoop) w = (stop w, Done)"
| "run_cb (User (Expire i)) w = (expire i w, Done)"
| "run_cb c w = (case run_net c w of (w', Raised e) \<Rightarrow> (w', if is_interrupt e then Raised e else Done)
     | r \<Rightarrow> r)"

fun run_hook :: "'s hook \<Rightarrow> ('m, 'v, 's) world \<Rightarrow> ('m, 'v, 's) world \<times> hook_result" where
  "run_hook CheckInvariants w = check_invariants w"
| "run_hook (UntilCheck done p deadline_at) w = until_check done p deadline_at w"

text \<open>One step of the world's loop.\<close>

definition world_step :: "('m, 'v, 's) world \<Rightarrow> ('m, 'v, 's) world \<times> outcome" where
  "world_step w = run_once run_cb run_hook w"

end
