(* ===== verification/World_Facts.thy ===== *)
theory World_Facts
  imports World
begin

text \<open>
  The world is a client of the loop: every callback and hook leaves the clock, the step allowance
  and the completion counter alone, only adds to the ready queue, and keeps the invariant of the
  network, whatever the user code is. The interpretation of \<open>loop_client\<close> at the end gives the
  world every fact proved of the loop under its contract.
\<close>

section \<open>What user code cannot touch\<close>

text \<open>
  The loop's clock, allowance and completion counter stay; the ready queue and the timeline are only
  appended to; a crashed node stays crashed; and the \<open>"net"\<close> stream has moved by one float draw
  (two words) for each message sent.
\<close>

text \<open>A future that is done keeps its result.\<close>

definition futs_kept :: "('c, 'k, 'w) loop_scheme \<Rightarrow> ('c, 'k, 'w) loop_scheme \<Rightarrow> bool" where
  "futs_kept w w' = (next_fut w \<le> next_fut w' \<and> (\<forall>f<next_fut w. fut_done f w \<longrightarrow> futs w' f = futs w f))"

lemma futs_kept_same [simp]: "futs w' = futs w \<Longrightarrow> next_fut w' = next_fut w \<Longrightarrow> futs_kept w w'"
  by (simp add: futs_kept_def)

lemma futs_kept_trans: "futs_kept w w' \<Longrightarrow> futs_kept w' w'' \<Longrightarrow> futs_kept w w''"
  by (auto simp: futs_kept_def fut_done_def)

definition moves :: "('m, 'u, 'k, 'v, 'w) net_scheme \<Rightarrow> ('m, 'u, 'k, 'v, 'w) net_scheme \<Rightarrow> bool" where
  "moves w w' = (sl_time w' = sl_time w \<and> sl_steps_left w' = sl_steps_left w \<and>
     sl_stop_in w' = sl_stop_in w \<and> sl_watch w' = sl_watch w \<and> sl_settle w' = sl_settle w \<and>
     sl_step_error w' = sl_step_error w \<and>
     futs_kept w w' \<and> (\<exists>hs. ready w' = ready w @ hs) \<and>
     (\<exists>evs. timeline w' = timeline w @ evs) \<and> crashed w \<subseteq> crashed w' \<and>
     (\<exists>n. next_mid w' = next_mid w + n \<and> net_rng w' = advance (2 * n) (net_rng w)))"

text \<open>An operation of the loop or the network touches neither the hooks nor the fields of the world.\<close>

definition keeps :: "('m, 'u, 'k, 'v, 'w) net_scheme \<Rightarrow> ('m, 'u, 'k, 'v, 'w) net_scheme \<Rightarrow> bool" where
  "keeps w w' = (moves w w' \<and> sl_hooks w' = sl_hooks w \<and> net.more w' = net.more w)"

named_theorems keeps_intros \<open>an operation leaves the loop's own state alone\<close>

lemma moves_refl [simp]: "moves w w"
  by (simp add: moves_def exI [of _ 0])

lemma keeps_refl [simp]: "keeps w w"
  by (simp add: keeps_def)

lemma moves_trans: "moves w w' \<Longrightarrow> moves w' w'' \<Longrightarrow> moves w w''"
proof -
  assume 1: "moves w w'" and 2: "moves w' w''"
  obtain n where n: "next_mid w' = next_mid w + n" "net_rng w' = advance (2 * n) (net_rng w)"
    using 1 by (auto simp: moves_def)
  obtain m where m: "next_mid w'' = next_mid w' + m" "net_rng w'' = advance (2 * m) (net_rng w')"
    using 2 by (auto simp: moves_def)
  have "next_mid w'' = next_mid w + (n + m) \<and> net_rng w'' = advance (2 * (n + m)) (net_rng w)"
    using n m by (simp add: add.commute)
  then have "\<exists>k. next_mid w'' = next_mid w + k \<and> net_rng w'' = advance (2 * k) (net_rng w)" by blast
  moreover have "futs_kept w w''" using 1 2 by (auto simp: moves_def intro: futs_kept_trans)
  ultimately show "moves w w''" using 1 2 by (auto simp: moves_def)
qed

lemma keeps_trans: "keeps w w' \<Longrightarrow> keeps w' w'' \<Longrightarrow> keeps w w''"
  by (auto simp: keeps_def intro: moves_trans)

lemma moves_step:
  assumes "sl_time w' = sl_time w" "sl_steps_left w' = sl_steps_left w" "sl_stop_in w' = sl_stop_in w"
    "sl_watch w' = sl_watch w" "sl_settle w' = sl_settle w" "sl_step_error w' = sl_step_error w" "futs_kept w w'"
    "\<exists>hs. ready w' = ready w @ hs"
    "\<exists>evs. timeline w' = timeline w @ evs"
    "crashed w \<subseteq> crashed w'" "next_mid w' = next_mid w" "net_rng w' = net_rng w"
  shows "moves w w'"
  using assms by (simp add: moves_def exI [of _ 0])

lemma keeps_step:
  assumes "sl_time w' = sl_time w" "sl_steps_left w' = sl_steps_left w" "sl_stop_in w' = sl_stop_in w"
    "sl_watch w' = sl_watch w" "sl_settle w' = sl_settle w" "sl_step_error w' = sl_step_error w" "futs_kept w w'"
    "\<exists>hs. ready w' = ready w @ hs"
    "\<exists>evs. timeline w' = timeline w @ evs"
    "crashed w \<subseteq> crashed w'" "next_mid w' = next_mid w" "net_rng w' = net_rng w"
    "sl_hooks w' = sl_hooks w" "net.more w' = net.more w"
  shows "keeps w w'"
  using assms by (simp add: keeps_def moves_step)

lemma keeps_same:
  "sl_time w' = sl_time w \<Longrightarrow> sl_steps_left w' = sl_steps_left w \<Longrightarrow> sl_stop_in w' = sl_stop_in w \<Longrightarrow>
    sl_watch w' = sl_watch w \<Longrightarrow> sl_settle w' = sl_settle w \<Longrightarrow> sl_step_error w' = sl_step_error w \<Longrightarrow> ready w' = ready w \<Longrightarrow>
    futs w' = futs w \<Longrightarrow> next_fut w' = next_fut w \<Longrightarrow> timeline w' = timeline w \<Longrightarrow> crashed w' = crashed w \<Longrightarrow> next_mid w' = next_mid w \<Longrightarrow>
    net_rng w' = net_rng w \<Longrightarrow> sl_hooks w' = sl_hooks w \<Longrightarrow> net.more w' = net.more w \<Longrightarrow> keeps w w'"
  by (rule keeps_step) simp_all

lemma keeps_more:
  assumes "loop.more w' = loop.more w" "sl_time w' = sl_time w" "sl_steps_left w' = sl_steps_left w"
    "sl_stop_in w' = sl_stop_in w" "sl_watch w' = sl_watch w" "sl_settle w' = sl_settle w"
    "sl_step_error w' = sl_step_error w" "futs_kept w w'"
    "\<exists>hs. ready w' = ready w @ hs" "sl_hooks w' = sl_hooks w"
  shows "keeps w w'"
proof (rule keeps_step)
  show "\<exists>evs. timeline w' = timeline w @ evs" "crashed w \<subseteq> crashed w'" "next_mid w' = next_mid w"
    "net_rng w' = net_rng w" "net.more w' = net.more w"
    using assms(1) by (cases w; cases w'; simp)+
qed (use assms in simp_all)

lemma settle_call_soon_all:
  "sl_settle (call_soon_all cs w) = sl_settle w" "sl_step_error (call_soon_all cs w) = sl_step_error w"
  by (induction cs arbitrary: w) (simp_all add: call_soon_def)

lemma settle_frame:
  "sl_settle (fst (call_soon c w)) = sl_settle w" "sl_settle (call_soon_all cs w) = sl_settle w"
  "sl_settle (fst (complete_future f r w)) = sl_settle w"
  "sl_settle (add_done_callback f c w) = sl_settle w" "sl_settle (fst (call_at t c w)) = sl_settle w"
  "sl_step_error (fst (call_soon c w)) = sl_step_error w" "sl_step_error (call_soon_all cs w) = sl_step_error w"
  "sl_step_error (fst (complete_future f r w)) = sl_step_error w"
  "sl_step_error (add_done_callback f c w) = sl_step_error w"
  "sl_step_error (fst (call_at t c w)) = sl_step_error w"
  by (simp_all add: settle_call_soon_all call_soon_def complete_future_def add_done_callback_def call_at_def)

lemma futs_call_soon_all:
  "futs (call_soon_all cs w) = futs w" "next_fut (call_soon_all cs w) = next_fut w"
  by (induction cs arbitrary: w) (simp_all add: call_soon_def)

lemma futs_kept_loop:
  "futs_kept w (fst (call_soon c w))" "futs_kept w (call_soon_all cs w)"
  "futs_kept w (fst (complete_future f r w))" "futs_kept w (add_done_callback f c w)"
  "futs_kept w (fst (call_at t c w))" "futs_kept w (fst (create_future w))"
  by (simp_all add: futs_call_soon_all call_soon_def add_done_callback_def call_at_def)
    (auto simp: futs_kept_def complete_future_def futs_call_soon_all create_future_def fut_done_def)

lemmas futs_kept_create = futs_kept_loop(6) [unfolded create_future_def fst_conv]

lemma keeps_and_then:
  "keeps w (fst r) \<Longrightarrow> (\<And>s. keeps s (fst (f s))) \<Longrightarrow> keeps w (fst (and_then r f))"
  by (rule and_then_inv [where P = "keeps w"]) (auto intro: keeps_trans)

lemma keeps_loop [keeps_intros]:
  "keeps w (fst (call_soon c w))"
  "keeps w (call_soon_all cs w)"
  "keeps w (fst (complete_future f r w))"
  "keeps w (add_done_callback f c w)"
  "keeps w (fst (call_at t c w))"
  "keeps w (fst (call_later d c w))"
  "keeps w (fst (create_future w))"
  "keeps w (cancel_handle h w)"
  "keeps w (stop w)"
  by (rule keeps_more; simp add: frame_simps ready_call_soon ready_call_soon_all ready_complete_future
      ready_add_done_callback settle_frame futs_kept_loop futs_kept_create call_later_def create_future_def cancel_handle_def stop_def)+

lemma keeps_create_task [keeps_intros]: "keeps w (fst (create_task c w))"
  by (rule keeps_more) (simp_all add: create_task_def call_soon_def)

lemma keeps_record [keeps_intros]: "keeps w (record_event e w)"
  by (rule keeps_step) (simp_all add: record_event_def)

lemma keeps_net_simple [keeps_intros]:
  "keeps w (fst (bind_ep a r l p w))" "keeps w (set_partition gs w)" "keeps w (heal w)"
  by (rule keeps_same; simp add: bind_ep_def set_partition_def heal_def)+

lemma keeps_faults_happens: "keeps w (snd (faults_happens p w))"
  by (rule faults_happens_cases [of p w]) (simp add: keeps_same)

lemma keeps_uniform: "keeps w (snd (faults_uniform a b w))"
  by (rule keeps_same) (simp_all add: faults_uniform_def case_prod_unfold)

text \<open>One latency draw per message id.\<close>

lemma py_random_advance: "snd (py_random r) = advance 2 r"
  by (simp add: py_random_def genrand_def advance_def Let_def case_prod_unfold)

lemma keeps_send [keeps_intros]: "keeps w (fst (send ep dst m w))"
proof -
  let ?mid = "next_mid w" and ?src = "ep_address ep"
  let ?c = "Deliver ?mid ?src dst m"
  define w1 where "w1 = record_event (MsgEv (sl_time w) SendEv ?mid ?src dst) (w\<lparr>next_mid := Suc ?mid\<rparr>)"
  define w2 where "w2 = snd (net_uniform LAT_MIN LAT_MAX w1)"
  define lat where "lat = py_mul (fst (net_uniform LAT_MIN LAT_MAX w1)) (slow_factor ?src dst w2)"
  have "net_rng w2 = advance (2 * 1) (net_rng w)" "next_mid w2 = next_mid w + 1"
    by (simp_all add: w2_def w1_def net_uniform_def record_event_def case_prod_unfold py_random_advance)
  moreover have "timeline w2 = timeline w @ [MsgEv (sl_time w) SendEv ?mid ?src dst]" "sl_time w2 = sl_time w"
    "sl_hooks w2 = sl_hooks w" "net.more w2 = net.more w" "sl_settle w2 = sl_settle w"
    "sl_step_error w2 = sl_step_error w"
    "sl_steps_left w2 = sl_steps_left w" "sl_stop_in w2 = sl_stop_in w" "sl_watch w2 = sl_watch w"
    "ready w2 = ready w" "crashed w2 = crashed w" "futs w2 = futs w" "next_fut w2 = next_fut w"
    by (simp_all add: w2_def w1_def net_uniform_def record_event_def case_prod_unfold)
  ultimately have 2: "keeps w w2" unfolding keeps_def moves_def by (intro conjI exI [of _ 1]) simp_all
  let ?dup = "\<lambda>w4. let (dup, w5) = faults_happens (ep_duplicate ep) w4 in
        if dup then
          let w6 = record_event (MsgEv (sl_time w5) DuplicateEv ?mid ?src dst) w5;
              (u', w7) = faults_uniform LAT_MIN LAT_MAX w6
          in call_later (py_mul u' (slow_factor ?src dst w7)) ?c w7
        else (w5, Done)"
  have dup: "keeps w4 (fst (?dup w4))" for w4
  proof -
    obtain b r where d: "faults_happens (ep_duplicate ep) w4 = (b, w4\<lparr>faults_rng := r\<rparr>)"
      by (rule faults_happens_cases)
    let ?w6 = "record_event (MsgEv (sl_time w4) DuplicateEv ?mid ?src dst) (w4\<lparr>faults_rng := r\<rparr>)"
    obtain u w7 where u: "faults_uniform LAT_MIN LAT_MAX ?w6 = (u, w7)" by fastforce
    have "keeps w4 ?w6" by (rule keeps_step) (simp_all add: record_event_def)
    moreover have "keeps ?w6 w7" using keeps_uniform [of ?w6 LAT_MIN LAT_MAX] u by simp
    ultimately have 7: "keeps w4 w7" by (rule keeps_trans)
    have "keeps w4 (w4\<lparr>faults_rng := r\<rparr>)" by (rule keeps_same) simp_all
    then show ?thesis using d u keeps_trans [OF 7 keeps_loop(6)] by (simp add: Let_def)
  qed
  obtain b r where d: "faults_happens (ep_loss ep) w2 = (b, w2\<lparr>faults_rng := r\<rparr>)"
    by (rule faults_happens_cases)
  let ?w3 = "w2\<lparr>faults_rng := r\<rparr>"
  have "keeps w2 ?w3" by (rule keeps_same) simp_all
  note 3 = keeps_trans [OF 2 this]
  have eq: "send ep dst m w = (if ep_reliable ep then schedule_reliable ?mid ?src dst m lat w2
     else if b then (record_event (MsgEv (sl_time ?w3) DropEv ?mid ?src dst) ?w3, Done)
     else and_then (call_later lat ?c ?w3) ?dup)"
    using d by (simp add: send_def Let_def w1_def w2_def lat_def case_prod_unfold)
  have "keeps w (fst (schedule_reliable ?mid ?src dst m lat w2))"
    unfolding schedule_reliable_def Let_def
    by (rule keeps_trans [OF 2], rule keeps_trans [OF _ keeps_loop(5)]) (rule keeps_same; simp)
  moreover have "keeps w (record_event (MsgEv (sl_time ?w3) DropEv ?mid ?src dst) ?w3)"
    by (rule keeps_trans [OF 3 keeps_record])
  moreover have "keeps w (fst (and_then (call_later lat ?c ?w3) ?dup))"
    by (rule keeps_and_then [OF keeps_trans [OF 3 keeps_loop(6)] dup])
  ultimately show ?thesis unfolding eq by simp
qed

lemma keeps_endpoints: "keeps w (w\<lparr>endpoints := es\<rparr>)"
  by (rule keeps_same) simp_all

lemma keeps_recv_loop: "keeps w (fst (recv_loop a ep w))"
proof (cases "ep_queue ep")
  case Nil
  have "keeps w (fst (create_future w))" by (rule keeps_loop)
  then show ?thesis
    using Nil by (simp add: recv_loop_def case_prod_unfold Let_def keeps_trans [OF _ keeps_endpoints])
qed (simp add: recv_loop_def keeps_endpoints)

lemma keeps_recv [keeps_intros]:
  "keeps w (fst (recv a w))" "keeps w (fst (recv_wake a err w))"
  using keeps_trans [OF keeps_endpoints keeps_recv_loop]
  by (auto simp: recv_def recv_wake_def Let_def keeps_recv_loop keeps_endpoints split: option.splits)

lemma keeps_enqueue: "keeps w (fst (enqueue a item w))"
  using keeps_trans [OF keeps_endpoints keeps_loop(3)]
  by (auto simp: enqueue_def Let_def keeps_endpoints split: option.splits)

lemma keeps_run_net [keeps_intros]: "keeps w (fst (run_net c w))"
proof (cases c)
  case (Deliver mid s d m)
  then show ?thesis
    by (simp add: deliver_def keeps_trans [OF keeps_record keeps_enqueue] keeps_record)
qed (rule keeps_step; auto simp: begin_fault_partition_def end_fault_partition_def begin_slow_link_def
    end_slow_link_def begin_crash_def record_event_def)+

lemma keeps_fault_id: "keeps w (w\<lparr>next_fault_id := n\<rparr>)" "keeps w (w\<lparr>faults_rng := r\<rparr>)"
  by (rule keeps_same; simp)+

lemma keeps_commit_partition: "keeps w (fst (commit_partition_fault gs t s w))"
proof (cases "if gs \<noteq> Groups [] then Some (groups_sets gs, faults_rng w)
      else draw_bipartition (bound_addresses w) (faults_rng w)")
  case (Some p)
  obtain g r where p: "p = (g, r)" by (cases p) auto
  let ?w1 = "snd (faults_uniform (Fin 0) s (w\<lparr>faults_rng := r\<rparr>))"
  let ?start = "fst (faults_uniform (Fin 0) s (w\<lparr>faults_rng := r\<rparr>))"
  let ?w2 = "snd (faults_uniform ?start s ?w1)"
  have 2: "keeps w ?w2"
    by (rule keeps_trans [OF keeps_fault_id(2) keeps_trans [OF keeps_uniform keeps_uniform]])
  have "keeps w (record_event e (?w2\<lparr>next_fault_id := n\<rparr>))" for e n
    by (rule keeps_trans [OF 2 keeps_trans [OF keeps_fault_id(1) keeps_record]])
  then show ?thesis
    using Some p by (simp add: commit_partition_fault_def Let_def case_prod_unfold
        keeps_and_then keeps_trans [OF _ keeps_loop(5)] keeps_loop(5))
qed (simp add: commit_partition_fault_def)

lemma keeps_commit_slow_resolved: "keeps w (fst (commit_slow_resolved ff t s a b w))"
proof -
  let ?p = "case ff of Some f \<Rightarrow> (f, w) | None \<Rightarrow> faults_uniform (Fin 2) (Fin 50) w"
  let ?w0 = "snd ?p"
  let ?w1 = "snd (faults_uniform (Fin 0) s ?w0)"
  let ?start = "fst (faults_uniform (Fin 0) s ?w0)"
  let ?w2 = "snd (faults_uniform ?start s ?w1)"
  have 0: "keeps w ?w0" by (cases ff) (simp_all add: keeps_uniform)
  have 2: "keeps w ?w2"
    by (rule keeps_trans [OF 0 keeps_trans [OF keeps_uniform keeps_uniform]])
  have "keeps w (record_event e (?w2\<lparr>next_fault_id := n\<rparr>))" for e n
    by (rule keeps_trans [OF 2 keeps_trans [OF keeps_fault_id(1) keeps_record]])
  then show ?thesis
    by (simp add: commit_slow_resolved_def Let_def case_prod_unfold
        keeps_and_then keeps_trans [OF _ keeps_loop(5)] keeps_loop(5))
qed

lemma keeps_with_choice:
  "(\<And>x w. keeps w (fst (f x w))) \<Longrightarrow> keeps w (fst (with_choice xs w f))"
  by (auto simp: with_choice_def split: choice_result.splits intro: keeps_trans [OF keeps_fault_id(2)])

lemma keeps_commit_fault: "keeps w (fst (commit_fault f s w))"
proof (cases f)
  case (SlowLinkFault fa fb ff)
  then show ?thesis
    by (auto simp: commit_slow_link_fault_def split: option.splits
        intro!: keeps_with_choice keeps_commit_slow_resolved)
next
  case (CrashFault fnode fwhen)
  obtain t w0 where p: "(case fwhen of Some t \<Rightarrow> (t, w) | None \<Rightarrow> faults_uniform (Fin 0) s w) = (t, w0)"
    by fastforce
  have "keeps w (snd (faults_uniform (Fin 0) s w))" by (rule keeps_uniform)
  with p have 0: "keeps w w0" by (cases fwhen) auto
  have c: "keeps v (fst (call_at t c (record_event e (v\<lparr>next_fault_id := n\<rparr>))))" for v t c e n
    by (rule keeps_trans [OF keeps_fault_id(1) keeps_trans [OF keeps_record keeps_loop(5)]])
  show ?thesis
  proof (cases fnode)
    case None
    then show ?thesis using CrashFault p
      by (simp add: commit_crash_fault_def Let_def keeps_trans [OF 0 keeps_with_choice] c)
  next
    case (Some a)
    then show ?thesis using CrashFault p
      by (simp add: commit_crash_fault_def Let_def keeps_trans [OF 0 c])
  qed
qed (simp_all add: keeps_commit_partition)

lemma keeps_commit_faults [keeps_intros]: "keeps w (fst (commit_faults fs s w))"
proof (induction fs arbitrary: w)
  case (Cons f fs)
  show ?case by (simp, rule keeps_and_then [OF keeps_commit_fault]) (rule Cons.IH)
qed simp


section \<open>Every operation a scenario can call\<close>

text \<open>The invariant hook is installed with the first registered invariant.\<close>

definition armed :: "('m, 'v, 's) world \<Rightarrow> bool" where
  "armed w = ((invariants w \<noteq> [] \<longrightarrow> invariants_hook_installed w) \<and>
     (invariants_hook_installed w \<longrightarrow> CheckInvariants \<in> set (sl_hooks w)))"

definition fine :: "('m, 'v, 's) world \<Rightarrow> ('m, 'v, 's) world \<Rightarrow> bool" where
  "fine w w' = (moves w w' \<and> (net_inv w \<longrightarrow> net_inv w') \<and> (armed w \<longrightarrow> armed w') \<and>
     (\<exists>fs. started w' = started w @ fs))"

named_theorems fine_intros \<open>an operation of the world keeps its invariants\<close>

lemma fine_refl [simp]: "fine w w"
  by (simp add: fine_def)

lemma fine_trans: "fine w w' \<Longrightarrow> fine w' w'' \<Longrightarrow> fine w w''"
  by (auto simp: fine_def intro: moves_trans)

lemma armed_more: "sl_hooks w' = sl_hooks w \<Longrightarrow> net.more w' = net.more w \<Longrightarrow> armed w' = armed w"
  by (cases w; cases w') (simp add: armed_def)

lemma started_more: "net.more w' = net.more w \<Longrightarrow> started w' = started w"
  by (cases w; cases w') simp

lemma fine_keeps: "keeps w w' \<Longrightarrow> (net_inv w \<Longrightarrow> net_inv w') \<Longrightarrow> fine w w'"
  using armed_more [of w' w] started_more [of w' w] by (auto simp: fine_def keeps_def)

lemma fine_calm: "keeps w w' \<Longrightarrow> calm w w' \<Longrightarrow> fine w w'"
  by (rule fine_keeps) (auto intro: net_inv_calm)

lemma fine_loop [fine_intros]:
  "\<not> is_net c \<Longrightarrow> fine w (fst (call_soon c w))"
  "fine w (fst (complete_future f r w))"
  "\<not> is_net c \<Longrightarrow> fine w (add_done_callback f c w)"
  "\<not> is_net c \<Longrightarrow> pf_ok t \<Longrightarrow> fine w (fst (call_at t c w))"
  "\<not> is_net c \<Longrightarrow> fine w (fst (call_later d c w))"
  "fine w (fst (create_future w))"
  "\<not> is_net (snd h) \<Longrightarrow> fine w (cancel_handle h w)"
  "fine w (stop w)"
  by (auto intro!: fine_calm inv_intros keeps_intros)

lemma fine_net [fine_intros]:
  "fine w (fst (bind_ep a r l p w))" "fine w (set_partition gs w)" "fine w (heal w)"
  "fine w (fst (recv a w))" "fine w (fst (recv_wake a err w))"
  by (auto intro!: fine_keeps keeps_intros net_inv_bind net_inv_calm [OF _ calm_heap(1)]
      net_inv_calm [OF _ calm_heap(2)] net_inv_calm [OF _ calm_recv] net_inv_calm [OF _ calm_recv_wake])

lemma fine_send [fine_intros]:
  "map_of (endpoints w) src = Some ep \<Longrightarrow> fine w (fst (send ep dst m w))"
  by (auto intro!: fine_keeps keeps_intros net_inv_send)

lemma fine_world [fine_intros]:
  "fine w (w\<lparr>heap := objs\<rparr>)" "fine w (w\<lparr>user_rng := r\<rparr>)" "fine w (w\<lparr>started := started w @ fs\<rparr>)"
  "fine w (w\<lparr>tasks := ts\<rparr>)" "fine w (w\<lparr>run_until_active := b\<rparr>)" "fine w (w\<lparr>gather_left := g\<rparr>)"
  "fine w (w\<lparr>sl_hooks := sl_hooks w @ ks\<rparr>)"
  "fine w (w\<lparr>sl_hooks := filter (\<lambda>h. \<not> is_until f h) (sl_hooks w)\<rparr>)"
  "fine w (w\<lparr>current := c\<rparr>)" "fine w (w\<lparr>timeouts := tms\<rparr>)"
proof -
  have "fine w w'" if "moves w w'" "calm w w'" "armed w \<Longrightarrow> armed w'" "\<exists>fs. started w' = started w @ fs" for w w' :: "('a, 'b, 'c) world"
    using that net_inv_calm by (auto simp: fine_def)
  then show "fine w (w\<lparr>heap := objs\<rparr>)" "fine w (w\<lparr>user_rng := r\<rparr>)" "fine w (w\<lparr>started := started w @ fs\<rparr>)"
    "fine w (w\<lparr>tasks := ts\<rparr>)" "fine w (w\<lparr>run_until_active := b\<rparr>)" "fine w (w\<lparr>gather_left := g\<rparr>)"
    "fine w (w\<lparr>sl_hooks := sl_hooks w @ ks\<rparr>)"
    "fine w (w\<lparr>sl_hooks := filter (\<lambda>h. \<not> is_until f h) (sl_hooks w)\<rparr>)"
    "fine w (w\<lparr>current := c\<rparr>)" "fine w (w\<lparr>timeouts := tms\<rparr>)"
    by (simp_all add: moves_step calm_unfold armed_def)
qed

lemma fine_upd_task [fine_intros]: "fine w (upd_task f g w)"
  unfolding upd_task_def by (rule fine_world)

lemma fine_record [fine_intros]: "fine w (world_record v w)"
  unfolding world_record_def time_def
  by (rule fine_keeps [OF keeps_record net_inv_record]) simp_all

lemma fine_always [fine_intros]: "fine w (always name p w)"
proof -
  have "calm w (always name p w)" "moves w (always name p w)"
    by (simp_all add: always_def Let_def calm_unfold moves_step)
  moreover have "armed w \<Longrightarrow> armed (always name p w)"
    by (auto simp: always_def armed_def Let_def)
  moreover have "started (always name p w) = started w" by (simp add: always_def Let_def)
  ultimately show ?thesis using net_inv_calm by (auto simp: fine_def)
qed

lemma fine_until_check [fine_intros]: "fine w (fst (until_check f p t w))"
  by (auto simp: until_check_def fine_intros split: presult.splits)

lemma fine_run_until_end [fine_intros]: "fine w (run_until_end f timer w)"
proof -
  let ?w1 = "w\<lparr>sl_hooks := filter (\<lambda>h. \<not> is_until f h) (sl_hooks w)\<rparr>"
  have 1: "fine w ?w1" by (rule fine_world)
  have "fine w (case timer of None \<Rightarrow> ?w1 | Some t \<Rightarrow> cancel_handle (t, Nop) ?w1)"
    using 1 fine_trans [OF 1 fine_loop(7)] by (simp split: option.splits)
  then show ?thesis unfolding run_until_end_def Let_def by (rule fine_trans) (rule fine_world)
qed

lemma fine_run_until [fine_intros]:
  assumes "\<forall>t. deadline = Some t \<longrightarrow> pf_ok t"
  shows "fine w (fst (run_until p deadline w))"
proof (cases "run_until_active w \<or> (deadline \<noteq> None \<and> \<not> isfinite (the deadline))")
  case False
  let ?w0 = "w\<lparr>run_until_active := True\<rparr>"
  obtain w1 f where c: "create_future ?w0 = (w1, f)" by fastforce
  let ?at = "map_option (py_add (time w1)) deadline"
  let ?w2 = "w1\<lparr>sl_hooks := sl_hooks w1 @ [UntilCheck f p ?at]\<rparr>"
  let ?timer = "case ?at of None \<Rightarrow> None | Some t \<Rightarrow> Some (next_handle ?w2)"
  let ?w3 = "case ?at of None \<Rightarrow> ?w2 | Some t \<Rightarrow> fst (call_at t Nop ?w2)"
  obtain w4 r where u: "until_check f p ?at ?w3 = (w4, r)" by fastforce
  have "fine ?w0 w1" using fine_loop(6) [of ?w0] c by simp
  then have 1: "fine w w1" using fine_trans fine_world(5) by blast
  have 2: "fine w ?w2" by (rule fine_trans [OF 1 fine_world(7)])
  have 3: "fine w ?w3"
    using 2 fine_trans [OF 2 fine_loop(4)] by (cases deadline) simp_all
  have 4: "fine w w4" using fine_trans [OF 3] fine_until_check [of ?w3 f p ?at] u by simp
  have e: "fst (run_until p deadline w) = w4 \<or> fst (run_until p deadline w) = run_until_end f ?timer w4"
    using False c u by (auto simp: run_until_def Let_def split: hook_result.splits)
  show ?thesis using e 4 fine_trans [OF 4 fine_run_until_end] by auto
qed (auto simp: run_until_def)

lemma fine_sleep [fine_intros]: "fine w (fst (sleep d w))"
proof -
  obtain w1 f where c: "create_future w = (w1, f)" by fastforce
  have 1: "fine w w1" using fine_loop(6) [of w] c by simp
  obtain w2 e where l: "call_later d (SetResultUnlessCancelled f) w1 = (w2, e)" by fastforce
  have "fine w1 w2" using fine_loop(5) [of "SetResultUnlessCancelled f" w1 d] l by simp
  with 1 have 2: "fine w w2" by (rule fine_trans)
  have "fst (sleep d w) = w \<or> fst (sleep d w) = w2"
    using c l by (cases e) (auto simp: sleep_def Let_def)
  with 2 show ?thesis by auto
qed

lemma norm_ok [simp]: "pf_ok (norm x)"
  by (cases x) (simp_all add: norm_def)

lemma fine_commit_faults [fine_intros]:
  assumes "isfinite seconds" "\<not> py_lt seconds (Fin 0)" "pf_ok seconds"
    and "validate_faults (bound_addresses w) seconds fs = None"
  shows "fine w (fst (commit_faults fs seconds w))"
proof -
  obtain s where s: "seconds = Fin s" "0 \<le> s" using assms(1,2) by (auto simp: isfinite_iff)
  show ?thesis
    using assms(3,4) s commit_faults_spec(1) [of w s fs] by (intro fine_keeps keeps_intros) simp_all
qed

lemma fine_run_for [fine_intros]: "pf_ok seconds \<Longrightarrow> fine w (fst (run_for seconds fs w))"
proof (cases "\<not> isfinite seconds \<or> py_lt seconds (Fin 0) \<or> validate_faults (bound_addresses w) seconds fs \<noteq> None")
  case False
  assume ok: "pf_ok seconds"
  obtain w1 e where c: "commit_faults fs seconds w = (w1, e)" by fastforce
  have 1: "fine w w1" using fine_commit_faults [of seconds w fs] False ok c by simp
  show ?thesis using False c 1 fine_trans [OF 1 fine_sleep] by (cases e) (simp_all add: run_for_def)
qed (auto simp: run_for_def)

lemma fine_spawn [fine_intros]: "fine w (fst (spawn c w))"
proof -
  obtain w1 f where c: "create_future w = (w1, f)" by fastforce
  obtain w2 e n where t: "create_task (User (TaskStep f None)) w1 = (w2, e, n)" by (metis prod_cases3)
  have 1: "fine w w1" using fine_loop(6) [of w] c by simp
  have "calm w1 (fst (create_task (User (TaskStep f None)) w1))"
    by (simp add: create_task_def call_soon_def calm_unfold)
  then have "fine w1 w2" using keeps_create_task [of w1 "User (TaskStep f None)"] t fine_calm by auto
  with 1 have "fine w w2" by (rule fine_trans)
  then show ?thesis using c t fine_trans [OF _ fine_world(4)] by (simp add: spawn_def)
qed

lemma fine_start [fine_intros]: "fine w (start cs w)"
proof (induction cs arbitrary: w)
  case (Cons c cs)
  obtain w1 f where s: "spawn c w = (w1, f)" by fastforce
  have "fine w w1" using fine_spawn [of w c] s by simp
  then have "fine w (w1\<lparr>started := started w1 @ [f]\<rparr>)" using fine_trans fine_world(3) by blast
  then show ?case using s fine_trans [OF _ Cons.IH] by simp
qed simp

lemma fine_cancel_fut [fine_intros]: "fine w (fst (cancel_fut n f w))"
proof (induction n arbitrary: f w)
  case (Suc n)
  have 1: "fine w (fst (cancel_fut n g (upd_task f h w)))" for g h
    by (rule fine_trans [OF fine_upd_task Suc.IH])
  have 2: "fine w (upd_task f h' (fst (cancel_fut n g (upd_task f h w))))" for g h h'
    by (rule fine_trans [OF 1 fine_upd_task])
  have 3: "fine w (upd_task f h' (upd_task f h w))" for h h'
    by (rule fine_trans [OF fine_upd_task fine_upd_task])
  show ?case using 1 2 3
    by (auto simp: fine_intros Let_def case_prod_unfold split: option.splits)
qed simp

lemma fine_cancel_task [fine_intros]: "fine w (cancel_task f w)"
  unfolding cancel_task_def by (rule fine_cancel_fut)

lemma fine_cancel_user [fine_intros]: "fine w (cancel_user n w)"
proof -
  have "fine w (fold cancel_handle hs w)" if "\<forall>h\<in>set hs. \<not> is_net (snd h)" for hs
    using that
  proof (induction hs arbitrary: w)
    case (Cons h hs)
    then have "fine w (cancel_handle h w)" "fine (cancel_handle h w) (fold cancel_handle hs (cancel_handle h w))"
      by (simp_all add: fine_intros)
    then show ?case using fine_trans by auto
  qed simp
  moreover have "is_user c \<Longrightarrow> \<not> is_net c" for c :: "('a, ('a, 'b, 'c) ucb) callback" by (cases c) auto
  ultimately show ?thesis
    unfolding cancel_user_def set_filter [symmetric] by (auto simp del: filter_append fold_append)
qed

lemma reply_fst [simp]:
  "fst (unit_reply r) = fst r" "fst (handle_reply n r) = fst r" "fst (recv_reply a q) = fst q"
  by (auto simp: unit_reply_def handle_reply_def recv_reply_def split: prod.splits outcome.splits recv_result.splits)

lemma fine_enter_timeout [fine_intros]:
  assumes "pf_ok when"
  shows "fine w (fst (enter_timeout when w))"
proof (cases "current w")
  case (Some f)
  let ?i = "next_handle w"
  let ?w1 = "w\<lparr>timeouts := (timeouts w)(?i \<mapsto> Timeout f (cancels f w) False)\<rparr>"
  let ?r = "if py_le when (time ?w1) then call_soon (User (Expire ?i)) ?w1 else call_at when (User (Expire ?i)) ?w1"
  have "fine w (fst (call_soon (User (Expire ?i)) ?w1))" "fine w (fst (call_at when (User (Expire ?i)) ?w1))"
    by (rule fine_trans [OF fine_world(10) fine_loop(1)] fine_trans [OF fine_world(10) fine_loop(4)];
      simp add: assms)+
  then have "fine w (fst ?r)" by simp
  moreover obtain w2 e where r: "?r = (w2, e)" by fastforce
  moreover have "fst (enter_timeout when w) = w2"
    using Some by (simp only: enter_timeout_def Let_def option.case r) (cases e; simp)
  ultimately show ?thesis by simp
qed (simp add: enter_timeout_def)

lemma fine_expire [fine_intros]: "fine w (expire i w)"
  using fine_trans [OF fine_cancel_task fine_world(10)]
  by (auto simp: expire_def Let_def split: option.splits timeout.splits)

lemma fine_exit_timeout [fine_intros]: "fine w (fst (exit_timeout i err w))"
  using fine_cancel_user fine_trans [OF fine_cancel_user fine_upd_task]
  by (auto simp: exit_timeout_def Let_def split: option.splits timeout.splits bool.splits)

lemma fine_do_op [fine_intros]: "fine w (fst (do_op op w))"
  by (cases op) (auto simp: fine_intros case_prod_unfold Let_def split: option.splits intro!: fine_run_until)

section \<open>Callbacks and hooks\<close>

lemma fine_exec [fine_intros]: "fine w (fst (exec c w))"
proof (induction c arbitrary: w)
  case (Heap f k)
  have "fine w (w\<lparr>heap := f (heap w)\<rparr>)" by (rule fine_world)
  then show ?case using fine_trans [OF _ Heap] by simp
next
  case (Op op k)
  have 1: "fine w (fst (do_op op w))" by (rule fine_do_op)
  obtain w' r where r: "do_op op w = (w', r)" by fastforce
  show ?case using 1 r fine_trans [OF _ Op(2)] by (cases r) auto
qed simp_all

lemma fine_wake [fine_intros]: "fine w (fst (wake fr err w))"
  by (cases fr) (simp_all add: fine_intros)

lemma fine_resume [fine_intros]: "fine w (fst (resume k err w))"
proof (cases "(k, err, w)" rule: resume.cases)
  case (3 fr k err w)
  obtain w' r where r: "wake fr err w = (w', r)" by fastforce
  have "fine w w'" using fine_wake [of w fr err] r by simp
  with r 3 show ?thesis using fine_trans [OF _ fine_exec] by (cases r) auto
qed (auto simp: fine_intros)

lemma fine_task_end [fine_intros]: "fine w (fst r) \<Longrightarrow> fine w (fst (task_end f r))"
proof -
  assume r: "fine w (fst r)"
  have upd: "fine w (upd_task f g (fst r))" for g by (rule fine_trans [OF r fine_upd_task])
  have fin: "fine w (finish_task f s (fst r))" for s
    unfolding finish_task_def by (rule fine_trans [OF upd fine_loop(2)])
  have yield: "fine w (fst (call_soon (User u) (upd_task f g (fst r))))" for u g
    by (rule fine_trans [OF upd fine_loop(1)]) simp
  have wait: "fine w (task_wait f fr g k (fst r))" for fr g k
  proof -
    let ?w1 = "add_done_callback g (User (TaskWakeup f g))
      (upd_task f (\<lambda>t. t\<lparr>t_cont := Resume fr k, t_waiter := Some g\<rparr>) (fst r))"
    have 1: "fine w ?w1" by (rule fine_trans [OF upd fine_loop(3)]) simp
    have 2: "fine w (fst (cancel_fut n g ?w1))" for n by (rule fine_trans [OF 1 fine_cancel_fut])
    have 3: "fine w (upd_task f h (fst (cancel_fut n g ?w1)))" for n h
      by (rule fine_trans [OF 2 fine_upd_task])
    show ?thesis using 1 2 3 by (simp add: task_wait_def Let_def case_prod_unfold del: cancel_fut.simps)
  qed
  show ?thesis
    using r fin yield wait
    by (cases r; cases "snd r") (auto simp: task_end_def split: option.splits)
qed

lemma fine_task_step [fine_intros]: "fine w (fst (task_step f err w))"
proof (cases "tasks w f")
  case (Some t)
  let ?w = "(upd_task f (\<lambda>t. t\<lparr>t_waiter := None, t_must_cancel := False\<rparr>) w)\<lparr>current := Some f\<rparr>"
  have "fine w ?w" by (rule fine_trans [OF fine_upd_task fine_world(9)])
  then have "fine w (fst (task_end f (resume (t_cont t) e ?w)))" for e
    using fine_task_end fine_trans [OF _ fine_resume] by blast
  then have "fine w ((fst (task_end f (resume (t_cont t) e ?w)))\<lparr>current := None\<rparr>)" for e
    using fine_trans [OF _ fine_world(9)] by blast
  with Some show ?thesis by (auto simp: task_step_def Let_def case_prod_unfold)
qed (simp add: task_step_def)

lemma fine_gather_done [fine_intros]: "fine w (gather_done outer w)"
  unfolding gather_done_def Let_def by (auto intro: fine_world fine_trans [OF fine_world(6) fine_loop(2)])

lemma fine_gather [fine_intros]: "fine w (fst (gather fs w))"
proof -
  have "fine w (fold (\<lambda>f. add_done_callback f (User (GatherDone outer))) fs w)" for outer w
  proof (induction fs arbitrary: w)
    case (Cons f fs)
    have "fine w (add_done_callback f (User (GatherDone outer)) w)" by (rule fine_loop) simp
    from fine_trans [OF this Cons.IH] show ?case by simp
  qed simp
  note fold = this
  obtain w1 outer where c: "create_future w = (w1, outer)" by fastforce
  let ?w2 = "w1\<lparr>gather_left := (gather_left w1)(outer := length fs)\<rparr>"
  have "fine w w1" using fine_loop(6) [of w] c by simp
  then have "fine w ?w2" using fine_world(6) by (rule fine_trans)
  then have "fine w (fold (\<lambda>f. add_done_callback f (User (GatherDone outer))) fs ?w2)"
    using fold by (rule fine_trans)
  then show ?thesis using c by (simp add: gather_def)
qed

lemma fine_run_cb: "\<not> is_net c \<Longrightarrow> fine w (fst (run_cb c w))"
proof (cases "(c, w)" rule: run_cb.cases)
  case (5 code w)
  obtain w' r where "exec code w = (w', r)" by fastforce
  with 5 fine_exec [of w code] show ?thesis by (cases r) auto
qed (simp_all add: fine_intros)

lemma run_cb_net: "is_net c \<Longrightarrow> fst (run_cb c w) = fst (run_net c w)"
  by (cases "snd (run_net c w)"; cases c) (auto simp: case_prod_unfold split: outcome.splits)

lemma moves_run_cb: "moves w (fst (run_cb c w))"
proof (cases "is_net c")
  case True
  then show ?thesis using keeps_run_net [of w c] by (simp add: run_cb_net keeps_def)
next
  case False
  then show ?thesis using fine_run_cb [of c w] by (simp add: fine_def)
qed

lemma fine_run_hook: "fine w (fst (run_hook k w))"
  by (cases k) (simp_all add: fine_intros check_invariants_def)


lemma run_hook_hooks: "sl_hooks (fst (run_hook k w)) = sl_hooks w"
  by (cases k) (auto simp: check_invariants_def until_check_def frame_simps split: presult.splits)

section \<open>The world is a client of the loop\<close>

text \<open>
  The invariant of a world in a run whose \<open>"net"\<close> stream started at \<open>r0\<close>: that of the network, and
  the stream stands exactly one draw further per message sent. The error that reports a spent step
  allowance is never the one that reports an early stop.
\<close>

definition stopped_early :: exn_kind where
  "stopped_early = PyError ''Event loop stopped before Future completed.''"

definition world_ok :: "rng \<Rightarrow> ('m, 'v, 's) world \<Rightarrow> bool" where
  "world_ok r0 w = (net_inv w \<and> net_rng w = advance (2 * next_mid w) r0 \<and>
     sl_step_error w \<noteq> Some stopped_early)"

lemma world_ok_moves:
  assumes "world_ok r0 w" and "moves w w'" and "net_inv w'"
  shows "world_ok r0 w'"
  using assms by (auto simp: world_ok_def moves_def distrib_left add.commute)

lemma world_ok_calm:
  assumes "world_ok r0 w" and "calm w w'" and "loop.more w' = loop.more w"
    and "sl_step_error w' = sl_step_error w"
  shows "world_ok r0 w'"
proof -
  have "net_rng w' = net_rng w" "next_mid w' = next_mid w"
    using assms(3) by (cases w; cases w'; simp)+
  with assms(1,4) net_inv_calm [OF _ assms(2)] show ?thesis by (simp add: world_ok_def)
qed

lemma step_error_frame:
  "sl_step_error (fst (count_step w)) = sl_step_error w"
  "sl_step_error (fst (autojump w)) = sl_step_error w"
  "sl_step_error (fire_due_timers w) = sl_step_error w"
  "sl_step_error (run_settle s w) = sl_step_error w"
  "sl_step_error (check_watch w) = sl_step_error w"
proof -
  show s: "sl_step_error (run_settle s w) = sl_step_error w" for s and w :: "('a, 'b, 'c) loop_scheme"
    by (cases "(s, w)" rule: run_settle.cases) simp_all
  show "sl_step_error (fst (count_step w)) = sl_step_error w" "sl_step_error (fst (autojump w)) = sl_step_error w"
    "sl_step_error (fire_due_timers w) = sl_step_error w"
    by (simp_all add: count_step_def autojump_def purge_cancelled_timers_def fire_due_timers_def Let_def
        case_prod_unfold split: option.splits nat.splits)
  show "sl_step_error (check_watch w) = sl_step_error w"
    by (simp add: check_watch_def stop_def Let_def s split: option.splits)
qed

lemma calm_pop: "\<not> is_net (snd h) \<Longrightarrow> ready w = h # hs \<Longrightarrow> calm w (w\<lparr>ready := hs\<rparr>)"
  by (simp add: calm_unfold)

lemma net_inv_run_cb:
  assumes inv: "net_inv w" and r: "ready w = h # hs"
  shows "net_inv (fst (run_cb (snd h) (w\<lparr>ready := hs\<rparr>)))"
proof (cases "is_net (snd h)")
  case True
  then show ?thesis using net_inv_run_net [OF inv r True] by (simp add: run_cb_net)
next
  case False
  have "net_inv (w\<lparr>ready := hs\<rparr>)" by (rule net_inv_calm [OF inv calm_pop [OF False r]])
  then show ?thesis using fine_run_cb [OF False, of "w\<lparr>ready := hs\<rparr>"] by (simp add: fine_def)
qed

interpretation wl: loop_client run_cb run_hook "world_ok r0" for r0
proof
  fix st :: "('a, 'b, 'c) world" and h hs c k
  assume ok: "world_ok r0 st"
  show "loop_ok st" using ok by (simp add: world_ok_def net_inv_def base_ok_def)
  show "world_ok r0 (fst (count_step st))"
    by (rule world_ok_calm [OF ok calm_count_step]) (simp_all add: frame_simps step_error_frame)
  show "world_ok r0 (fst (autojump st))"
    by (rule world_ok_calm [OF ok calm_autojump]) (simp_all add: frame_simps step_error_frame)
  show "world_ok r0 (fire_due_timers st)"
    by (rule world_ok_calm [OF ok calm_fire_due]) (simp_all add: frame_simps step_error_frame)
  show "world_ok r0 (check_watch st)"
    by (rule world_ok_calm [OF ok calm_check_watch]) (simp_all add: frame_simps step_error_frame)
  show "world_ok r0 (fst (run_hook k st))"
    using fine_run_hook [of st k] ok by (intro world_ok_moves [OF ok]) (simp_all add: fine_def world_ok_def)
  show "world_ok r0 (st\<lparr>stopping := b, sl_watch := x, sl_stop_in := y, sl_settle := z\<rparr>)" for b x y z
    by (rule world_ok_calm [OF ok]) (simp_all add: calm_unfold)
  show "world_ok r0 (run_settle s st)" for s
    by (rule world_ok_calm [OF ok]; cases "(s, st)" rule: run_settle.cases) (simp_all add: calm_unfold)
  assume r: "ready st = h # hs"
  show "world_ok r0 (st\<lparr>ready := hs\<rparr>)" if "h \<in> cancelled st"
    using ok that r by (intro world_ok_calm [OF ok calm_skip]) (auto simp: world_ok_def net_inv_def)
  have "world_ok r0 (fst (run_cb (snd h) (st\<lparr>ready := hs\<rparr>)))"
  proof -
    have inv: "net_inv (fst (run_cb (snd h) (st\<lparr>ready := hs\<rparr>)))"
      using ok r by (intro net_inv_run_cb) (simp_all add: world_ok_def)
    have "net_rng (st\<lparr>ready := hs\<rparr>) = advance (2 * next_mid (st\<lparr>ready := hs\<rparr>)) r0"
      "sl_step_error st \<noteq> Some stopped_early"
      using ok by (simp_all add: world_ok_def)
    then show ?thesis
      using inv moves_run_cb [of "st\<lparr>ready := hs\<rparr>" "snd h"]
      by (auto simp: world_ok_def moves_def distrib_left add.commute)
  qed
  then show "h \<notin> cancelled st \<Longrightarrow> world_ok r0 (fst (run_cb (snd h) (st\<lparr>ready := hs\<rparr>)))" .
next
  fix st :: "('a, 'b, 'c) world" and c k
  show "sl_time (fst (run_cb c st)) = sl_time st" "sl_steps_left (fst (run_cb c st)) = sl_steps_left st"
    "sl_stop_in (fst (run_cb c st)) = sl_stop_in st" "\<exists>hs. ready (fst (run_cb c st)) = ready st @ hs"
    using moves_run_cb [of st c] by (simp_all add: moves_def)
  show "sl_time (fst (run_hook k st)) = sl_time st" "sl_steps_left (fst (run_hook k st)) = sl_steps_left st"
    "sl_stop_in (fst (run_hook k st)) = sl_stop_in st"
    using fine_run_hook [of st k] by (simp_all add: fine_def moves_def)
  show "sl_hooks (fst (run_hook k st)) = sl_hooks st" by (rule run_hook_hooks)
qed

subsection \<open>Since an earlier world of the run\<close>

text \<open>
  What is settled stays settled: since an earlier world \<open>w0\<close> of the run, futures that were done have
  kept their results, and the list of started nodes has only grown.
\<close>

definition since :: "('m, 'v, 's) world \<Rightarrow> ('m, 'v, 's) world \<Rightarrow> bool" where
  "since w0 w = (futs_kept w0 w \<and> (\<exists>fs. started w = started w0 @ fs))"

definition world_since :: "rng \<Rightarrow> ('m, 'v, 's) world \<Rightarrow> ('m, 'v, 's) world \<Rightarrow> bool" where
  "world_since r0 w0 w = (world_ok r0 w \<and> since w0 w)"

lemma since_refl [simp]: "since w w"
  by (simp add: since_def)

lemma since_trans: "since w0 w \<Longrightarrow> since w w' \<Longrightarrow> since w0 w'"
  by (auto simp: since_def intro: futs_kept_trans)

lemma since_same: "futs w' = futs w \<Longrightarrow> next_fut w' = next_fut w \<Longrightarrow> started w' = started w \<Longrightarrow> since w w'"
  by (simp add: since_def)

lemma since_fine: "fine w w' \<Longrightarrow> since w w'"
  by (simp add: since_def fine_def moves_def)

lemma since_run_cb: "since w (fst (run_cb c w))"
proof (cases "is_net c")
  case True
  then show ?thesis
    using keeps_run_net [of w c] started_more [of "fst (run_net c w)" w]
    by (auto simp: run_cb_net keeps_def moves_def since_def)
qed (simp add: since_fine fine_run_cb)

lemma started_loop: "loop.more w' = loop.more w \<Longrightarrow> started w' = started w"
  by (cases w; cases w') simp

lemma futs_run_settle: "futs (run_settle s w) = futs w" "next_fut (run_settle s w) = next_fut w"
  by (cases "(s, w)" rule: run_settle.cases; simp)+

lemma since_frame:
  "since w (fst (count_step w))" "since w (fst (autojump w))" "since w (fire_due_timers w)"
  "since w (run_settle s w)" "since w (check_watch w)"
proof -
  show "since w (fst (count_step w))" "since w (fst (autojump w))" "since w (fire_due_timers w)"
    by (rule since_same, auto simp: count_step_def autojump_def purge_cancelled_timers_def fire_due_timers_def
        Let_def case_prod_unfold split: option.splits nat.splits)+
  show "since w (run_settle s w)" for s
    by (rule since_same; cases "(s, w)" rule: run_settle.cases; simp)
  have "futs (check_watch w) = futs w" "next_fut (check_watch w) = next_fut w"
    by (simp_all add: check_watch_def stop_def Let_def futs_run_settle split: option.splits)
  then show "since w (check_watch w)"
    using started_loop [OF check_watch_frame(7)] by (intro since_same)
qed

lemma world_since_refl: "world_ok r0 w \<Longrightarrow> world_since r0 w w"
  by (simp add: world_since_def)

lemma world_since_step: "world_since r0 w0 w \<Longrightarrow> world_ok r0 w' \<Longrightarrow> since w w' \<Longrightarrow> world_since r0 w0 w'"
  by (auto simp: world_since_def intro: since_trans)

interpretation ws: loop_client run_cb run_hook "world_since r0 w0" for r0 w0
proof
  fix st :: "('a, 'b, 'c) world" and h hs c k
  assume s: "world_since r0 w0 st"
  then have ok: "world_ok r0 st" by (simp add: world_since_def)
  note step = world_since_step [OF s]
  show "loop_ok st" using ok by (rule wl.inv_loop)
  show "world_since r0 w0 (fst (count_step st))" "world_since r0 w0 (fst (autojump st))"
    "world_since r0 w0 (fire_due_timers st)" "world_since r0 w0 (check_watch st)"
    "world_since r0 w0 (run_settle x st)" for x
    using ok by (auto intro!: step since_frame wl.inv_count wl.inv_jump wl.inv_fire wl.inv_watch
        wl.inv_settle)
  show "world_since r0 w0 (fst (run_hook k st))" if "k \<in> set (sl_hooks st)"
    using ok that by (auto intro!: step since_fine fine_run_hook wl.hk_inv)
  show "world_since r0 w0 (st\<lparr>stopping := b, sl_watch := x, sl_stop_in := y, sl_settle := z\<rparr>)" for b x y z
    using ok by (intro step wl.inv_ctl) (simp_all add: since_same)
  assume r: "ready st = h # hs"
  show "world_since r0 w0 (st\<lparr>ready := hs\<rparr>)" if "h \<in> cancelled st"
    using wl.inv_skip [OF ok r that] by (intro step) (simp_all add: since_same)
  have pop: "since st (st\<lparr>ready := hs\<rparr>)" by (simp add: since_same)
  show "world_since r0 w0 (fst (run_cb (snd h) (st\<lparr>ready := hs\<rparr>)))" if "h \<notin> cancelled st"
    by (rule step [OF wl.cb_inv [OF ok r that] since_trans [OF pop since_run_cb]])
qed (rule wl.cb_time wl.cb_steps wl.cb_stop_in wl.cb_ready wl.hk_time wl.hk_steps wl.hk_stop_in wl.hk_hooks)+

end
