(* ===== verification/Drive.thy ===== *)
theory Drive
  imports World_Facts
begin

text \<open>
  Driving one run (\<open>World._drive\<close> and its helpers in \<open>src/seedloop/_world.py\<close>): the scenario task
  under the run's step allowance, settling after a failure, reporting node failures, and the
  bounded teardown that cancels what is still running. An exception variable holds the exception
  with the notes added to it so far. A drive that never comes back is \<open>None\<close>; one that reaches user
  code that never comes back ends as \<open>Diverged\<close>.
\<close>

section \<open>Notes and secondary failures\<close>

definition note_on :: "exn_note \<Rightarrow> exn \<Rightarrow> exn" where
  "note_on n e = (if n \<in> set (enotes e) then e else add_note n e)"

definition describe :: "exn \<Rightarrow> exn_note" where
  "describe e = Described (ekind e)"

text \<open>
  \<open>_secondary\<close>: an \<open>Exception\<close> from the body becomes a note on the failure already in flight; without
  one, and for an interrupt, it propagates.
\<close>

definition secondary ::
    "exn option \<Rightarrow> ('m, 'v, 's) world \<times> outcome \<Rightarrow> ('m, 'v, 's) world \<times> exn option \<times> outcome" where
  "secondary failure r = (case r of
     (w, Raised e) \<Rightarrow>
       if \<not> is_exception e then (w, failure, Raised e)
       else (case failure of None \<Rightarrow> (w, None, Raised e)
             | Some f \<Rightarrow> (w, Some (note_on (describe e) f), Done))
   | (w, e) \<Rightarrow> (w, failure, e))"

section \<open>Step allowances\<close>

definition teardown_steps :: nat where
  "teardown_steps = 100000"

definition teardown_steps_per_task :: nat where
  "teardown_steps_per_task = 100"

definition teardown_rounds :: nat where
  "teardown_rounds = 100"

definition limit_teardown_steps :: "nat \<Rightarrow> ('m, 'v, 's) world \<Rightarrow> ('m, 'v, 's) world" where
  "limit_teardown_steps n w =
     limit_steps (Some (teardown_steps + teardown_steps_per_task * n)) (Some TeardownError) w"

section \<open>Settling the scenario task\<close>

text \<open>\<open>while not main_task.done(): loop.run_until_done(main_task)\<close>\<close>

partial_function (option) settle_main ::
    "nat \<Rightarrow> ('m, 'v, 's) world \<Rightarrow> (('m, 'v, 's) world \<times> outcome) option" where
  "settle_main main w =
     (if fut_done main w then Some (w, Done)
      else case run_until_done run_cb run_hook main None w of
        None \<Rightarrow> None
      | Some (w1, Done) \<Rightarrow> settle_main main w1
      | Some (w1, e) \<Rightarrow> Some (w1, e))"

definition unwind_note :: "nat \<Rightarrow> ('m, 'v, 's) world \<Rightarrow> exn \<Rightarrow> exn" where
  "unwind_note main w failure = (case futs w main of
     Failed e \<Rightarrow> if ekind e \<noteq> ekind failure then note_on (describe e) failure else failure
   | _ \<Rightarrow> failure)"

text \<open>The inner \<open>finally\<close>, given the failure of the drive, if any.\<close>

definition settle_drive ::
    "nat \<Rightarrow> exn option \<Rightarrow> ('m, 'v, 's) world \<Rightarrow>
     (('m, 'v, 's) world \<times> exn option \<times> outcome) option" where
  "settle_drive main failure w =
     (let w1 = limit_teardown_steps 0 w;
          w2 = (if failure \<noteq> None then w1\<lparr>sl_hooks := []\<rparr> else w1)
      in if \<not> fut_done main w2 then
           map_option (\<lambda>r. case secondary failure r of
               (w4, Some f, Done) \<Rightarrow> (w4, Some (unwind_note main w4 f), Done)
             | r' \<Rightarrow> r')
             (settle_main main (cancel_task main w2))
         else if failure \<noteq> None then
           map_option (secondary failure) (run_one_more_step run_cb run_hook main w2)
         else Some (w2, failure, Done))"

section \<open>Teardown\<close>

definition task_seq :: "nat \<Rightarrow> ('m, 'v, 's) world \<Rightarrow> nat" where
  "task_seq f w = (case tasks w f of None \<Rightarrow> 0 | Some t \<Rightarrow> t_seq t)"

text \<open>The tasks not done, in creation order.\<close>

definition pending_tasks :: "('m, 'v, 's) world \<Rightarrow> nat list" where
  "pending_tasks w = sort_key (\<lambda>f. task_seq f w)
     (filter (\<lambda>f. tasks w f \<noteq> None \<and> \<not> fut_done f w) [0..<next_fut w])"

fun is_stop_loop :: "('m, ('m, 'v, 's) ucb) callback \<Rightarrow> bool" where
  "is_stop_loop (User StopLoop) = True"
| "is_stop_loop _ = False"

text \<open>\<open>run_until_complete\<close>, inherited, on a future: a done callback stops the loop.\<close>

definition run_until_complete ::
    "nat \<Rightarrow> ('m, 'v, 's) world \<Rightarrow> (('m, 'v, 's) world \<times> outcome) option" where
  "run_until_complete f w =
     (if closed w then Some (w, Raised (exn (PyError ''RuntimeError'')))
      else map_option (\<lambda>(w1, e).
          let w2 = w1\<lparr>fut_cbs := (fut_cbs w1)(f := filter (\<lambda>c. \<not> is_stop_loop c) (fut_cbs w1 f))\<rparr>
          in case e of
               Done \<Rightarrow> if \<not> fut_done f w2
                 then (w2, Raised (exn (stopped_early)))
                 else (w2, case fut_reply f w2 of None \<Rightarrow> Done | Some x \<Rightarrow> Raised x)
             | _ \<Rightarrow> (w2, e))
        (run_forever run_cb run_hook (add_done_callback f (User StopLoop) w)))"

text \<open>\<open>World._run_until\<close>: a user \<open>loop.stop()\<close> ends one pass, not the teardown.\<close>

partial_function (option) run_until_fut ::
    "nat \<Rightarrow> ('m, 'v, 's) world \<Rightarrow> (('m, 'v, 's) world \<times> outcome) option" where
  "run_until_fut f w =
     (if fut_done f w then Some (w, Done)
      else case run_until_complete f w of
        None \<Rightarrow> None
      | Some (w1, Raised e) \<Rightarrow>
          if fut_done f w1 \<or> ekind e \<noteq> stopped_early
          then Some (w1, Raised e) else run_until_fut f w1
      | Some (w1, Diverged) \<Rightarrow> Some (w1, Diverged)
      | Some (w1, Done) \<Rightarrow> run_until_fut f w1)"

fun cancel_rounds :: "nat \<Rightarrow> ('m, 'v, 's) world \<Rightarrow> (('m, 'v, 's) world \<times> outcome) option" where
  "cancel_rounds 0 w = Some (w, Raised (exn TeardownError))"
| "cancel_rounds (Suc n) w =
     (let pending = pending_tasks w in
      if pending = [] then Some (w, Done)
      else
        let w1 = limit_teardown_steps (length pending) (fold cancel_task pending w);
            (w2, finished) = gather pending w1
        in case run_until_fut finished w2 of
             None \<Rightarrow> None
           | Some (w3, Done) \<Rightarrow> cancel_rounds n w3
           | Some (w3, e) \<Rightarrow> Some (w3, e))"

definition cancel_everything :: "('m, 'v, 's) world \<Rightarrow> (('m, 'v, 's) world \<times> outcome) option" where
  "cancel_everything w = cancel_rounds teardown_rounds w"

text \<open>\<open>loop.close()\<close> as \<open>_close\<close> reaches it: the ready queue is dropped.\<close>

definition close_world :: "('m, 'v, 's) world \<Rightarrow> ('m, 'v, 's) world" where
  "close_world w = (if closed w then w else w\<lparr>closed := True, ready := []\<rparr>)"

text \<open>The outer \<open>finally\<close>: what propagates after the teardown.\<close>

definition teardown ::
    "exn option \<Rightarrow> ('m, 'v, 's) world \<Rightarrow> (('m, 'v, 's) world \<times> outcome) option" where
  "teardown failure w =
     (let w1 = (if failure \<noteq> None then w\<lparr>sl_hooks := []\<rparr> else w);
          w2 = w1\<lparr>tearing_down := True\<rparr>
      in map_option (\<lambda>r. case secondary failure r of
            (w3, f, Done) \<Rightarrow> (close_world w3, case f of None \<Rightarrow> Done | Some e \<Rightarrow> Raised e)
          | (w3, f, Raised e) \<Rightarrow> (close_world w3, Raised (case f of
                Some x \<Rightarrow> if ekind x \<noteq> ekind e then note_on (describe x) e else e
              | None \<Rightarrow> e))
          | (w3, f, Diverged) \<Rightarrow> (w3, Diverged))
        (cancel_everything w2))"

section \<open>The drive\<close>

fun first_node_error :: "nat list \<Rightarrow> ('m, 'v, 's) world \<Rightarrow> exn option" where
  "first_node_error [] w = None"
| "first_node_error (f # fs) w = (case futs w f of
     Failed e \<Rightarrow> Some e | _ \<Rightarrow> first_node_error fs w)"

text \<open>\<open>main_task.result()\<close>, then the started nodes.\<close>

definition run_result :: "nat \<Rightarrow> ('m, 'v, 's) world \<Rightarrow> exn option" where
  "run_result main w = (case futs w main of
     Pending \<Rightarrow> Some (exn (PyError ''InvalidStateError''))
   | Failed e \<Rightarrow> Some e
   | FutCancelled \<Rightarrow> Some cancelled_error
   | Result \<Rightarrow> first_node_error (started w) w)"

text \<open>The outer \<open>except\<close>: the exception that ends the run keeps the failure it replaced as a note.\<close>

definition replace_failure :: "exn option \<Rightarrow> exn \<Rightarrow> exn" where
  "replace_failure failure e = (case failure of
     Some f \<Rightarrow> if ekind f \<noteq> ekind e then note_on (describe f) e else e
   | None \<Rightarrow> e)"

definition drive_end ::
    "nat \<Rightarrow> ('m, 'v, 's) world \<times> exn option \<times> outcome \<Rightarrow>
     (('m, 'v, 's) world \<times> outcome) option" where
  "drive_end main r = (case r of
     (w, failure, Raised e) \<Rightarrow> teardown (Some (replace_failure failure e)) w
   | (w, failure, Diverged) \<Rightarrow> Some (w, Diverged)
   | (w, Some f, Done) \<Rightarrow> teardown (Some f) w
   | (w, None, Done) \<Rightarrow> teardown (run_result main w) w)"

definition drive_main ::
    "nat \<Rightarrow> ('m, 'v, 's) world \<Rightarrow> (('m, 'v, 's) world \<times> outcome) option" where
  "drive_main main w =
     (case run_until_done run_cb run_hook main (Some ClearHooks) w of
        None \<Rightarrow> None
      | Some (w1, Diverged) \<Rightarrow> Some (w1, Diverged)
      | Some (w1, e) \<Rightarrow>
          let failure = (case e of Raised x \<Rightarrow> Some x
                | _ \<Rightarrow> if fut_done main w1 then None else Some (exn (PyError ''RuntimeError'')))
          in (case settle_drive main failure w1 of
                None \<Rightarrow> None
              | Some r \<Rightarrow> drive_end main r))"

text \<open>
  \<open>_drive\<close>: the first argument says whether an event loop is already running; \<open>None\<close> as the
  scenario is a call that returned no coroutine.
\<close>

definition drive ::
    "bool \<Rightarrow> ('m, 'v, 's) code option \<Rightarrow> ('m, 'v, 's) world \<Rightarrow>
     (('m, 'v, 's) world \<times> outcome) option" where
  "drive running scenario w =
     (if running then Some (w, Raised (exn (UsageError ''check/replay cannot run inside a running event loop'')))
      else case scenario of
        None \<Rightarrow> Some (w, Raised (exn (UsageError ''a scenario must be an async function'')))
      | Some c \<Rightarrow>
          let (w1, main) = spawn c (limit_steps (max_steps w) (Some LivelockError) w)
          in drive_main main w1)"

end
