(* ===== verification/Drive_Facts.thy ===== *)
theory Drive_Facts
  imports Drive
begin

text \<open>
  A drive with a step allowance comes back, closes the loop, and keeps the invariant of the world up
  to the close; what it propagates is what ended the run.
\<close>

section \<open>The invariant through the drive\<close>

lemma world_ok_fine: "world_ok r0 w \<Longrightarrow> fine w w' \<Longrightarrow> world_ok r0 w'"
  by (rule world_ok_moves) (auto simp: fine_def world_ok_def)

lemma world_ok_steps: "world_ok r0 w \<Longrightarrow> k \<noteq> stopped_early \<Longrightarrow> world_ok r0 (limit_steps n (Some k) w)"
proof -
  assume ok: "world_ok r0 w" "k \<noteq> stopped_early"
  have "calm w (limit_steps n (Some k) w)" by (rule calm_heap)
  with ok net_inv_calm show ?thesis by (auto simp: world_ok_def limit_steps_def)
qed

lemma world_ok_tearing: "world_ok r0 w \<Longrightarrow> world_ok r0 (w\<lparr>tearing_down := b\<rparr>)"
proof -
  assume ok: "world_ok r0 w"
  have "calm w (w\<lparr>tearing_down := b\<rparr>)" by (simp add: calm_unfold)
  with ok show ?thesis using net_inv_calm by (auto simp: world_ok_def)
qed

lemma world_since_ok: "world_since r0 w0 w \<Longrightarrow> world_ok r0 w"
  by (simp add: world_since_def)

lemma world_since_fine: "world_since r0 w0 w \<Longrightarrow> fine w w' \<Longrightarrow> world_since r0 w0 w'"
  by (rule world_since_step, assumption) (auto intro: world_ok_fine since_fine dest: world_since_ok)

lemma world_since_limit: "world_since r0 w0 w \<Longrightarrow> world_since r0 w0 (limit_teardown_steps n w)"
proof -
  assume s: "world_since r0 w0 w"
  have "world_ok r0 (limit_teardown_steps n w)"
    unfolding limit_teardown_steps_def
    by (rule world_ok_steps [OF world_since_ok [OF s]]) (simp add: stopped_early_def)
  with s show ?thesis
    by (rule world_since_step) (simp add: since_same limit_teardown_steps_def limit_steps_def)
qed

lemma world_since_hooks: "world_since r0 w0 w \<Longrightarrow> world_since r0 w0 (w\<lparr>sl_hooks := ks\<rparr>)"
proof -
  assume s: "world_since r0 w0 w"
  have "world_ok r0 (w\<lparr>sl_hooks := ks\<rparr>)"
    by (rule world_ok_calm [OF world_since_ok [OF s]]) (simp_all add: calm_heap)
  with s show ?thesis by (rule world_since_step) (simp add: since_same)
qed

lemma world_since_tearing: "world_since r0 w0 w \<Longrightarrow> world_since r0 w0 (w\<lparr>tearing_down := b\<rparr>)"
  by (rule world_since_step, assumption) (auto intro!: world_ok_tearing since_same dest: world_since_ok)

lemma steps_limit [simp]: "sl_steps_left (limit_teardown_steps n w) =
    Some (teardown_steps + teardown_steps_per_task * n)"
  by (simp add: limit_teardown_steps_def limit_steps_def)

lemma steps_fine: "fine w w' \<Longrightarrow> sl_steps_left w' = sl_steps_left w"
  by (simp add: fine_def moves_def)

text \<open>A call that ends with an allowance left over, in a world that is still well formed.\<close>

definition bounded :: "rng \<Rightarrow> ('m, 'v, 's) world \<Rightarrow> (('m, 'v, 's) world \<times> outcome) option \<Rightarrow> bool" where
  "bounded r0 w0 r = (\<exists>w e m. r = Some (w, e) \<and> world_since r0 w0 w \<and> sl_steps_left w = Some m)"

lemma boundedI: "world_since r0 w0 w \<Longrightarrow> sl_steps_left w = Some m \<Longrightarrow> bounded r0 w0 (Some (w, e))"
  by (simp add: bounded_def)

lemma bounded_spends: "ws.spends r0 w0 w r \<Longrightarrow> sl_steps_left w = Some n \<Longrightarrow> bounded r0 w0 r"
  unfolding ws.spends_def bounded_def by blast

lemma settle_main_bounded:
  assumes "world_since r0 w0 w" and "sl_steps_left w = Some n"
  shows "bounded r0 w0 (settle_main main w)"
  using assms
proof (induction n arbitrary: w rule: less_induct)
  case (less n)
  show ?case
  proof (cases "fut_done main w")
    case True
    then show ?thesis using less.prems by (simp add: settle_main.simps bounded_def)
  next
    case False
    obtain w1 e m where r: "run_until_done run_cb run_hook main None w = Some (w1, e)" "world_since r0 w0 w1"
      "sl_steps_left w1 = Some m" "m < n \<or> e \<noteq> Done"
      using ws.run_until_done_spends [OF less.prems(1)] less.prems(2) unfolding ws.spends_def by blast
    show ?thesis
    proof (cases e)
      case Done
      then have "bounded r0 w0 (settle_main main w1)" using less.IH [OF _ r(2,3)] r(4) by simp
      then show ?thesis using r(1) False Done by (simp add: settle_main.simps [of main w])
    next
      case (Raised x)
      then have "settle_main main w = Some (w1, Raised x)" using r(1) False by (simp add: settle_main.simps [of main w])
      then show ?thesis using r(2,3) by (simp add: boundedI)
    next
      case Diverged
      then have "settle_main main w = Some (w1, Diverged)" using r(1) False by (simp add: settle_main.simps [of main w])
      then show ?thesis using r(2,3) by (simp add: boundedI)
    qed
  qed
qed

subsection \<open>Teardown\<close>

lemma world_since_fut_cbs:
  assumes "world_since r0 w0 w"
  shows "world_since r0 w0 (w\<lparr>fut_cbs := (fut_cbs w)(f := filter P (fut_cbs w f))\<rparr>)"
proof (rule world_since_step [OF assms])
  show "world_ok r0 (w\<lparr>fut_cbs := (fut_cbs w)(f := filter P (fut_cbs w f))\<rparr>)"
    by (rule world_ok_calm [OF world_since_ok [OF assms]]) (auto simp: calm_unfold)
qed (simp add: since_same)

text \<open>\<open>run_until_complete\<close> without the loop's own failure takes a step.\<close>

lemma run_until_complete_spends:
  assumes ok: "world_since r0 w0 w" and n: "sl_steps_left w = Some n"
  shows "\<exists>w' e m. run_until_complete f w = Some (w', e) \<and> world_since r0 w0 w' \<and> sl_steps_left w' = Some m \<and>
    (e = Raised (exn (PyError ''RuntimeError'')) \<or> e = Raised (exn (step_kind w)) \<or> m < n)"
proof -
  have nc: "\<not> closed w" using ok by (simp add: world_since_def world_ok_def net_inv_def base_ok_def handles_ok_def)
  let ?w = "add_done_callback f (User StopLoop) w"
  have ok1: "world_since r0 w0 ?w" by (rule world_since_fine [OF ok fine_loop(3)]) simp
  have n1: "sl_steps_left ?w = Some n" using n by (simp add: frame_simps)
  have k: "step_kind ?w = step_kind w" by (simp add: step_kind_def settle_frame)
  obtain w1 e m where r: "run_forever run_cb run_hook ?w = Some (w1, e)" "world_since r0 w0 w1"
    "sl_steps_left w1 = Some m"
    "m < n \<or> e = Raised (exn (step_kind w)) \<or> e = Raised (exn (PyError ''RuntimeError''))"
    using ws.run_forever_spends [OF ok1] n1 unfolding ws.spends_def k by blast
  let ?w2 = "w1\<lparr>fut_cbs := (fut_cbs w1)(f := filter (\<lambda>c. \<not> is_stop_loop c) (fut_cbs w1 f))\<rparr>"
  have ok2: "world_since r0 w0 ?w2" by (rule world_since_fut_cbs [OF r(2)])
  have n2: "sl_steps_left ?w2 = Some m" using r(3) by simp
  show ?thesis
  proof (cases "e = Done")
    case True
    then have "\<exists>e'. run_until_complete f w = Some (?w2, e')"
      using r(1) nc by (cases "fut_done f ?w2") (simp_all add: run_until_complete_def Let_def)
    then obtain e' where "run_until_complete f w = Some (?w2, e')" by blast
    with ok2 n2 r(4) True show ?thesis by blast
  next
    case False
    then have "run_until_complete f w = Some (?w2, e)"
      using r(1) nc by (cases e) (simp_all add: run_until_complete_def Let_def)
    with ok2 n2 r(4) show ?thesis by blast
  qed
qed

lemma step_kind_not_stopped: "world_since r0 w0 w \<Longrightarrow> step_kind w \<noteq> stopped_early"
  by (auto simp: world_since_def world_ok_def step_kind_def stopped_early_def split: option.splits)

lemma run_until_fut_bounded:
  assumes "world_since r0 w0 w" and "sl_steps_left w = Some n"
  shows "bounded r0 w0 (run_until_fut f w)"
  using assms
proof (induction n arbitrary: w rule: less_induct)
  case (less n)
  show ?case
  proof (cases "fut_done f w")
    case True
    then show ?thesis using less.prems by (simp add: run_until_fut.simps bounded_def)
  next
    case False
    obtain w1 e m where r: "run_until_complete f w = Some (w1, e)" "world_since r0 w0 w1" "sl_steps_left w1 = Some m"
      "e = Raised (exn (PyError ''RuntimeError'')) \<or> e = Raised (exn (step_kind w)) \<or> m < n"
      using run_until_complete_spends [OF less.prems] by blast
    note unfold = run_until_fut.simps [of f w]
    show ?thesis
    proof (cases e)
      case Done
      then have "bounded r0 w0 (run_until_fut f w1)" using less.IH [OF _ r(2,3)] r(4) by simp
      then show ?thesis using r(1) False Done by (simp add: unfold)
    next
      case (Raised x)
      show ?thesis
      proof (cases "fut_done f w1 \<or> ekind x \<noteq> stopped_early")
        case True
        then have "run_until_fut f w = Some (w1, e)" using r(1) False Raised by (auto simp: unfold)
        then show ?thesis using r(2,3) by (simp add: boundedI)
      next
        case again: False
        then have "m < n"
          using r(4) Raised step_kind_not_stopped [OF less.prems(1)] by (auto simp: exn_def stopped_early_def)
        then have "bounded r0 w0 (run_until_fut f w1)" using less.IH [OF _ r(2,3)] by simp
        then show ?thesis using r(1) False Raised again by (simp add: unfold)
      qed
    next
      case Diverged
      then have "run_until_fut f w = Some (w1, e)" using r(1) False by (simp add: unfold)
      then show ?thesis using r(2,3) by (simp add: boundedI)
    qed
  qed
qed

lemma fine_cancel_tasks: "fine w (fold cancel_task fs w)"
proof (induction fs arbitrary: w)
  case (Cons f fs)
  show ?case using fine_trans [OF fine_cancel_task Cons.IH] by simp
qed simp

lemma cancel_rounds_bounded:
  assumes "world_since r0 w0 w" and "sl_steps_left w = Some n"
  shows "bounded r0 w0 (cancel_rounds k w)"
  using assms
proof (induction k arbitrary: w n)
  case 0
  then show ?case by (simp add: boundedI)
next
  case (Suc k)
  let ?p = "pending_tasks w"
  show ?case
  proof (cases "?p = []")
    case True
    then show ?thesis using Suc.prems by (simp add: boundedI)
  next
    case False
    let ?w1 = "limit_teardown_steps (length ?p) (fold cancel_task ?p w)"
    have ok1: "world_since r0 w0 ?w1"
      by (rule world_since_limit [OF world_since_fine [OF Suc.prems(1) fine_cancel_tasks]])
    obtain w2 g where g: "gather ?p ?w1 = (w2, g)" by fastforce
    have f2: "fine ?w1 w2" using fine_gather [of ?w1 ?p] g by simp
    have ok2: "world_since r0 w0 w2" by (rule world_since_fine [OF ok1 f2])
    have n2: "sl_steps_left w2 = Some (teardown_steps + teardown_steps_per_task * length ?p)"
      using steps_fine [OF f2] by simp
    obtain w3 e m where r: "run_until_fut g w2 = Some (w3, e)" "world_since r0 w0 w3" "sl_steps_left w3 = Some m"
      using run_until_fut_bounded [OF ok2 n2] unfolding bounded_def by blast
    have step: "cancel_rounds (Suc k) w = (case e of Done \<Rightarrow> cancel_rounds k w3 | _ \<Rightarrow> Some (w3, e))"
      using False g r(1) by (cases e) (simp_all add: Let_def)
    show ?thesis using Suc.IH [OF r(2,3)] r(2,3) unfolding step by (cases e) (simp_all add: boundedI)
  qed
qed

text \<open>What a drive leaves: a well-formed world, closed unless user code never came back.\<close>

definition driven :: "rng \<Rightarrow> ('m, 'v, 's) world \<Rightarrow> (('m, 'v, 's) world \<times> outcome) option \<Rightarrow> bool" where
  "driven r0 w0 r = (\<exists>w e. r = Some (w, e) \<and> (\<exists>w'. world_since r0 w0 w' \<and>
     (w = close_world w' \<or> w = w' \<and> e = Diverged)))"

lemma teardown_driven:
  assumes ok: "world_since r0 w0 w" and n: "sl_steps_left w = Some n"
  shows "driven r0 w0 (teardown failure w)"
proof -
  let ?w1 = "if failure \<noteq> None then w\<lparr>sl_hooks := []\<rparr> else w"
  have ok2: "world_since r0 w0 (?w1\<lparr>tearing_down := True\<rparr>)"
    using ok by (auto intro!: world_since_tearing world_since_hooks)
  have n2: "sl_steps_left (?w1\<lparr>tearing_down := True\<rparr>) = Some n" using n by simp
  obtain w3 e m where r: "cancel_everything (?w1\<lparr>tearing_down := True\<rparr>) = Some (w3, e)" "world_since r0 w0 w3"
    using cancel_rounds_bounded [OF ok2 n2] unfolding bounded_def cancel_everything_def by blast
  show ?thesis
    using r unfolding driven_def teardown_def Let_def secondary_def
    by (cases e; cases failure) (auto split: option.splits)
qed

lemma settle_drive_ok:
  assumes ok: "world_since r0 w0 w"
  shows "\<exists>w' f e m. settle_drive main failure w = Some (w', f, e) \<and> world_since r0 w0 w' \<and> sl_steps_left w' = Some m"
proof -
  let ?w1 = "limit_teardown_steps 0 w"
  let ?w2 = "if failure \<noteq> None then ?w1\<lparr>sl_hooks := []\<rparr> else ?w1"
  have ok2: "world_since r0 w0 ?w2" using world_since_limit [OF ok] world_since_hooks [OF world_since_limit [OF ok]] by simp
  have n2: "sl_steps_left ?w2 = Some teardown_steps" by simp
  have sec: "\<exists>f' e'. secondary failure (v, e) = (v, f', e')" for v e
    by (cases e; cases failure) (auto simp: secondary_def)
  consider "\<not> fut_done main ?w2" | "fut_done main ?w2" "failure \<noteq> None" | "fut_done main ?w2" "failure = None"
    by blast
  then show ?thesis
  proof cases
    case 1
    have "world_since r0 w0 (cancel_task main ?w2)" by (rule world_since_fine [OF ok2 fine_cancel_task])
    moreover have "sl_steps_left (cancel_task main ?w2) = Some teardown_steps"
      using steps_fine [OF fine_cancel_task] n2 by metis
    ultimately obtain v e m where r: "settle_main main (cancel_task main ?w2) = Some (v, e)" "world_since r0 w0 v"
      "sl_steps_left v = Some m" using settle_main_bounded unfolding bounded_def by blast
    obtain f' e' where s: "secondary failure (v, e) = (v, f', e')" using sec by blast
    have "\<exists>f'' e''. settle_drive main failure w = Some (v, f'', e'')"
      using 1 r(1) s by (cases f'; cases e') (simp_all add: settle_drive_def Let_def)
    with r(2,3) show ?thesis by blast
  next
    case 2
    obtain v e m where r: "run_one_more_step run_cb run_hook main ?w2 = Some (v, e)" "world_since r0 w0 v"
      "sl_steps_left v = Some m"
      using bounded_spends [OF ws.run_one_more_step_spends [OF ok2] n2] unfolding bounded_def by blast
    obtain f' e' where s: "secondary failure (v, e) = (v, f', e')" using sec by blast
    have "settle_drive main failure w = Some (v, f', e')"
      using 2 r(1) s by (simp add: settle_drive_def Let_def)
    with r(2,3) show ?thesis by blast
  next
    case 3
    then show ?thesis using ok2 n2 by (simp add: settle_drive_def Let_def)
  qed
qed

lemma drive_end_driven:
  assumes "world_since r0 w0 w" and "sl_steps_left w = Some m"
  shows "driven r0 w0 (drive_end main (w, failure, e))"
  using assms teardown_driven [OF assms]
  by (cases e; cases failure) (auto simp: drive_end_def, auto simp: driven_def)

lemma drive_main_driven:
  assumes ok: "world_since r0 w0 w" and n: "sl_steps_left w = Some n"
  shows "driven r0 w0 (drive_main main w)"
proof -
  obtain w1 e m where r: "run_until_done run_cb run_hook main (Some ClearHooks) w = Some (w1, e)" "world_since r0 w0 w1"
    using bounded_spends [OF ws.run_until_done_spends [OF ok] n] unfolding bounded_def by blast
  show ?thesis
  proof (cases "e = Diverged")
    case True
    then show ?thesis using r by (auto simp: drive_main_def driven_def)
  next
    case False
    let ?f = "case e of Raised x \<Rightarrow> Some x
      | _ \<Rightarrow> if fut_done main w1 then None else Some (exn (PyError ''RuntimeError''))"
    obtain v f e' k where s: "settle_drive main ?f w1 = Some (v, f, e')" "world_since r0 w0 v" "sl_steps_left v = Some k"
      using settle_drive_ok [OF r(2)] by blast
    have "drive_main main w = drive_end main (v, f, e')"
      using r(1) s(1) False by (cases e) (simp_all add: drive_main_def Let_def)
    then show ?thesis using drive_end_driven [OF s(2,3)] by simp
  qed
qed

text \<open>A drive of a world with a step limit.\<close>

lemma drive_driven:
  assumes ok: "world_ok r0 w" and limit: "max_steps w = Some n"
  shows "driven r0 w (drive False (Some c) w)"
proof -
  let ?w = "limit_steps (max_steps w) (Some LivelockError) w"
  have ok1: "world_since r0 w ?w"
    using world_ok_steps [OF ok, of LivelockError]
    by (intro world_since_step [OF world_since_refl [OF ok]]) (auto simp: stopped_early_def limit_steps_def intro: since_same)
  obtain w1 main where s: "spawn c ?w = (w1, main)" by fastforce
  have f: "fine ?w w1" using fine_spawn [of ?w c] s by simp
  have "sl_steps_left w1 = Some n" using steps_fine [OF f] limit by (simp add: limit_steps_def)
  from drive_main_driven [OF world_since_fine [OF ok1 f] this] show ?thesis
    using s by (simp add: drive_def)
qed

section \<open>A new world\<close>

lemma world_ok_init: "world_ok (streams sd ''net'') (world_init streams sd limit objs)"
proof -
  have "net_inv (world_init streams sd limit objs)"
    unfolding world_init_def
    by (simp add: net_inv_def net_ok_def base_ok_def net_init_def loop_init_def loop.defs net.defs net_pend_def
      pend_def net_timers_def handles_ok_def loop_ok_def clock_ok_def timers_ok_def timers_sorted_def
      times_ok_def flow_ok_def n_flight_def n_out_def causal_ok_def clock_map_ok_def link_ok_def
      reliable_at_def bound_ok_def eps_ok_def crash_ok_def window_ok_def window_at_def factors_ok_def)
  then show ?thesis
    by (simp add: world_ok_def world_init_def net_init_def loop_init_def loop.defs net.defs)
qed

end
