(* ===== verification/Loop_Guarantees.thy ===== *)
theory Loop_Guarantees
  imports Drive_Facts
begin

text \<open>
  What the event loop promises: where the clock jumps, when a run is a deadlock, which timers fire
  and in which order, the order of a batch, what ends a step, and the step allowance. The
  statements about the world's own loop rest on the interpretation \<open>wl\<close> of \<open>loop_client\<close>.
\<close>

section \<open>Jumping and deadlock\<close>

lemma live_timer_iff:
  "purge_timers canc ts \<noteq> [] \<longleftrightarrow> (\<exists>t\<in>set ts. snd (snd t) \<notin> canc)"
  unfolding purge_timers_dropWhile by (auto simp: dropWhile_eq_Nil_conv)

lemma purged_head:
  assumes "timers_ok n ts" and "purge_timers canc ts = t # us"
  shows "t \<in> set ts" and "snd (snd t) \<notin> canc"
    and "\<And>u. u \<in> set ts \<Longrightarrow> snd (snd u) \<notin> canc \<Longrightarrow> fst t \<le> fst u"
proof -
  obtain xs where xs: "ts = xs @ t # us" "\<forall>x\<in>set xs. snd (snd x) \<in> canc"
    using purge_timers_suffix [of ts canc] assms(2) by auto
  show "t \<in> set ts" using xs(1) by simp
  show "snd (snd t) \<notin> canc"
    using assms(2) hd_dropWhile [of "\<lambda>t. snd (snd t) \<in> canc" ts] unfolding purge_timers_dropWhile by auto
  fix u
  assume u: "u \<in> set ts" "snd (snd u) \<notin> canc"
  have "sorted (map tkey (t # us))"
    using assms(1) xs(1) by (simp add: timers_ok_def timers_sorted_def sorted_append)
  moreover have "u \<in> set (t # us)" using u xs by auto
  ultimately have "tkey t \<le> tkey u" by auto
  then show "fst t \<le> fst u" by (cases t; cases u) auto
qed

text \<open>C16: With nothing ready and no stop step pending, the clock jumps exactly to the earliest
  deadline of a timer that is not cancelled (or stays, when that deadline has passed): no live
  timer is skipped, and a tombstone never moves the clock.\<close>

theorem autojump_exact:
  assumes "loop_ok st" and "ready st = []" and "sl_stop_in st = None" and "\<not> stopping st"
    and "autojump st = (st', Done)"
  shows "\<exists>t\<in>set (sl_timers st). snd (snd t) \<notin> cancelled st \<and> sl_time st' = max (sl_time st) (fst t) \<and>
    (\<forall>u\<in>set (sl_timers st). snd (snd u) \<notin> cancelled st \<longrightarrow> fst t \<le> fst u)"
proof -
  have ts: "timers_ok (sl_timer_seq st) (sl_timers st)" and c: "clock_ok (sl_time st)"
    using assms(1) by (simp_all add: loop_ok_def)
  obtain t us where p: "purge_timers (cancelled st) (sl_timers st) = t # us"
    using assms by (cases "purge_timers (cancelled st) (sl_timers st)")
      (auto simp: autojump_def purge_cancelled_timers_def)
  note h = purged_head [OF ts p]
  have "fst t \<noteq> NaN" using ts h(1) by (simp add: timers_ok_def)
  moreover have "fst t \<noteq> PosInf" "sl_time st' = py_max (sl_time st) (fst t)"
    using assms p by (auto simp: autojump_def purge_cancelled_timers_def Let_def split: if_splits)
  ultimately have "sl_time st' = max (sl_time st) (fst t)"
    using clock_not_NaN [OF c] by (simp add: py_max_eq)
  with h show ?thesis by blast
qed

definition demo_loop :: "(nat, nat) loop" where
  "demo_loop = loop_init\<lparr>sl_timers := [(Fin 1, 0, (0, 5)), (Fin 2, 1, (1, 6))], sl_timer_seq := 2,
     next_handle := 2, cancelled := {(0, 5)}\<rparr>"

lemma demo_loop_ok: "loop_ok demo_loop"
  using is_double_numeral over_big [of 2] over_big [of 1]
  by (simp add: demo_loop_def loop_ok_def loop_init_def clock_ok_def timers_ok_def timers_sorted_def)

theorem autojump_exact_witness: "sl_time (fst (autojump demo_loop)) = Fin 2"
proof -
  have "\<exists>t\<in>set (sl_timers demo_loop). snd (snd t) \<notin> cancelled demo_loop \<and>
    sl_time (fst (autojump demo_loop)) = max (sl_time demo_loop) (fst t) \<and>
    (\<forall>u\<in>set (sl_timers demo_loop). snd (snd u) \<notin> cancelled demo_loop \<longrightarrow> fst t \<le> fst u)"
    by (rule autojump_exact [OF demo_loop_ok])
      (simp_all add: demo_loop_def loop_init_def autojump_def purge_cancelled_timers_def)
  then show ?thesis by (auto simp: demo_loop_def loop_init_def max_def)
qed

text \<open>C24: A step reports a deadlock exactly when nothing is ready, no stop step is pending, nobody asked
  the loop to stop, and no live timer has a finite deadline: a sleep without an end is a deadlock,
  a cancelled timer is no way out, and a run that can still move is never reported.\<close>

theorem deadlock_iff:
  assumes "loop_ok st"
  shows "snd (autojump st) = Raised (exn DeadlockError) \<longleftrightarrow>
    ready st = [] \<and> sl_stop_in st = None \<and> \<not> stopping st \<and>
    (\<forall>t\<in>set (sl_timers st). snd (snd t) \<notin> cancelled st \<longrightarrow> fst t = PosInf)"
proof -
  have ts: "timers_ok (sl_timer_seq st) (sl_timers st)" using assms by (simp add: loop_ok_def)
  show ?thesis
  proof (cases "purge_timers (cancelled st) (sl_timers st)")
    case Nil
    then have "\<forall>t\<in>set (sl_timers st). snd (snd t) \<in> cancelled st"
      using live_timer_iff [of "cancelled st" "sl_timers st"] by auto
    with Nil show ?thesis by (auto simp: autojump_def purge_cancelled_timers_def)
  next
    case (Cons t us)
    note h = purged_head [OF ts Cons]
    have "(\<forall>u\<in>set (sl_timers st). snd (snd u) \<notin> cancelled st \<longrightarrow> fst u = PosInf) \<longleftrightarrow> fst t = PosInf"
    proof
      assume inf: "fst t = PosInf"
      show "\<forall>u\<in>set (sl_timers st). snd (snd u) \<notin> cancelled st \<longrightarrow> fst u = PosInf"
      proof (intro ballI impI)
        fix u
        assume u: "u \<in> set (sl_timers st)" "snd (snd u) \<notin> cancelled st"
        have "PosInf \<le> fst u" using h(3) [OF u] inf by simp
        moreover have "fst u \<noteq> NaN" using ts u(1) by (simp add: timers_ok_def)
        ultimately show "fst u = PosInf" by auto
      qed
    qed (use h(1,2) in blast)
    with Cons show ?thesis by (auto simp: autojump_def purge_cancelled_timers_def)
  qed
qed

theorem deadlock_iff_witness:
  "snd (autojump (loop_init :: (nat, nat) loop)) = Raised (exn DeadlockError)"
  unfolding deadlock_iff [OF loop_ok_init] by (simp add: loop_init_def)

section \<open>Firing and the batch\<close>

text \<open>Two timers with the same deadline fire in the order they were scheduled, whatever else is in
  the heap.\<close>

lemma equal_deadlines_fifo:
  assumes "loop_ok st" and "\<not> closed st" and "t \<noteq> NaN" and "pf_ok t"
    and "st1 = fst (call_at t c1 st)" and "st2 = fst (call_at t c2 st1)"
  shows "\<exists>xs ys zs. sl_timers st2 = xs @ (t, sl_timer_seq st, (next_handle st, c1)) # ys @
    (t, Suc (sl_timer_seq st), (Suc (next_handle st), c2)) # zs"
proof -
  let ?a = "(t, sl_timer_seq st, (next_handle st, c1))"
  let ?b = "(t, Suc (sl_timer_seq st), (Suc (next_handle st), c2))"
  have ok2: "loop_ok st2" using assms by (simp add: loop_ok_call_at)
  have "?a \<in> set (sl_timers st2)" "?b \<in> set (sl_timers st2)"
    using assms(2,3) by (auto simp: assms(5,6) call_at_def)
  then obtain xs us where a: "sl_timers st2 = xs @ ?a # us" by (meson split_list)
  have "?b \<in> set us"
  proof -
    have "sorted (map tkey (xs @ ?a # us))" using loop_ok_sorted [OF ok2] a by simp
    then have "\<forall>x\<in>set xs. tkey x \<le> tkey ?a" by (auto simp: sorted_append)
    then have "?b \<notin> set xs" by fastforce
    with \<open>?b \<in> set (sl_timers st2)\<close> a show ?thesis by auto
  qed
  then obtain ys zs where "us = ys @ ?b # zs" by (meson split_list)
  with a show ?thesis by auto
qed

lemma equal_deadlines_fifo_witness:
  "\<exists>xs ys zs. sl_timers (fst (call_at (Fin 2) 8 (fst (call_at (Fin 2) 7 demo_loop)))) =
    xs @ (Fin 2, 2, (2, 7)) # ys @ (Fin 2, Suc 2, (Suc 2, 8)) # zs"
  using equal_deadlines_fifo [OF demo_loop_ok, of "Fin 2" _ 7 _ 8] is_double_numeral [of "num.Bit0 num.One"] over_big [of 2]
  by (simp add: demo_loop_def loop_init_def)

text \<open>A batch is first-in first-out: when it ends normally the \<open>n\<close> handles that were ready at its start
  are gone, and what callbacks scheduled meanwhile waits behind the handles that were not part of it.\<close>

lemma batch_fifo:
  assumes "n \<le> length (ready w)" and "run_batch run_cb n w = (w', Done)"
  shows "\<exists>added. ready w' = drop n (ready w) @ added"
  using assms
proof (induction n arbitrary: w)
  case (Suc n)
  then obtain h hs where r: "ready w = h # hs" by (cases "ready w") auto
  let ?w = "w\<lparr>ready := hs\<rparr>"
  obtain v e where c: "run_cb (snd h) ?w = (v, e)" by fastforce
  obtain new where new: "ready v = hs @ new"
    using wl.cb_ready [of "snd h" ?w] c by auto
  show ?case
  proof (cases "h \<in> cancelled w")
    case True
    then have "run_batch run_cb n ?w = (w', Done)" using Suc.prems(2) r by simp
    then show ?thesis using Suc.IH [of ?w] Suc.prems(1) r by simp
  next
    case False
    then have "run_batch run_cb n v = (w', Done)"
      using Suc.prems(2) unfolding run_batch_step [where cb = run_cb, OF r c] by (auto split: if_splits)
    moreover have n: "n \<le> length hs" using Suc.prems(1) r by simp
    ultimately obtain added where "ready w' = drop n (ready v) @ added"
      using Suc.IH [of v] new by auto
    then show ?thesis using r new n by simp
  qed
qed simp


text \<open>A small world for the witnesses: seed 1, at most ten steps, streams of zero words.\<close>

definition zero_rng :: rng where
  "zero_rng = \<lparr>rng_tape = (\<lambda>_. 0), rng_pos = 0\<rparr>"

definition demo_world :: "(nat, nat, nat) world" where
  "demo_world = world_init (\<lambda>_ _. zero_rng) 1 (Some 10) 0"

lemma demo_world_ok: "world_ok zero_rng demo_world"
  unfolding demo_world_def by (rule world_ok_init)

lemma demo_world_simps [simp]:
  "sl_time demo_world = Fin 0" "sl_timers demo_world = []" "sl_timer_seq demo_world = 0"
  "sl_hooks demo_world = []" "sl_watch demo_world = None" "sl_stop_in demo_world = None"
  "sl_settle demo_world = None" "sl_steps_left demo_world = None" "sl_step_error demo_world = None"
  "ready demo_world = []" "\<not> stopping demo_world" "\<not> closed demo_world" "next_handle demo_world = 0"
  "cancelled demo_world = {}" "futs demo_world = (\<lambda>_. Pending)" "fut_cbs demo_world = (\<lambda>_. [])"
  "next_fut demo_world = 0" "net_rng demo_world = zero_rng" "faults_rng demo_world = zero_rng"
  "timeline demo_world = []" "endpoints demo_world = []" "next_mid demo_world = 0"
  "partition demo_world = None" "reliable_clock demo_world = Map.empty" "fault_partitions demo_world = []"
  "fault_slow_links demo_world = []" "crashed demo_world = {}" "next_fault_id demo_world = 0"
  "seed demo_world = 1" "max_steps demo_world = Some 10" "\<not> tearing_down demo_world"
  "user_rng demo_world = zero_rng" "started demo_world = []" "invariants demo_world = []"
  "\<not> invariants_hook_installed demo_world" "\<not> run_until_active demo_world" "heap demo_world = 0"
  "tasks demo_world = Map.empty" "sl_task_seq demo_world = 0"
  by (simp_all add: demo_world_def world_init_def net_init_def loop_init_def loop.defs net.defs)

section \<open>A whole step\<close>

text \<open>A step of a world never moves the clock back, and one of the two stop steps never moves it at
  all.\<close>

lemma step_clock:
  assumes "world_ok r0 w" and "world_step w = (w', e)"
  shows "sl_time w \<le> sl_time w' \<and> (sl_stop_in w \<noteq> None \<longrightarrow> sl_time w' = sl_time w)"
  using wl.run_once_facts(2,4) [OF assms(1)] assms(2) by (auto simp: world_step_def)

text \<open>C38: A step allowance of \<open>n\<close> allows \<open>n\<close> steps and no more: each step takes one off whatever its
  outcome, and at zero the caller's error is raised with the world untouched.\<close>

theorem step_allowance:
  assumes "world_ok r0 w" and "sl_steps_left w = Some n" and "sl_step_error w = Some k"
  shows "(n = 0 \<longrightarrow> world_step w = (w, Raised (exn k))) \<and>
    (0 < n \<longrightarrow> sl_steps_left (fst (world_step w)) = Some (n - 1))"
proof (intro conjI impI)
  show "n = 0 \<Longrightarrow> world_step w = (w, Raised (exn k))"
    using assms by (simp add: world_step_def run_once_def count_step_def)
  assume "0 < n"
  obtain w' e where s: "run_once run_cb run_hook w = (w', e)" by fastforce
  have "sl_steps_left w' = sl_steps_left (fst (count_step w))"
    by (rule wl.run_once_facts(3) [OF assms(1) s])
  then show "sl_steps_left (fst (world_step w)) = Some (n - 1)"
    using assms(2) \<open>0 < n\<close> s by (cases n) (simp_all add: world_step_def count_step_def)
qed

lemma demo_limited_ok: "world_ok zero_rng (demo_world\<lparr>sl_steps_left := x, sl_step_error := Some LivelockError\<rparr>)"
proof -
  have "calm demo_world (demo_world\<lparr>sl_steps_left := x, sl_step_error := Some LivelockError\<rparr>)"
    using calm_heap(3) [of demo_world x "Some LivelockError"] by (simp add: limit_steps_def)
  with demo_world_ok net_inv_calm show ?thesis by (auto simp: world_ok_def stopped_early_def)
qed

theorem step_allowance_witness:
  "world_step (demo_world\<lparr>sl_steps_left := Some 0, sl_step_error := Some LivelockError\<rparr>) =
    (demo_world\<lparr>sl_steps_left := Some 0, sl_step_error := Some LivelockError\<rparr>, Raised (exn LivelockError))"
  using step_allowance [OF demo_limited_ok [of "Some 0"], of 0 LivelockError] by simp

end
