(* ===== verification/World_Guarantees.thy ===== *)
theory World_Guarantees
  imports Loop_Guarantees
begin

text \<open>
  What the world promises a scenario: invariants checked after every step, a hard failure before a
  soft one, the outcome of \<open>run_until\<close>, all-or-nothing fault lists in \<open>run_for\<close>, a run that ends,
  and a teardown that leaves no task behind.
\<close>

section \<open>After-step checks\<close>

lemma more_world:
  assumes "loop.more v = loop.more w"
  shows "heap v = heap w" "invariants v = invariants w"
  using assms by (cases v; cases w; simp)+

lemma run_hook_view:
  "heap (fst (run_hook k w)) = heap w \<and> invariants (fst (run_hook k w)) = invariants w \<and>
    sl_time (fst (run_hook k w)) = sl_time w"
proof (cases k)
  case (UntilCheck f p d)
  have "heap (fst (complete_future f r w)) = heap w" "invariants (fst (complete_future f r w)) = invariants w"
    "sl_time (fst (complete_future f r w)) = sl_time w" for r
    using more_world [OF complete_future_frame(9)] complete_future_frame(1) by blast+
  then show ?thesis using UntilCheck by (auto simp: until_check_def split: presult.splits)
qed (simp add: check_invariants_def)

text \<open>The failure the invariants report on a state.\<close>

abbreviation violated :: "('m, 'v, 's) world \<Rightarrow> exn option" where
  "violated w \<equiv> first_failure (invariants w) (heap w) (sl_time w)"

definition no_interrupts :: "('m, 'v, 's) world \<Rightarrow> bool" where
  "no_interrupts w = ((\<forall>f p d x. UntilCheck f p d \<in> set (sl_hooks w) \<longrightarrow> p (heap w) (sl_time w) = PredRaises x \<longrightarrow>
     is_exception x) \<and> (\<forall>x. violated w = Some x \<longrightarrow> is_exception x))"

lemma violated_cong: "heap v = heap w \<Longrightarrow> invariants v = invariants w \<Longrightarrow> sl_time v = sl_time w \<Longrightarrow>
    violated v = violated w"
  by simp

lemma run_hook_check: "snd (run_hook CheckInvariants w) = (case violated w of None \<Rightarrow> HookOk | Some e \<Rightarrow> HookHard e)"
  by (simp add: check_invariants_def time_def)

lemma run_hook_until:
  "snd (run_hook (UntilCheck f p d) w) = HookHard x \<Longrightarrow> p (heap w) (sl_time w) = PredRaises x \<and> \<not> is_exception x"
  by (auto simp: until_check_def time_def split: presult.splits if_splits)

lemma run_hooks_hard:
  assumes "\<And>f p d x. UntilCheck f p d \<in> set ks \<Longrightarrow> p (heap w) (sl_time w) = PredRaises x \<Longrightarrow> is_exception x"
    and "violated w = Some e" and "is_exception e"
    and "CheckInvariants \<in> set ks \<or> first = Some e" and "first = None \<or> first = Some e"
  shows "fst (snd (run_hooks run_hook ks first nts w)) = Some e"
  using assms
proof (induction ks arbitrary: first nts w)
  case (Cons k ks)
  obtain v r where h: "run_hook k w = (v, r)" by fastforce
  have v: "heap v = heap w" "invariants v = invariants w" "sl_time v = sl_time w"
    using run_hook_view [of k w] h by auto
  have IH: "fst (snd (run_hooks run_hook ks first' nts' v)) = Some e"
    if "CheckInvariants \<in> set ks \<or> first' = Some e" "first' = None \<or> first' = Some e" for first' nts'
    using Cons.prems(1-3) that v by (intro Cons.IH) auto
  show ?case
  proof (cases k)
    case CheckInvariants
    then have "r = HookHard e" using run_hook_check [of w] Cons.prems(2) h by simp
    then show ?thesis using h IH Cons.prems(3,5) by (auto split: option.splits)
  next
    case (UntilCheck f p d)
    have "r \<noteq> HookHard x" for x
      using run_hook_until [of f p d w x] Cons.prems(1) [of f p d x] h UntilCheck by auto
    moreover have "CheckInvariants \<in> set ks \<or> first = Some e" using Cons.prems(4) UntilCheck by auto
    ultimately show ?thesis using h IH Cons.prems(5) by (cases r) auto
  qed
qed simp

lemma ekind_note_others [simp]: "ekind (note_others e nts) = ekind e"
proof -
  have "ekind (fold (\<lambda>n e. add_note (AlsoFailed (ekind n)) e) nts e) = ekind e" for e
    by (induction nts arbitrary: e) (simp_all add: add_note_def)
  then show ?thesis by (simp add: note_others_def)
qed

text \<open>C1: A violated invariant always ends the step it is found in, wherever its hook stands among the
  after-step hooks and whatever a \<open>run_until\<close> predicate does in the same step.\<close>

theorem violation_wins:
  assumes "CheckInvariants \<in> set (sl_hooks w)" and "no_interrupts w" and "violated w = Some e"
  shows "\<exists>x. snd (after_step run_hook w) = Raised x \<and> ekind x = ekind e"
proof -
  have "fst (snd (run_hooks run_hook (sl_hooks w) None [] w)) = Some e"
    using assms by (intro run_hooks_hard) (auto simp: no_interrupts_def)
  then show ?thesis
    by (cases "run_hooks run_hook (sl_hooks w) None [] w") (auto simp: after_step_def)
qed

definition demo_violated :: "(nat, nat, nat) world" where
  "demo_violated = demo_world\<lparr>invariants := [(''positive'', \<lambda>n t. if 0 < n then Holds else Fails)],
     sl_hooks := [UntilCheck 0 (\<lambda>n t. PredRaises (exn (UserError 3))) None, CheckInvariants]\<rparr>"

theorem violation_wins_witness:
  "\<exists>x. snd (after_step run_hook demo_violated) = Raised x \<and> ekind x = InvariantError ''positive'' (Fin 0)"
  using violation_wins [of demo_violated "exn (InvariantError ''positive'' (Fin 0))"]
  by (simp add: demo_violated_def no_interrupts_def exn_def is_exception_iff is_interrupt_def)

text \<open>C30: When the predicate of an active \<open>run_until\<close> raises in the step in which an invariant is violated,
  the invariant is what ends the run, in either order of the two hooks; the predicate's exception is
  delivered to the future and kept as a note.\<close>

theorem hard_beats_soft:
  assumes "sl_hooks w = [CheckInvariants, UntilCheck f p d] \<or> sl_hooks w = [UntilCheck f p d, CheckInvariants]"
    and "\<not> fut_done f w" and "p (heap w) (sl_time w) = PredRaises x" and "is_exception x"
    and "violated w = Some e" and "is_exception e"
  shows "after_step run_hook w =
    (fst (complete_future f (Failed x) w), Raised (add_note (AlsoFailed (ekind x)) e))"
proof -
  let ?v = "fst (complete_future f (Failed x) w)"
  have u: "run_hook (UntilCheck f p d) w = (?v, HookSoft x)"
    using assms(2-4) by (simp add: until_check_def time_def)
  have c: "run_hook CheckInvariants w = (w, HookHard e)" "run_hook CheckInvariants ?v = (?v, HookHard e)"
    using assms(5) run_hook_view [of "UntilCheck f p d" w] unfolding u
    by (simp_all add: check_invariants_def time_def)
  show ?thesis
    using assms(1,6) by (auto simp: after_step_def u c note_others_def simp del: run_hook.simps)
qed

theorem hard_beats_soft_witness:
  "snd (after_step run_hook demo_violated) =
    Raised (Exn (InvariantError ''positive'' (Fin 0)) [AlsoFailed (UserError 3)])"
  using hard_beats_soft [of demo_violated 0 "\<lambda>n t. PredRaises (exn (UserError 3))" None "exn (UserError 3)"
      "exn (InvariantError ''positive'' (Fin 0))"]
  by (simp add: demo_violated_def fut_done_def exn_def is_exception_iff is_interrupt_def add_note_def)

subsection \<open>Every step is checked\<close>

lemma armed_run_cb: "armed w \<Longrightarrow> armed (fst (run_cb c w))"
proof (cases "is_net c")
  case True
  assume "armed w"
  then show ?thesis using keeps_run_net [of w c] armed_more True by (auto simp: run_cb_net keeps_def)
next
  case False
  assume "armed w"
  then show ?thesis using fine_run_cb [OF False, of w] by (simp add: fine_def)
qed

lemma armed_run_batch: "armed w \<Longrightarrow> armed (fst (run_batch run_cb n w))"
proof (induction n arbitrary: w)
  case (Suc n)
  show ?case
  proof (cases "ready w")
    case (Cons h hs)
    let ?w = "w\<lparr>ready := hs\<rparr>"
    obtain v e where c: "run_cb (snd h) ?w = (v, e)" by fastforce
    have w: "armed ?w" using Suc.prems by (simp add: armed_def)
    then have v: "armed v" using armed_run_cb [of ?w "snd h"] c by simp
    show ?thesis
      unfolding run_batch_step [where cb = run_cb, OF Cons c] using Suc.IH [OF w] Suc.IH [OF v] v by simp
  qed (use Suc.prems in simp)
qed simp

lemma run_hooks_view:
  "run_hooks run_hook ks first nts w = (v, first', nts') \<Longrightarrow>
    heap v = heap w \<and> invariants v = invariants w \<and> sl_time v = sl_time w \<and>
    (armed w \<longrightarrow> armed v) \<and> sl_stop_in v = sl_stop_in w \<and>
    (first' = None \<longrightarrow> first = None \<and> (CheckInvariants \<in> set ks \<longrightarrow> violated w = None))"
proof (induction ks arbitrary: first nts w)
  case (Cons k ks)
  obtain u r where h: "run_hook k w = (u, r)" by fastforce
  have u: "heap u = heap w" "invariants u = invariants w" "sl_time u = sl_time w"
    using run_hook_view [of k w] h by auto
  have f: "armed w \<longrightarrow> armed u" "sl_stop_in u = sl_stop_in w"
    using fine_run_hook [of w k] h by (auto simp: fine_def moves_def)
  have c: "k = CheckInvariants \<Longrightarrow> r = (case violated w of None \<Rightarrow> HookOk | Some e \<Rightarrow> HookHard e)"
    using run_hook_check [of w] h by simp
  show ?case
  proof (cases "\<exists>x. r = HookHard x \<and> \<not> is_exception x")
    case True
    then show ?thesis using Cons.prems h u f by auto
  next
    case False
    then obtain first1 nts1 where n: "run_hooks run_hook ks first1 nts1 u = (v, first', nts')"
      "first1 = None \<longrightarrow> first = None \<and> (\<forall>x. r \<noteq> HookHard x)"
      using Cons.prems h by (cases r; cases first) auto
    from Cons.IH [OF n(1)] u f n(2) c show ?thesis by (auto split: option.splits)
  qed
qed simp

lemma first_failure_None:
  "first_failure ps objs t = None \<longleftrightarrow> (\<forall>(name, p)\<in>set ps. p objs t = Holds)"
  by (induction ps) (auto split: presult.splits)

lemma armed_check_watch:
  assumes "armed w" and "sl_stop_in w \<noteq> Some 2"
  shows "armed (check_watch w)"
proof -
  have "invariants (check_watch w) = invariants w"
    using more_world(2) check_watch_frame(7) by blast
  moreover have "invariants_hook_installed (check_watch w) = invariants_hook_installed w"
    using check_watch_frame(7) [of w] by (cases w; cases "check_watch w") simp
  moreover have "sl_hooks (check_watch w) = sl_hooks w"
    using assms(2) by (auto simp: check_watch_def stop_def Let_def split: option.splits)
  ultimately show ?thesis using assms(1) by (simp add: armed_def)
qed

text \<open>C2: Every registered invariant holds after every step that completes, on the objects and at the
  time the step ends with; and the check stays in force for the next step until the settle between
  the two stop steps. The first registered invariant arms the check, even one registered by the
  step itself.\<close>

theorem step_checks_invariants:
  assumes "armed w" and "world_step w = (w', Done)"
  shows "(\<forall>(name, p)\<in>set (invariants w'). p (heap w') (sl_time w') = Holds) \<and>
    (sl_stop_in w \<noteq> Some 2 \<longrightarrow> armed w')"
proof -
  let ?w1 = "fst (count_step w)"
  let ?w2 = "fst (autojump ?w1)"
  let ?w3 = "fire_due_timers ?w2"
  let ?w4 = "fst (run_batch run_cb (length (ready ?w3)) ?w3)"
  have ok: "snd (count_step w) = Done" "snd (autojump ?w1) = Done"
    "snd (run_batch run_cb (length (ready ?w3)) ?w3) = Done"
    using assms(2) by (auto simp: world_step_def run_once_def Let_def split: prod.splits outcome.splits)
  obtain v where a: "after_step run_hook ?w4 = (v, Done)" and w': "w' = check_watch v"
    using assms(2) ok by (auto simp: world_step_def run_once_def Let_def split: prod.splits outcome.splits)
  have same: "sl_hooks ?w3 = sl_hooks w" "loop.more ?w3 = loop.more w" "sl_stop_in ?w3 = sl_stop_in w"
    by (simp_all add: frame_simps)
  have "armed ?w3"
  proof -
    have "invariants ?w3 = invariants w" using more_world(2) [OF same(2)] .
    moreover have "invariants_hook_installed ?w3 = invariants_hook_installed w"
      using same(2) by (cases w; cases ?w3) simp
    ultimately show ?thesis using assms(1) same(1) by (simp add: armed_def)
  qed
  then have a4: "armed ?w4" by (rule armed_run_batch)
  obtain first nts where r: "run_hooks run_hook (sl_hooks ?w4) None [] ?w4 = (v, first, nts)"
    using a by (auto simp: after_step_def split: prod.splits option.splits)
  have "first = None" using a r by (auto simp: after_step_def split: option.splits)
  note view = run_hooks_view [OF r]
  have "sl_stop_in ?w4 = sl_stop_in w"
    using wl.run_batch_facts [of "length (ready ?w3)" ?w3] same(3) by simp
  with view a4 have v: "armed v" "sl_stop_in v = sl_stop_in w" by auto
  have "\<forall>(name, p)\<in>set (invariants v). p (heap v) (sl_time v) = Holds"
  proof (cases "invariants v = []")
    case False
    then have "CheckInvariants \<in> set (sl_hooks ?w4)" using a4 view by (auto simp: armed_def)
    then have "violated ?w4 = None" using view \<open>first = None\<close> by blast
    then show ?thesis using view by (simp add: first_failure_None)
  qed simp
  moreover have "heap w' = heap v" "invariants w' = invariants v" "sl_time w' = sl_time v"
    unfolding w' using more_world [OF check_watch_frame(7)] check_watch_frame(1) by blast+
  ultimately show ?thesis using armed_check_watch [OF v(1)] v(2) by (simp add: w')
qed

definition demo_checked :: "(nat, nat, nat) world" where
  "demo_checked = demo_world\<lparr>invariants := [(''positive'', \<lambda>n t. if 0 < n then Holds else Fails)],
     invariants_hook_installed := True, sl_hooks := [CheckInvariants], heap := 2, ready := [(0, Nop)]\<rparr>"

lemma demo_checked_step: "world_step demo_checked = (demo_checked\<lparr>ready := []\<rparr>, Done)"
  by (simp add: demo_checked_def world_step_def run_once_def count_step_def autojump_def fire_due_timers_def
      after_step_def check_invariants_def check_watch_def Let_def)

theorem step_checks_invariants_witness: "armed (demo_checked\<lparr>ready := []\<rparr>)"
  using step_checks_invariants [OF _ demo_checked_step] by (simp add: demo_checked_def armed_def)

section \<open>Waiting for a predicate\<close>

lemma futs_run_hook:
  "fut_done f w \<Longrightarrow> fut_done f (fst (run_hook k w))"
  by (cases k) (auto simp: check_invariants_def until_check_def complete_future_def futs_call_soon_all fut_done_def
      split: presult.splits)

lemma run_hooks_done:
  "run_hooks run_hook ks first nts w = (v, first', nts') \<Longrightarrow>
    sl_hooks v = sl_hooks w \<and> (fut_done f w \<longrightarrow> fut_done f v)"
proof (induction ks arbitrary: first nts w)
  case (Cons k ks)
  obtain u r where h: "run_hook k w = (u, r)" by fastforce
  have "sl_hooks u = sl_hooks w" "fut_done f w \<Longrightarrow> fut_done f u"
    using run_hook_hooks [of k w] futs_run_hook [of f w k] h by auto
  then show ?case
    using Cons h by (cases r) (auto split: if_splits option.splits)
qed simp

text \<open>An \<open>UntilCheck\<close> whose future is still open found its predicate false and its deadline ahead.\<close>

lemma run_hooks_until_open:
  "run_hooks run_hook ks first nts w = (v, None, nts') \<Longrightarrow> UntilCheck f p d \<in> set ks \<Longrightarrow> \<not> fut_done f v \<Longrightarrow>
    p (heap w) (sl_time w) = Fails \<and> (\<forall>t. d = Some t \<longrightarrow> \<not> py_le t (sl_time w))"
proof (induction ks arbitrary: first nts w)
  case (Cons k ks)
  obtain u r where h: "run_hook k w = (u, r)" by fastforce
  have u: "heap u = heap w" "sl_time u = sl_time w" using run_hook_view [of k w] h by auto
  obtain first1 nts1 where n: "run_hooks run_hook ks first1 nts1 u = (v, None, nts')"
    using Cons.prems(1) h by (cases r; cases first) (auto split: if_splits)
  have hard: "r \<noteq> HookHard x" for x
  proof
    assume "r = HookHard x"
    then have "first1 \<noteq> None \<or> False" using Cons.prems(1) h run_hooks_view [of ks _ _ u]
      by (cases first) (fastforce split: if_splits)+
    then show False using run_hooks_view [OF n] by simp
  qed
  show ?case
  proof (cases "k = UntilCheck f p d")
    case False
    then have "UntilCheck f p d \<in> set ks" using Cons.prems(2) by auto
    from Cons.IH [OF n this Cons.prems(3)] u show ?thesis by simp
  next
    case True
    have "\<not> fut_done f u" using run_hooks_done [OF n] Cons.prems(3) by blast
    then show ?thesis
      using h True hard by (auto simp: until_check_def time_def fut_done_def complete_future_def futs_call_soon_all
          split: presult.splits if_splits dest: sym)
  qed
qed simp

lemma check_watch_hooks:
  fixes w :: "('c, 'k, 'w) loop_scheme"
  shows "h \<in> set (sl_hooks (check_watch w)) \<Longrightarrow> h \<in> set (sl_hooks w)"
proof -
  have s: "h \<in> set (sl_hooks (run_settle x u)) \<Longrightarrow> h \<in> set (sl_hooks u)" for x and u :: "('c, 'k, 'w) loop_scheme"
    by (cases "(x, u)" rule: run_settle.cases) simp_all
  show "h \<in> set (sl_hooks (check_watch w)) \<Longrightarrow> h \<in> set (sl_hooks w)"
    by (auto simp: check_watch_def stop_def Let_def split: option.splits if_splits dest!: s)
qed

lemma check_watch_futs: "futs (check_watch w) = futs w"
  by (simp add: check_watch_def stop_def Let_def futs_run_settle split: option.splits)

text \<open>C17: A waiting \<open>run_until\<close> never misses its moment: after every step that completes, a predicate that
  is still waited for is false on the objects as they are, and its deadline has not been reached.\<close>

theorem until_never_missed:
  assumes "world_step w = (w', Done)" and "UntilCheck f p d \<in> set (sl_hooks w')" and "\<not> fut_done f w'"
  shows "p (heap w') (sl_time w') = Fails \<and> (\<forall>t. d = Some t \<longrightarrow> \<not> py_le t (sl_time w'))"
proof -
  let ?w3 = "fire_due_timers (fst (autojump (fst (count_step w))))"
  let ?w4 = "fst (run_batch run_cb (length (ready ?w3)) ?w3)"
  have ok: "snd (count_step w) = Done" "snd (autojump (fst (count_step w))) = Done"
    "snd (run_batch run_cb (length (ready ?w3)) ?w3) = Done"
    using assms(1) by (auto simp: world_step_def run_once_def Let_def split: prod.splits outcome.splits)
  obtain v where a: "after_step run_hook ?w4 = (v, Done)" and w': "w' = check_watch v"
    using assms(1) ok by (auto simp: world_step_def run_once_def Let_def split: prod.splits outcome.splits)
  obtain first nts where r: "run_hooks run_hook (sl_hooks ?w4) None [] ?w4 = (v, first, nts)"
    using a by (auto simp: after_step_def split: prod.splits option.splits)
  have n: "first = None" using a r by (auto simp: after_step_def split: option.splits)
  have k: "UntilCheck f p d \<in> set (sl_hooks ?w4)"
    using check_watch_hooks [of _ v] assms(2) run_hooks_done [OF r] by (simp add: w')
  have same: "heap w' = heap v" "sl_time w' = sl_time v" "futs w' = futs v"
    unfolding w' using more_world [OF check_watch_frame(7)] check_watch_frame(1) check_watch_futs by blast+
  then have "\<not> fut_done f v" using assms(3) by (simp add: fut_done_def)
  from run_hooks_until_open [OF r [unfolded n] k this] run_hooks_view [OF r] same show ?thesis by simp
qed

definition demo_waiting :: "(nat, nat, nat) world" where
  "demo_waiting = demo_world\<lparr>sl_hooks := [UntilCheck 0 (\<lambda>n t. Fails) (Some (Fin 5))], next_fut := 1,
     ready := [(0, Nop)]\<rparr>"

lemma demo_waiting_step: "world_step demo_waiting = (demo_waiting\<lparr>ready := []\<rparr>, Done)"
  by (simp add: demo_waiting_def world_step_def run_once_def count_step_def autojump_def fire_due_timers_def
      after_step_def until_check_def fut_done_def check_watch_def time_def Let_def)

theorem until_never_missed_witness: "\<not> py_le (Fin 5) (sl_time (demo_waiting\<lparr>ready := []\<rparr>))"
  using until_never_missed [OF demo_waiting_step, of 0 "\<lambda>n t. Fails" "Some (Fin 5)"]
  by (simp add: demo_waiting_def fut_done_def)

lemma clock_add_not_NaN: "clock_ok t \<Longrightarrow> isfinite d \<Longrightarrow> py_add t d \<noteq> NaN"
  by (auto simp: clock_ok_def isfinite_iff of_exact_def Let_def split: if_splits)

text \<open>A \<open>run_until\<close> that has to wait has registered everything that can end it: its check among the
  after-step hooks, and, with a deadline, a timer at exactly that time, which is ahead of the clock.
  It only waits when the predicate is false now.\<close>

lemma run_until_waits:
  assumes ok: "world_ok r0 w" and r: "run_until p deadline w = (w', Wait fr fo)"
  shows "\<exists>f timer. fr = FUntil f timer \<and> fo = Some f \<and> \<not> fut_done f w' \<and> run_until_active w' \<and>
    p (heap w) (sl_time w) = Fails \<and>
    UntilCheck f p (map_option (py_add (sl_time w)) deadline) \<in> set (sl_hooks w') \<and>
    (\<forall>t. deadline = Some t \<longrightarrow> sl_time w < py_add (sl_time w) t \<and>
      (\<exists>n s. timer = Some n \<and> (py_add (sl_time w) t, s, (n, Nop)) \<in> set (sl_timers w')))"
proof -
  have c: "clock_ok (sl_time w)" and nc: "\<not> closed w"
    using ok by (simp_all add: world_ok_def net_inv_def base_ok_def handles_ok_def loop_ok_def)
  have valid: "\<not> run_until_active w" "\<And>t. deadline = Some t \<Longrightarrow> isfinite t"
    using r by (auto simp: run_until_def split: if_splits)
  let ?w0 = "w\<lparr>run_until_active := True\<rparr>"
  obtain w1 f where cf: "create_future ?w0 = (w1, f)" by fastforce
  let ?at = "map_option (py_add (time w1)) deadline"
  have w1: "f = next_fut w" "sl_time w1 = sl_time w" "heap w1 = heap w" "run_until_active w1" "futs w1 f = Pending"
    "closed w1 = closed w" "next_handle w1 = next_handle w" "time w1 = sl_time w"
    using cf by (auto simp: create_future_def time_def)
  let ?w2 = "w1\<lparr>sl_hooks := sl_hooks w1 @ [UntilCheck f p ?at]\<rparr>"
  let ?w3 = "case ?at of None \<Rightarrow> ?w2 | Some t \<Rightarrow> fst (call_at t Nop ?w2)"
  let ?timer = "case ?at of None \<Rightarrow> None | Some t \<Rightarrow> Some (next_handle ?w2)"
  obtain w4 x where u: "until_check f p ?at ?w3 = (w4, x)" by fastforce
  have v: "sl_time ?w3 = sl_time w" "heap ?w3 = heap w" "sl_hooks ?w3 = sl_hooks ?w2"
    "run_until_active ?w3" "futs ?w3 f = Pending"
    using w1 by (auto simp: call_at_def split: option.splits)
  have t: "(py_add (sl_time w) d, sl_timer_seq w1, (next_handle w, Nop)) \<in> set (sl_timers ?w3)"
    "?timer = Some (next_handle w)" if "deadline = Some d" for d
    using that nc clock_add_not_NaN [OF c valid(2) [OF that]] w1
    by (simp_all add: call_at_def isnan_def heappush_def set_insort_key)
  have e: "w' = w4 \<and> fr = FUntil f ?timer \<and> fo = Some f \<and> \<not> fut_done f w4 \<and> (\<forall>y. x \<noteq> HookHard y)"
    using r valid u cf by (auto simp: run_until_def Let_def split: hook_result.splits if_splits)
  have p: "p (heap w) (sl_time w) = Fails" and w4: "w4 = ?w3" and
    d: "\<And>d. deadline = Some d \<Longrightarrow> \<not> py_le (py_add (sl_time w) d) (sl_time w)"
    using e u v w1(2) by (auto simp: until_check_def time_def fut_done_def complete_future_def futs_call_soon_all
        split: presult.splits if_splits)
  have "sl_time w < py_add (sl_time w) d" if "deadline = Some d" for d
    using d [OF that] clock_add_not_NaN [OF c valid(2) [OF that]] clock_not_NaN [OF c]
    by (simp add: py_le_def isnan_def not_le)
  then have timers: "\<forall>t. deadline = Some t \<longrightarrow> sl_time w < py_add (sl_time w) t \<and>
      (\<exists>n s. ?timer = Some n \<and> (py_add (sl_time w) t, s, (n, Nop)) \<in> set (sl_timers w'))"
    using t e w4 by blast
  have "UntilCheck f p (map_option (py_add (sl_time w)) deadline) \<in> set (sl_hooks w')" "run_until_active w'"
    using e w4 v(3,4) w1(8) by simp_all
  with timers e p show ?thesis by blast
qed

definition demo_until :: "(nat, nat, nat) world" where
  "demo_until = fst (run_until (\<lambda>n t. Fails) (Some (Fin 5)) demo_world)"

lemma of_exact_5 [simp]: "of_exact 5 = Fin 5"
proof -
  have "rnd 5 = (5 :: real)" using is_double_numeral [of "num.Bit1 (num.Bit0 num.One)"] by (simp add: rnd_double)
  then show ?thesis using of_exact_finite [of 5] over_big [of 5] by simp
qed

lemma demo_until_call:
  "run_until (\<lambda>n t. Fails) (Some (Fin 5)) demo_world = (demo_until, Wait (FUntil 0 (Some 0)) (Some 0))"
  by (simp add: demo_until_def run_until_def create_future_def until_check_def fut_done_def time_def call_at_def
      isnan_def Let_def)

lemma run_until_waits_witness: "run_until_active demo_until \<and> \<not> fut_done 0 demo_until"
  using run_until_waits [OF demo_world_ok demo_until_call] by auto

section \<open>Fault lists\<close>

lemma validate_fault_kind: "validate_fault bound seconds f = Some e \<Longrightarrow> \<exists>k. e = SeedloopError k"
proof (cases f)
  case (PartitionFault gs)
  have "validate_group_list seen xs = Some e \<Longrightarrow> \<exists>k. e = SeedloopError k" for seen xs
    by (induction seen xs rule: validate_group_list.induct) (auto split: if_splits)
  then show "validate_fault bound seconds f = Some e \<Longrightarrow> ?thesis"
    using PartitionFault by (cases gs) (auto split: if_splits)
qed (auto split: if_splits)

lemma validate_faults_Some:
  "validate_faults bound seconds fs = Some e \<Longrightarrow> \<exists>f\<in>set fs. validate_fault bound seconds f = Some e"
  by (induction fs) (auto split: option.splits)

text \<open>C25: A \<open>run_for\<close> with a duration that is negative or not finite, or with an invalid fault anywhere in
  its list, raises and leaves the world exactly as it was: no fault before the invalid one is
  committed, nothing is drawn, recorded or scheduled.\<close>

theorem run_for_rejects:
  assumes "\<not> isfinite seconds \<or> py_lt seconds (Fin 0) \<or>
    (\<exists>f\<in>set faults. validate_fault (bound_addresses w) seconds f \<noteq> None)"
  shows "\<exists>k. run_for seconds faults w = (w, Reply (RExn (exn (SeedloopError k))))"
proof (cases "\<not> isfinite seconds \<or> py_lt seconds (Fin 0)")
  case False
  then obtain e where e: "validate_faults (bound_addresses w) seconds faults = Some e"
    using assms validate_faults_None [of "bound_addresses w" seconds faults] by fastforce
  then obtain k where "e = SeedloopError k" using validate_faults_Some validate_fault_kind by blast
  with False e show ?thesis by (auto simp: run_for_def)
qed (auto simp: run_for_def)

theorem run_for_rejects_witness:
  "\<exists>k. run_for (Fin 1) [CrashFault (Some (AddrArg 0)) None, UnknownFault] demo_world =
    (demo_world, Reply (RExn (exn (SeedloopError k))))"
  by (rule run_for_rejects) simp

lemma sleep_waits:
  assumes "0 < s" "\<not> closed w" "py_add (sl_time w) (Fin s) \<noteq> NaN"
  shows "\<exists>w' t f n. sleep (Fin s) w = (w', Wait (FSleep t f) (Some f)) \<and> timeline w' = timeline w \<and>
    (py_add (sl_time w) (Fin s), n, (t, SetResultUnlessCancelled f)) \<in> set (sl_timers w')"
proof -
  let ?w = "fst (call_later (Fin s) (SetResultUnlessCancelled (next_fut w)) (fst (create_future w)))"
  have "sleep (Fin s) w = (?w, Wait (FSleep (next_handle w) (next_fut w)) (Some (next_fut w)))"
    using assms by (simp add: sleep_def isnan_def create_future_def call_later_def call_at_def)
  moreover have "timeline ?w = timeline w" by (simp add: call_later_def call_at_def create_future_def)
  moreover have "\<exists>n. (py_add (sl_time w) (Fin s), n, (next_handle w, SetResultUnlessCancelled (next_fut w))) \<in> set (sl_timers ?w)"
    using assms by (auto simp: call_later_def call_at_def create_future_def isnan_def heappush_def set_insort_key)
  ultimately show ?thesis by blast
qed



end
