(* ===== verification/Drive_Guarantees.thy ===== *)
theory Drive_Guarantees
  imports World_Guarantees
begin

text \<open>
  What a drive promises the caller of \<open>check\<close> and \<open>replay\<close>: it comes back within its allowance, it
  passes only if the scenario and every started node did, a failure is never replaced by a later
  error, and the teardown leaves no task behind.
\<close>

section \<open>A drive comes back\<close>

text \<open>C14: A drive with a step limit always comes back, with the loop closed, unless user code itself never
  came back: no scenario, no predicate and no cancel handler can keep a limited run going.\<close>

theorem drive_returns:
  assumes "world_ok r0 w" and "max_steps w = Some n"
  shows "\<exists>w' e. drive False (Some c) w = Some (w', e) \<and> (closed w' \<or> e = Diverged)"
proof -
  from drive_driven [OF assms, of c] obtain w' e v where
    "drive False (Some c) w = Some (w', e)" "w' = close_world v \<or> w' = v \<and> e = Diverged"
    unfolding driven_def by blast
  moreover have "closed (close_world v)" by (simp add: close_world_def)
  ultimately show ?thesis by blast
qed

theorem drive_returns_witness:
  "\<exists>w' e. drive False (Some (Op (ORunUntil (\<lambda>n t. Fails) None) (\<lambda>r. Return))) demo_world = Some (w', e) \<and>
    (closed w' \<or> e = Diverged)"
  by (rule drive_returns [OF demo_world_ok]) simp

section \<open>Teardown leaves nothing running\<close>

lemma pending_close [simp]: "pending_tasks (close_world w) = pending_tasks w"
  by (simp add: pending_tasks_def close_world_def task_seq_def fut_done_def)

lemma cancel_rounds_Done: "cancel_rounds n w = Some (w', Done) \<Longrightarrow> pending_tasks w' = []"
  by (induction n arbitrary: w) (auto simp: Let_def split: if_splits prod.splits option.splits outcome.splits)

lemma secondary_cases:
  assumes "secondary f (w, e) = (w', f', e')"
  shows "w' = w" and "e' = Done \<Longrightarrow> e = Done \<and> f' = f \<or> f \<noteq> None"
    and "f = Some x \<Longrightarrow> \<exists>y. f' = Some y \<and> ekind y = ekind x"
    and "f = Some x \<Longrightarrow> e' = Raised z \<Longrightarrow> \<not> is_exception z"
    and "f = None \<Longrightarrow> f' = None \<and> e' = e"
  using assms by (auto simp: secondary_def note_on_def add_note_def split: outcome.splits if_splits option.splits)

lemma teardown_failure:
  assumes "teardown (Some x) w = Some (w', e)"
  shows "e = Diverged \<or> (\<exists>y. e = Raised y \<and> (ekind y = ekind x \<or> \<not> is_exception y))"
proof -
  let ?w2 = "w\<lparr>sl_hooks := [], tearing_down := True\<rparr>"
  obtain v d where c: "cancel_everything ?w2 = Some (v, d)"
    using assms by (auto simp: teardown_def)
  obtain w3 f d' where s: "secondary (Some x) (v, d) = (w3, f, d')" by (metis prod_cases3)
  obtain y where y: "f = Some y" "ekind y = ekind x" using secondary_cases(3) [OF s] by blast
  have "e = (case d' of Done \<Rightarrow> Raised y | Raised z \<Rightarrow> Raised (if ekind y \<noteq> ekind z then note_on (describe y) z else z)
      | Diverged \<Rightarrow> Diverged)"
    using assms c s y by (auto simp: teardown_def split: outcome.splits)
  moreover have "ekind (note_on n z) = ekind z" for n z by (simp add: note_on_def add_note_def)
  moreover have "is_exception (note_on n z) = is_exception z" for n z
    by (simp add: is_exception_def isinstance_exn_def note_on_def add_note_def)
  ultimately show ?thesis using y(2) secondary_cases(4) [OF s refl] by (auto split: outcome.splits)
qed

lemma ekind_note_on [simp]: "ekind (note_on n z) = ekind z"
  by (simp add: note_on_def add_note_def)

lemma ekind_replace_failure [simp]: "ekind (replace_failure f z) = ekind z"
  by (simp add: replace_failure_def split: option.splits)

lemma is_exception_kind: "ekind x = ekind y \<Longrightarrow> is_exception x = is_exception y"
  by (simp add: is_exception_def isinstance_exn_def)

lemma settle_drive_failure:
  assumes "settle_drive main (Some x) w = Some (v, f, e)"
  shows "\<exists>y. f = Some y \<and> ekind y = ekind x" and "e = Raised z \<Longrightarrow> \<not> is_exception z"
proof -
  let ?w = "(limit_teardown_steps 0 w)\<lparr>sl_hooks := []\<rparr>"
  let ?unwind = "\<lambda>q. case q of (w4, Some f, Done) \<Rightarrow> (w4, Some (unwind_note main w4 f), Done) | q' \<Rightarrow> q'"
  have "\<exists>r. ?unwind (secondary (Some x) r) = (v, f, e) \<or> secondary (Some x) r = (v, f, e)"
  proof (cases "fut_done main ?w")
    case True
    then obtain r where "secondary (Some x) r = (v, f, e)" using assms by (auto simp: settle_drive_def Let_def)
    then show ?thesis by blast
  next
    case False
    then have "map_option (\<lambda>r. ?unwind (secondary (Some x) r)) (settle_main main (cancel_task main ?w)) = Some (v, f, e)"
      using assms by (simp add: settle_drive_def Let_def)
    then obtain r where "?unwind (secondary (Some x) r) = (v, f, e)" unfolding map_option_eq_Some by blast
    then show ?thesis by blast
  qed
  then obtain r where r: "?unwind (secondary (Some x) r) = (v, f, e) \<or> secondary (Some x) r = (v, f, e)" by blast
  obtain w4 f' e' where s: "secondary (Some x) r = (w4, f', e')" by (metis prod_cases3)
  obtain w3 e3 where r3: "r = (w3, e3)" by fastforce
  obtain y where y: "f' = Some y" "ekind y = ekind x" using secondary_cases(3) [OF s [unfolded r3]] by blast
  have "ekind (unwind_note main w4 y) = ekind y" by (simp add: unwind_note_def split: fut_state.splits)
  then have "(f = Some y \<or> f = Some (unwind_note main w4 y)) \<and> e = e' \<and> ekind (unwind_note main w4 y) = ekind x"
    using r s y by (auto split: outcome.splits)
  then show "\<exists>y. f = Some y \<and> ekind y = ekind x" "e = Raised z \<Longrightarrow> \<not> is_exception z"
    using y(2) secondary_cases(4) [OF s [unfolded r3] refl, of z] by auto
qed

text \<open>C5: The failure that ends a run is never lost: whatever the scenario does while it is settled, and
  whatever cancelled tasks and their handlers raise in the teardown, the drive propagates that
  failure, or an interrupt (or user code never comes back).\<close>

theorem drive_keeps_failure:
  assumes "run_until_done run_cb run_hook main (Some ClearHooks) w = Some (w1, Raised x)"
    and "drive_main main w = Some (w', e)"
  shows "e = Diverged \<or> (\<exists>y. e = Raised y \<and> (ekind y = ekind x \<or> \<not> is_exception y))"
proof -
  obtain v f d where s: "settle_drive main (Some x) w1 = Some (v, f, d)" and
    r: "drive_end main (v, f, d) = Some (w', e)"
    using assms by (auto simp: drive_main_def split: option.splits)
  note st = settle_drive_failure [OF s]
  obtain y where y: "f = Some y" "ekind y = ekind x" using st(1) by blast
  show ?thesis
  proof (cases d)
    case Done
    then have "teardown (Some y) v = Some (w', e)" using r y by (simp add: drive_end_def)
    from teardown_failure [OF this] y(2) show ?thesis by simp
  next
    case (Raised z)
    then have "teardown (Some (replace_failure f z)) v = Some (w', e)" using r y by (simp add: drive_end_def)
    from teardown_failure [OF this]
    have "e = Diverged \<or> (\<exists>u. e = Raised u \<and> (ekind u = ekind z \<or> \<not> is_exception u))" by simp
    moreover have "\<not> is_exception u" if "ekind u = ekind z" for u
      using is_exception_kind [OF that] st(2) [OF Raised] by simp
    ultimately show ?thesis by blast
  next
    case Diverged
    then show ?thesis using r y by (simp add: drive_end_def)
  qed
qed

text \<open>A run that has spent its allowance.\<close>

definition demo_spent :: "(nat, nat, nat) world" where
  "demo_spent = demo_world\<lparr>sl_steps_left := Some 0, sl_step_error := Some LivelockError\<rparr>"

lemma step_forever_spent:
  "sl_steps_left w = Some 0 \<Longrightarrow> sl_step_error w = Some k \<Longrightarrow>
    step_forever cb hk w = Some (w, Raised (exn k))"
  by (subst step_forever.simps) (simp add: run_once_def count_step_def)

lemma demo_spent_run: "run_until_done run_cb run_hook 0 (Some ClearHooks) demo_spent =
    Some (demo_spent, Raised (exn LivelockError))"
  by (simp add: demo_spent_def run_until_done_def run_forever_def step_forever_spent reset_watch_def)

theorem drive_keeps_failure_witness:
  "\<exists>w' e. drive_main 0 demo_spent = Some (w', e) \<and>
    (e = Diverged \<or> (\<exists>y. e = Raised y \<and> (ekind y = LivelockError \<or> \<not> is_exception y)))"
proof -
  have "world_since zero_rng demo_spent demo_spent"
    unfolding demo_spent_def by (rule world_since_refl [OF demo_limited_ok])
  from drive_main_driven [OF this, of 0 0] obtain w' e where "drive_main 0 demo_spent = Some (w', e)"
    by (auto simp: demo_spent_def driven_def)
  with drive_keeps_failure [OF demo_spent_run this] show ?thesis by (auto simp: exn_def)
qed

section \<open>A drive that passes\<close>

lemma teardown_since:
  assumes "world_since r0 w0 w" and "sl_steps_left w = Some m" and "teardown f w = Some (w', e)"
  shows "since w0 w'"
proof -
  obtain v where v: "world_since r0 w0 v" "w' = close_world v \<or> w' = v"
    using teardown_driven [OF assms(1,2), of f] assms(3) unfolding driven_def by auto
  have "since v (close_world v)" by (rule since_same) (simp_all add: close_world_def)
  with v show ?thesis using since_trans [of w0 v] by (auto simp: world_since_def)
qed

lemma teardown_Done:
  assumes "teardown None w = Some (w', Done)"
  shows "pending_tasks w' = []" and "closed w'"
proof -
  obtain v d where c: "cancel_everything (w\<lparr>tearing_down := True\<rparr>) = Some (v, d)"
    "(case secondary None (v, d) of (w3, f, Done) \<Rightarrow> (close_world w3, case f of None \<Rightarrow> Done | Some e \<Rightarrow> Raised e)
      | (w3, f, Raised e) \<Rightarrow> (close_world w3, Raised (case f of
            Some x \<Rightarrow> if ekind x \<noteq> ekind e then note_on (describe x) e else e | None \<Rightarrow> e))
      | (w3, f, Diverged) \<Rightarrow> (w3, Diverged)) = (w', Done)"
    using assms by (auto simp: teardown_def)
  have "d = Done \<and> w' = close_world v" using c(2) by (cases d) (auto simp: secondary_def split: if_splits)
  then show "pending_tasks w' = []" "closed w'"
    using cancel_rounds_Done c(1) by (auto simp: cancel_everything_def) (simp add: close_world_def)
qed

lemma first_node_error_None:
  "first_node_error fs w = None \<longleftrightarrow> (\<forall>f\<in>set fs. \<forall>e. futs w f \<noteq> Failed e)"
  by (induction fs) (auto split: fut_state.splits)

lemma run_result_None:
  "run_result main w = None \<longleftrightarrow> futs w main = Result \<and> (\<forall>f\<in>set (started w). \<forall>e. futs w f \<noteq> Failed e)"
  by (auto simp: run_result_def first_node_error_None split: fut_state.splits)

lemma drive_end_Done:
  assumes "drive_end main (v, f, d) = Some (w', Done)"
  shows "run_result main v = None" and "teardown None v = Some (w', Done)"
proof -
  have "\<not> teardown (Some x) v = Some (w', Done)" for x using teardown_failure by fastforce
  then have "d = Done \<and> f = None \<and> teardown (run_result main v) v = Some (w', Done)"
    using assms by (cases d; cases f) (auto simp: drive_end_def)
  moreover have "run_result main v = None"
    using \<open>\<And>x. \<not> teardown (Some x) v = Some (w', Done)\<close> calculation by (cases "run_result main v") auto
  ultimately show "run_result main v = None" "teardown None v = Some (w', Done)" by simp_all
qed

text \<open>C15: A run passes only if it deserves to: when a drive ends normally the scenario's task finished with
  a result, no started node had failed when the teardown began, the teardown ended normally, every
  task is done and the loop is closed.\<close>

theorem drive_passes:
  assumes ok: "world_ok r0 w" and limit: "max_steps w = Some n"
    and pass: "drive False (Some c) w = Some (w', Done)"
  shows "futs w' (next_fut w) = Result \<and> pending_tasks w' = [] \<and> closed w' \<and>
    (\<exists>v. teardown None v = Some (w', Done) \<and> since v w' \<and>
      (\<forall>f\<in>set (started v). \<forall>e. futs v f \<noteq> Failed e))"
proof -
  let ?w = "limit_steps (max_steps w) (Some LivelockError) w"
  have ok1: "world_ok r0 ?w" using world_ok_steps [OF ok, of LivelockError] by (simp add: stopped_early_def)
  obtain w0 main where s: "spawn c ?w = (w0, main)" by fastforce
  have main: "main = next_fut w" "main < next_fut w0"
    using s by (auto simp: spawn_def create_future_def create_task_def call_soon_def limit_steps_def
        split: prod.splits if_splits)
  have f: "fine ?w w0" using fine_spawn [of ?w c] s by simp
  have st: "sl_steps_left w0 = Some n" using steps_fine [OF f] limit by (simp add: limit_steps_def)
  have ok0: "world_since r0 w0 w0" by (rule world_since_refl [OF world_ok_fine [OF ok1 f]])
  have d: "drive_main main w0 = Some (w', Done)" using pass s by (simp add: drive_def)
  obtain w1 e m where r: "run_until_done run_cb run_hook main (Some ClearHooks) w0 = Some (w1, e)"
    "world_since r0 w0 w1" "sl_steps_left w1 = Some m"
    using bounded_spends [OF ws.run_until_done_spends [OF ok0] st] unfolding bounded_def by blast
  define x where "x = (case e of Raised x \<Rightarrow> Some x
      | _ \<Rightarrow> if fut_done main w1 then None else Some (exn (PyError ''RuntimeError'')))"
  obtain v g d' k where sd: "settle_drive main x w1 = Some (v, g, d')" "world_since r0 w0 v" "sl_steps_left v = Some k"
    using settle_drive_ok [OF r(2)] by blast
  have "drive_end main (v, g, d') = Some (w', Done)"
    using d r(1) sd(1) by (cases e) (simp_all add: drive_main_def x_def)
  note de = drive_end_Done [OF this]
  have sv: "since v w'"
    using teardown_since [OF world_since_refl sd(3) de(2)] world_since_ok [OF sd(2)] by blast
  have "main < next_fut v" using main(2) sd(2) by (auto simp: world_since_def since_def futs_kept_def)
  then have "futs w' main = Result"
    using sv de(1) by (auto simp: run_result_None since_def futs_kept_def fut_done_def)
  then show ?thesis using main(1) teardown_Done [OF de(2)] de sv by (auto simp: run_result_None)
qed

text \<open>A scenario that returns at once.\<close>

lemmas run_eval = run_once_def count_step_def autojump_def fire_due_timers_def Let_def task_step_def fut_done_def
  upd_task_def task_end_def must_cancel_def finish_task_def complete_future_def after_step_def check_watch_def stop_def

lemma teardown_idle: "pending_tasks w = [] \<Longrightarrow> teardown None w = Some (close_world (w\<lparr>tearing_down := True\<rparr>), Done)"
proof -
  assume "pending_tasks w = []"
  then have "pending_tasks (w\<lparr>tearing_down := True\<rparr>) = []" by (simp add: pending_tasks_def task_seq_def fut_done_def)
  then have "cancel_everything (w\<lparr>tearing_down := True\<rparr>) = Some (w\<lparr>tearing_down := True\<rparr>, Done)"
    by (simp add: cancel_everything_def teardown_rounds_def numeral_eq_Suc)
  then show ?thesis by (simp add: teardown_def secondary_def)
qed

lemma demo_drive: "\<exists>w. drive False (Some Return) demo_world = Some (w, Done)"
  apply (simp add: drive_def spawn_def create_future_def create_task_def call_soon_def limit_steps_def)
  apply (simp add: drive_main_def run_until_done_def run_forever_def)
  apply (subst step_forever.simps)
  apply (simp add: run_eval numeral_eq_Suc)
  apply (subst step_forever.simps)
  apply (simp add: run_eval)
  apply (subst step_forever.simps)
  apply (simp add: run_eval reset_watch_def settle_drive_def limit_teardown_steps_def limit_steps_def drive_end_def run_result_def)
  apply (subst teardown_idle)
   apply (simp_all add: pending_tasks_def fut_done_def)
  done
theorem drive_passes_witness: "\<exists>w. drive False (Some Return) demo_world = Some (w, Done) \<and> futs w 0 = Result"
proof -
  obtain w where w: "drive False (Some Return) demo_world = Some (w, Done)" using demo_drive by blast
  have "max_steps demo_world = Some 10" by simp
  from drive_passes [OF demo_world_ok this w] w show ?thesis by auto
qed

end
