(* ===== verification/Net_Guarantees.thy ===== *)
theory Net_Guarantees
  imports Drive_Guarantees
begin

text \<open>
  What the network promises in every world a run reaches. The worlds of a run are those the drive of
  any scenario goes through: the world built from the seed with the scenario's task in its ready
  queue, closed under the steps of the loop and under everything the drive does between steps.
\<close>

section \<open>The worlds of a run\<close>

inductive drives :: "('m, 'v, 's) world \<Rightarrow> ('m, 'v, 's) world \<Rightarrow> bool" where
  drive_control: "drives w (w\<lparr>stopping := b, sl_watch := x, sl_stop_in := y, sl_settle := z\<rparr>)"
| drive_hooks: "drives w (w\<lparr>sl_hooks := []\<rparr>)"
| drive_limit: "drives w (limit_teardown_steps n w)"
| drive_cancel: "drives w (cancel_task f w)"
| drive_tearing: "drives w (w\<lparr>tearing_down := True\<rparr>)"
| drive_gather: "drives w (fst (gather fs w))"
| drive_watch: "drives w (add_done_callback f (User StopLoop) w)"
| drive_unwatch: "drives w (w\<lparr>fut_cbs := (fut_cbs w)(f := filter (\<lambda>c. \<not> is_stop_loop c) (fut_cbs w f))\<rparr>)"

inductive run_of :: "(int \<Rightarrow> string \<Rightarrow> rng) \<Rightarrow> int \<Rightarrow> nat option \<Rightarrow> 's \<Rightarrow> ('m, 'v, 's) world \<Rightarrow> bool"
  for streams sd limit objs where
  run_start: "run_of streams sd limit objs
     (fst (spawn c (limit_steps limit (Some LivelockError) (world_init streams sd limit objs))))"
| run_step: "run_of streams sd limit objs w \<Longrightarrow> run_of streams sd limit objs (fst (world_step w))"
| run_drives: "run_of streams sd limit objs w \<Longrightarrow> drives w w' \<Longrightarrow> run_of streams sd limit objs w'"

lemma world_ok_drives: "drives w w' \<Longrightarrow> world_ok r0 w \<Longrightarrow> world_ok r0 w'"
proof (induction rule: drives.induct)
  case (drive_control w b x y z)
  then show ?case by (rule wl.inv_ctl)
next
  case (drive_unwatch w f)
  from world_since_fut_cbs [OF world_since_refl [OF drive_unwatch]] show ?case by (rule world_since_ok)
qed (auto intro: world_since_ok [OF world_since_hooks [OF world_since_refl]]
  world_since_ok [OF world_since_limit [OF world_since_refl]] world_ok_tearing
  world_ok_fine [OF _ fine_cancel_task] world_ok_fine [OF _ fine_gather] world_ok_fine [OF _ fine_loop(3)])

lemma world_ok_step: "world_ok r0 w \<Longrightarrow> world_ok r0 (fst (world_step w))"
  using wl.run_once_facts(1) [of r0 w] by (cases "world_step w") (simp add: world_step_def)

lemma run_world_ok:
  "run_of streams sd limit objs w \<Longrightarrow> world_ok (streams sd ''net'') w"
proof (induction rule: run_of.induct)
  case (run_start c)
  have "world_ok (streams sd ''net'') (limit_steps limit (Some LivelockError) (world_init streams sd limit objs))"
    by (rule world_ok_steps [OF world_ok_init]) (simp add: stopped_early_def)
  then show ?case by (rule world_ok_fine) (rule fine_spawn)
next
  case (run_step w)
  from run_step.IH show ?case by (rule world_ok_step)
qed (auto intro: world_ok_drives)

lemma run_net_ok: "run_of streams sd limit objs w \<Longrightarrow> net_ok w"
  by (drule run_world_ok) (simp add: world_ok_def net_inv_def)

text \<open>A run whose scenario binds a reliable endpoint.\<close>

definition demo_bind :: "(nat, nat, nat) code" where
  "demo_bind = Op (OBind 1 True (Fin 0) (Fin 0)) (\<lambda>_. Return)"

definition demo_start :: "(nat, nat, nat) world" where
  "demo_start = fst (spawn demo_bind (limit_steps (Some 10) (Some LivelockError) demo_world))"

definition demo_run :: "(nat, nat, nat) world" where
  "demo_run = fst (world_step demo_start)"

lemma demo_run_of: "run_of (\<lambda>_ _. zero_rng) 1 (Some 10) 0 demo_run"
  unfolding demo_run_def demo_start_def demo_world_def by (intro run_of.intros)

lemma demo_bound: "map_of (endpoints demo_run) 1 = Some (new_endpoint 1 True (Fin 0) (Fin 0))"
  by (simp add: demo_run_def world_step_def demo_start_def spawn_def create_future_def create_task_def
      call_soon_def limit_steps_def)
    (simp add: run_eval numeral_eq_Suc demo_bind_def bind_ep_def probability_def unit_reply_def new_endpoint_def)

section \<open>Messages\<close>

text \<open>C6: No message is lost or invented: every copy of a message (the one sent and a duplicate, if the
  timeline records one) is dropped at the sender, delivered, dropped at the receiver's side, or
  still in flight, and exactly one of these.\<close>

theorem messages_conserved:
  assumes "run_of streams sd limit objs w"
  shows "n_ev SendEv mid s d (timeline w) + n_ev DuplicateEv mid s d (timeline w) =
    n_ev DropEv mid s d (timeline w) + n_ev DeliverEv mid s d (timeline w) +
    n_ev DropCrashedEv mid s d (timeline w) + n_ev DropPartitionedEv mid s d (timeline w) +
    n_flight mid s d (net_pend w)"
  using net_okD(2) [OF run_net_ok [OF assms]] by (simp add: flow_ok_def n_out_def)

theorem messages_conserved_witness:
  "n_ev SendEv 0 1 2 (timeline demo_run) + n_ev DuplicateEv 0 1 2 (timeline demo_run) =
    n_ev DropEv 0 1 2 (timeline demo_run) + n_ev DeliverEv 0 1 2 (timeline demo_run) +
    n_ev DropCrashedEv 0 1 2 (timeline demo_run) + n_ev DropPartitionedEv 0 1 2 (timeline demo_run) +
    n_flight 0 1 2 (net_pend demo_run)"
  by (rule messages_conserved [OF demo_run_of])

text \<open>C7: A reliable endpoint's links are FIFO channels: on each of them the messages that have come out,
  followed by those in flight, are exactly the messages sent, in the order they were sent. Nothing
  is lost before it comes out, nothing is duplicated, nothing overtakes.\<close>

theorem reliable_link_fifo:
  assumes "run_of streams sd limit objs w" and "map_of (endpoints w) s = Some ep" and "ep_reliable ep"
  shows "link_outs s d (timeline w) @ link_flights s d (net_pend w) = link_sends s d (timeline w)"
proof -
  have "reliable_at (map ep_static (endpoints w)) s" using assms(2,3) by (simp add: reliable_at_def map_of_static)
  then show ?thesis using net_okD(5) [OF run_net_ok [OF assms(1)]] by (simp add: link_ok_def)
qed

theorem reliable_link_fifo_witness:
  "link_outs 1 2 (timeline demo_run) @ link_flights 1 2 (net_pend demo_run) = link_sends 1 2 (timeline demo_run)"
  by (rule reliable_link_fifo [OF demo_run_of demo_bound]) (simp add: new_endpoint_def)

text \<open>Message ids number the sends of a run in order, without a gap, and no event about a message
  comes before the message is sent.\<close>

lemma sends_numbered:
  assumes "run_of streams sd limit objs w"
  shows "sends (timeline w) = [0..<next_mid w] \<and>
    sorted_wrt (\<lambda>e1 e2. \<forall>mid. send_mid e2 = Some mid \<longrightarrow> ev_mid e1 \<noteq> Some mid) (timeline w)"
  using net_okD(2,3) [OF run_net_ok [OF assms]] by (simp add: flow_ok_def causal_ok_def)

text \<open>The timeline is in the order of virtual time and never ahead of the clock.\<close>

lemma timeline_ordered:
  assumes "run_of streams sd limit objs w"
  shows "sorted (map ev_time (timeline w)) \<and> (\<forall>e\<in>set (timeline w). ev_time e \<le> sl_time w)"
  using net_okD(1) [OF run_net_ok [OF assms]] by (simp add: times_ok_def)

text \<open>C20: The latency stream is spent one draw per message and by nothing else: whatever faults, losses and
  duplicates a run has, its \<open>"net"\<close> generator stands exactly one \<open>random()\<close> call (two words) further
  for each message sent, so a fault never shifts another message's latency.\<close>

theorem one_draw_per_message:
  assumes "run_of streams sd limit objs w"
  shows "net_rng w = advance (2 * length (sends (timeline w))) (streams sd ''net'')"
proof -
  have "net_rng w = advance (2 * next_mid w) (streams sd ''net'')"
    using run_world_ok [OF assms] by (simp add: world_ok_def)
  moreover have "length (sends (timeline w)) = next_mid w"
    using net_okD(2) [OF run_net_ok [OF assms]] by (simp add: flow_ok_def)
  ultimately show ?thesis by simp
qed

theorem one_draw_per_message_witness:
  "net_rng demo_run = advance (2 * length (sends (timeline demo_run))) zero_rng"
  using one_draw_per_message [OF demo_run_of] by simp

section \<open>Faults\<close>

text \<open>C18: A crash is final: the crashed nodes are exactly those with a crash event, and after that event no
  message from or to the node is delivered.\<close>

theorem crash_is_final:
  assumes "run_of streams sd limit objs w"
  shows "crashed w = {n. \<exists>e\<in>set (timeline w). crash_node e = Some n} \<and>
    sorted_wrt (\<lambda>e1 e2. \<forall>n. crash_node e1 = Some n \<longrightarrow> \<not> delivers_at n e2) (timeline w)"
  using net_okD(8) [OF run_net_ok [OF assms]] by (simp add: crash_ok_def)

theorem crash_is_final_witness: "crashed demo_run = {n. \<exists>e\<in>set (timeline demo_run). crash_node e = Some n}"
  using crash_is_final [OF demo_run_of] by blast

text \<open>C19: Every fault window ends: while a scheduled partition or slow link is active, its end is still
  scheduled (as the only callback left of it), and a handle the user or the library cancels is
  never one of them.\<close>

theorem windows_end:
  assumes "run_of streams sd limit objs w"
  shows "(\<forall>fid gs. map_of (fault_partitions w) fid = Some gs \<longrightarrow>
      filter (part_about fid) (net_pend w) = [EndFaultPartition fid]) \<and>
    (\<forall>fid x. map_of (fault_slow_links w) fid = Some x \<longrightarrow>
      filter (slow_about fid) (net_pend w) = [EndSlowLink fid]) \<and>
    (\<forall>h\<in>cancelled w. \<not> is_net (snd h))"
proof (intro conjI allI impI)
  note d = net_okD(9,10) [OF run_net_ok [OF assms]]
  show "filter (part_about fid) (net_pend w) = [EndFaultPartition fid]"
    if "map_of (fault_partitions w) fid = Some gs" for fid gs
  proof -
    have "window_at part_about (\<lambda>gs fid. BeginFaultPartition fid gs) EndFaultPartition (net_pend w)
        (fault_partitions w) (next_fault_id w) fid"
      using d(1) unfolding window_ok_def by blast
    then show ?thesis using that by (simp add: window_at_def)
  qed
  show "filter (slow_about fid) (net_pend w) = [EndSlowLink fid]"
    if "map_of (fault_slow_links w) fid = Some x" for fid x
  proof -
    have "window_at slow_about (\<lambda>(p, x) fid. BeginSlowLink fid p x) EndSlowLink (net_pend w)
        (fault_slow_links w) (next_fault_id w) fid"
      using d(2) unfolding window_ok_def by blast
    then show ?thesis using that by (simp add: window_at_def)
  qed
  show "\<forall>h\<in>cancelled w. \<not> is_net (snd h)"
    using run_world_ok [OF assms] by (simp add: world_ok_def net_inv_def base_ok_def handles_ok_def)
qed

theorem windows_end_witness: "cancelled demo_run \<inter> {h. is_net (snd h)} = {}"
  using windows_end [OF demo_run_of] by blast

end
