(* ===== verification/User_Code.thy ===== *)
theory User_Code
  imports Net_Guarantees
begin

text \<open>
  Reasoning about the code a scenario runs. \<open>J\<close> is a joint invariant of the user's objects and of the
  pool of messages ever sent. Code is \<open>ok\<close> when, run from a state where \<open>J\<close> holds, each stretch up to
  its next suspension keeps \<open>J\<close>, sends only messages of the pool, and leaves code that is ok from
  every later state where \<open>J\<close> holds; it never raises an invariant violation of its own, and the
  predicates it registers follow from \<open>J\<close>. \<open>users_ok\<close> says this of everything a world still has to
  run; here it is kept by every operation, callback and hook, whatever the network does.
\<close>

section \<open>Code that keeps a joint invariant\<close>

type_synonym 'm pool = "(int \<times> int \<times> 'm) set"

definition no_violation_kind :: "exn_kind \<Rightarrow> bool" where
  "no_violation_kind k = (\<forall>n t. k \<noteq> InvariantError n t)"

definition no_violation :: "exn \<Rightarrow> bool" where
  "no_violation e = no_violation_kind (ekind e)"

definition implied :: "('s \<Rightarrow> 'm pool \<Rightarrow> bool) \<Rightarrow> 's pred \<Rightarrow> bool" where
  "implied J p = (\<forall>h M t. J h M \<longrightarrow> p h t = Holds)"

definition tame :: "'s pred \<Rightarrow> bool" where
  "tame p = (\<forall>h t e. p h t = PredRaises e \<longrightarrow> no_violation e)"

fun sub_codes :: "('m, 'v, 's, 'c) op \<Rightarrow> 'c list" where
  "sub_codes (OStart cs) = cs"
| "sub_codes (OCallSoon c) = [c]"
| "sub_codes (OCallAt t c) = [c]"
| "sub_codes (OCallLater t c) = [c]"
| "sub_codes (OSpawn c) = [c]"
| "sub_codes (OOnDone f c) = [c]"
| "sub_codes _ = []"

text \<open>What an operation asks of its arguments, apart from the code it passes on.\<close>

fun args_ok :: "('s \<Rightarrow> 'm pool \<Rightarrow> bool) \<Rightarrow> 'm pool \<Rightarrow> ('m, 'v, 's, 'c) op \<Rightarrow> bool" where
  "args_ok J M (OSend a d m) = ((a, d, m) \<in> M)"
| "args_ok J M (OAlways n p) = implied J p"
| "args_ok J M (ORunUntil p d) = tame p"
| "args_ok J M (OTimeoutEnd i err) = (\<forall>e. err = Some e \<longrightarrow> no_violation e)"
| "args_ok J M _ = True"

definition reply_good :: "'m reply \<Rightarrow> bool" where
  "reply_good r = (\<forall>e. r = RExn e \<longrightarrow> no_violation e)"

fun op_reply :: "'m pool \<Rightarrow> ('m, 'v, 's, 'c) op \<Rightarrow> 'm reply \<Rightarrow> bool" where
  "op_reply M (ORecv a) (RItem s m) = ((s, a, m) \<in> M)"
| "op_reply M _ r = reply_good r"

inductive ok :: "('s \<Rightarrow> 'm pool \<Rightarrow> bool) \<Rightarrow> ('m, 'v, 's) code \<Rightarrow> 's \<Rightarrow> 'm pool \<Rightarrow> bool" for J where
  ok_return: "ok J Return h M"
| ok_throw: "no_violation e \<Longrightarrow> ok J (Throw e) h M"
| ok_hang: "ok J Hang h M"
| ok_heap: "M \<subseteq> M' \<Longrightarrow> J (f h) M' \<Longrightarrow> ok J (k h) (f h) M' \<Longrightarrow> ok J (Heap f k) h M"
| ok_op: "args_ok J M x \<Longrightarrow>
    (\<And>c h' M'. c \<in> set (sub_codes x) \<Longrightarrow> M \<subseteq> M' \<Longrightarrow> J h' M' \<Longrightarrow> ok J c h' M') \<Longrightarrow>
    (\<And>r h' M'. M \<subseteq> M' \<Longrightarrow> J h' M' \<Longrightarrow> op_reply M' x r \<Longrightarrow> ok J (k r) h' M') \<Longrightarrow>
    ok J (Op x k) h M"

inductive_cases ok_throwE: "ok J (Throw e) h M"
inductive_cases ok_heapE: "ok J (Heap f k) h M"
inductive_cases ok_opE: "ok J (Op x k) h M"

section \<open>Everything a world still has to run\<close>

text \<open>Code that is ok from any later state.\<close>

definition steady :: "('s \<Rightarrow> 'm pool \<Rightarrow> bool) \<Rightarrow> 'm pool \<Rightarrow> ('m, 'v, 's) code \<Rightarrow> bool" where
  "steady J M c = (\<forall>h M'. M \<subseteq> M' \<longrightarrow> J h M' \<longrightarrow> ok J c h M')"

fun frame_reply :: "'m pool \<Rightarrow> frame \<Rightarrow> 'm reply \<Rightarrow> bool" where
  "frame_reply M (FRecv a) (RItem s m) = ((s, a, m) \<in> M)"
| "frame_reply M _ r = reply_good r"

definition resumes :: "('s \<Rightarrow> 'm pool \<Rightarrow> bool) \<Rightarrow> 'm pool \<Rightarrow> frame \<Rightarrow> ('m reply \<Rightarrow> ('m, 'v, 's) code) \<Rightarrow> bool" where
  "resumes J M fr k = (\<forall>r h M'. M \<subseteq> M' \<longrightarrow> J h M' \<longrightarrow> frame_reply M' fr r \<longrightarrow> ok J (k r) h M')"

primrec cont_ok :: "('s \<Rightarrow> 'm pool \<Rightarrow> bool) \<Rightarrow> 'm pool \<Rightarrow> ('m, 'v, 's) cont \<Rightarrow> bool" where
  "cont_ok J M (Begin c) = steady J M c"
| "cont_ok J M (Resume fr k) = resumes J M fr k"
| "cont_ok J M Finished = True"

fun cb_ok :: "('s \<Rightarrow> 'm pool \<Rightarrow> bool) \<Rightarrow> 'm pool \<Rightarrow> ('m, ('m, 'v, 's) ucb) callback \<Rightarrow> bool" where
  "cb_ok J M (Deliver mid s d m) = ((s, d, m) \<in> M)"
| "cb_ok J M (User (Plain c)) = steady J M c"
| "cb_ok J M (User (TaskStep f (Some e))) = no_violation e"
| "cb_ok J M _ = True"

fun hook_ok :: "'s hook \<Rightarrow> bool" where
  "hook_ok CheckInvariants = True"
| "hook_ok (UntilCheck f p d) = tame p"

definition queues_ok :: "'m pool \<Rightarrow> (int \<times> 'm endpoint) list \<Rightarrow> bool" where
  "queues_ok M es = (\<forall>x\<in>set es. ep_address (snd x) = fst x \<and>
     (\<forall>i\<in>set (ep_queue (snd x)). (fst i, fst x, snd i) \<in> M))"

definition callbacks :: "('c, 'k, 'w) loop_scheme \<Rightarrow> 'c set" where
  "callbacks w = snd ` set (ready w) \<union> tcb ` set (sl_timers w) \<union> (\<Union>f. set (fut_cbs w f))"

definition users_ok :: "('s \<Rightarrow> 'm pool \<Rightarrow> bool) \<Rightarrow> 'm pool \<Rightarrow> ('m, 'v, 's) world \<Rightarrow> bool" where
  "users_ok J M w = (J (heap w) M \<and> (\<forall>c\<in>callbacks w. cb_ok J M c) \<and> queues_ok M (endpoints w) \<and>
     (\<forall>f t. tasks w f = Some t \<longrightarrow> cont_ok J M (t_cont t)) \<and>
     (\<forall>x\<in>set (invariants w). implied J (snd x)) \<and> (\<forall>k\<in>set (sl_hooks w). hook_ok k) \<and>
     (\<forall>f e. futs w f = Failed e \<longrightarrow> no_violation e) \<and>
     (\<forall>k. sl_step_error w = Some k \<longrightarrow> no_violation_kind k))"

text \<open>The pool only grows.\<close>

lemma steady_mono: "steady J M c \<Longrightarrow> M \<subseteq> M' \<Longrightarrow> steady J M' c"
  unfolding steady_def by blast

lemma cb_ok_mono: "cb_ok J M c \<Longrightarrow> M \<subseteq> M' \<Longrightarrow> cb_ok J M' c"
  by (cases "(J, M, c)" rule: cb_ok.cases) (auto intro: steady_mono)

lemma cont_ok_mono: "cont_ok J M c \<Longrightarrow> M \<subseteq> M' \<Longrightarrow> cont_ok J M' c"
  by (cases c) (auto simp: resumes_def intro: steady_mono)

lemma queues_ok_mono: "queues_ok M es \<Longrightarrow> M \<subseteq> M' \<Longrightarrow> queues_ok M' es"
  unfolding queues_ok_def by blast

lemma users_ok_heap:
  assumes "users_ok J M w" and "M \<subseteq> M'" and "J h M'"
  shows "users_ok J M' (w\<lparr>heap := h\<rparr>)"
proof -
  have c: "callbacks (w\<lparr>heap := h\<rparr>) = callbacks w" by (simp add: callbacks_def)
  show ?thesis
    using assms cb_ok_mono [of J M _ M'] cont_ok_mono [of J M _ M'] queues_ok_mono [of M _ M']
    unfolding users_ok_def c by simp blast
qed

text \<open>What an operation may do to a world.\<close>

lemma users_ok_step:
  assumes ok: "users_ok J M w" and "heap w' = heap w"
    and "callbacks w' \<subseteq> callbacks w \<union> {c. cb_ok J M c}"
    and "endpoints w' = endpoints w \<or> queues_ok M (endpoints w')"
    and "\<And>f t. tasks w' f = Some t \<Longrightarrow> tasks w f = Some t \<or> cont_ok J M (t_cont t)"
    and "set (invariants w') \<subseteq> set (invariants w) \<union> {x. implied J (snd x)}"
    and "set (sl_hooks w') \<subseteq> set (sl_hooks w) \<union> {k. hook_ok k}"
    and "\<And>f e. futs w' f = Failed e \<Longrightarrow> futs w f = Failed e \<or> no_violation e"
    and "\<And>k. sl_step_error w' = Some k \<Longrightarrow> sl_step_error w = Some k \<or> no_violation_kind k"
  shows "users_ok J M w'"
  using assms unfolding users_ok_def by (smt (verit) UnE mem_Collect_eq subsetD)

lemma users_okD:
  assumes "users_ok J M w"
  shows "J (heap w) M" "c \<in> callbacks w \<Longrightarrow> cb_ok J M c" "queues_ok M (endpoints w)"
    "tasks w f = Some t \<Longrightarrow> cont_ok J M (t_cont t)" "x \<in> set (invariants w) \<Longrightarrow> implied J (snd x)"
    "k \<in> set (sl_hooks w) \<Longrightarrow> hook_ok k" "futs w f = Failed e \<Longrightarrow> no_violation e"
    "sl_step_error w = Some i \<Longrightarrow> no_violation_kind i"
  using assms unfolding users_ok_def by blast+

lemma users_ok_same:
  assumes ok: "users_ok J M w" and "heap w' = heap w"
    and "callbacks w' \<subseteq> callbacks w \<union> {c. cb_ok J M c}"
    and "endpoints w' = endpoints w" "tasks w' = tasks w" "invariants w' = invariants w"
    and "sl_hooks w' = sl_hooks w" "futs w' = futs w" "sl_step_error w' = sl_step_error w"
  shows "users_ok J M w'"
  using assms(2-) by (intro users_ok_step [OF ok]) auto

named_theorems users_intros \<open>an operation keeps what user code promises\<close>

section \<open>Operations of the loop\<close>

lemma users_call_soon [users_intros]: "users_ok J M w \<Longrightarrow> cb_ok J M c \<Longrightarrow> users_ok J M (fst (call_soon c w))"
  by (erule users_ok_same) (auto simp: call_soon_def callbacks_def)

lemma users_call_soon_all: "users_ok J M w \<Longrightarrow> \<forall>c\<in>set cs. cb_ok J M c \<Longrightarrow> users_ok J M (call_soon_all cs w)"
  by (induction cs arbitrary: w) (simp_all add: users_call_soon)

lemma users_create_future [users_intros]: "users_ok J M w \<Longrightarrow> users_ok J M (fst (create_future w))"
  by (erule users_ok_step)
    (auto simp: create_future_def callbacks_def split: if_splits)

lemma users_complete_future [users_intros]:
  assumes ok: "users_ok J M w" and r: "\<And>e. r = Failed e \<Longrightarrow> no_violation e"
  shows "users_ok J M (fst (complete_future f r w))"
proof -
  let ?w = "w\<lparr>futs := (futs w)(f := r), fut_cbs := (fut_cbs w)(f := [])\<rparr>"
  have "users_ok J M ?w"
    by (rule users_ok_step [OF ok]) (use r in \<open>auto simp: callbacks_def split: if_splits\<close>)
  moreover have "\<forall>c\<in>set (fut_cbs w f). cb_ok J M c"
    using users_okD(2) [OF ok] by (auto simp: callbacks_def)
  ultimately show ?thesis using ok by (simp add: complete_future_def users_call_soon_all)
qed

lemma users_add_done_callback [users_intros]:
  "users_ok J M w \<Longrightarrow> cb_ok J M c \<Longrightarrow> users_ok J M (add_done_callback f c w)"
  by (cases "fut_done f w")
    (auto simp: add_done_callback_def intro: users_call_soon, erule users_ok_same,
      auto simp: callbacks_def split: if_splits)

lemma users_cancel_handle [users_intros]: "users_ok J M w \<Longrightarrow> users_ok J M (cancel_handle h w)"
  by (erule users_ok_same) (auto simp: cancel_handle_def callbacks_def)

lemma users_call_at [users_intros]:
  "users_ok J M w \<Longrightarrow> cb_ok J M c \<Longrightarrow> users_ok J M (fst (call_at t c w))"
  by (erule users_ok_same) (auto simp: call_at_def callbacks_def set_heappush)

lemma users_call_later [users_intros]:
  "users_ok J M w \<Longrightarrow> cb_ok J M c \<Longrightarrow> users_ok J M (fst (call_later t c w))"
  unfolding call_later_def by (rule users_call_at)

text \<open>Fields no promise is about.\<close>

lemma users_fields [users_intros]:
  assumes "users_ok J M w"
  shows "users_ok J M (stop w)" "users_ok J M (set_partition gs w)" "users_ok J M (heal w)"
    "users_ok J M (w\<lparr>net_rng := r\<rparr>)" "users_ok J M (w\<lparr>faults_rng := r\<rparr>)" "users_ok J M (w\<lparr>user_rng := r\<rparr>)"
    "users_ok J M (w\<lparr>next_mid := i\<rparr>)" "users_ok J M (w\<lparr>next_fault_id := i\<rparr>)" "users_ok J M (record_event ev w)"
    "users_ok J M (w\<lparr>started := fs\<rparr>)" "users_ok J M (w\<lparr>run_until_active := b\<rparr>)" "users_ok J M (w\<lparr>gather_left := g\<rparr>)"
    "users_ok J M (w\<lparr>current := x\<rparr>)" "users_ok J M (w\<lparr>timeouts := tms\<rparr>)" "users_ok J M (w\<lparr>tearing_down := b\<rparr>)"
    "users_ok J M (w\<lparr>reliable_clock := rc\<rparr>)" "users_ok J M (w\<lparr>sl_steps_left := n\<rparr>)"
    "users_ok J M (w\<lparr>stopping := b, sl_watch := f, sl_stop_in := k, sl_settle := s\<rparr>)"
    "users_ok J M (begin_fault_partition fid gs w)" "users_ok J M (end_fault_partition fid w)"
    "users_ok J M (begin_slow_link fid p fac w)" "users_ok J M (end_slow_link fid w)"
    "users_ok J M (begin_crash fid nd w)" "users_ok J M (world_record v w)"
  by (rule users_ok_same [OF assms]; auto simp: callbacks_def stop_def set_partition_def heal_def record_event_def
      begin_fault_partition_def end_fault_partition_def begin_slow_link_def end_slow_link_def begin_crash_def
      world_record_def)+

lemma users_hooks [users_intros]: "users_ok J M w \<Longrightarrow> set ks \<subseteq> set (sl_hooks w) \<union> {k. hook_ok k} \<Longrightarrow> users_ok J M (w\<lparr>sl_hooks := ks\<rparr>)"
  by (erule users_ok_step) (auto simp: callbacks_def)

lemma users_limit [users_intros]:
  "users_ok J M w \<Longrightarrow> \<forall>k. err = Some k \<longrightarrow> no_violation_kind k \<Longrightarrow> users_ok J M (limit_steps n err w)"
  by (erule users_ok_step) (auto simp: limit_steps_def callbacks_def)

section \<open>Operations of the network\<close>

lemma users_endpoints:
  "users_ok J M w \<Longrightarrow> queues_ok M es \<Longrightarrow> users_ok J M (w\<lparr>endpoints := es\<rparr>)"
  by (erule users_ok_step) (auto simp: callbacks_def)

lemma queues_ok_update:
  "queues_ok M es \<Longrightarrow> ep_address ep = a \<Longrightarrow> \<forall>i\<in>set (ep_queue ep). (fst i, a, snd i) \<in> M \<Longrightarrow>
    queues_ok M (AList.update a ep es)"
  using set_update_subset [of a ep es] by (force simp: queues_ok_def)

lemma queue_of:
  "users_ok J M w \<Longrightarrow> map_of (endpoints w) a = Some ep \<Longrightarrow>
    ep_address ep = a \<and> (\<forall>i\<in>set (ep_queue ep). (fst i, a, snd i) \<in> M)"
  by (drule users_okD(3)) (force simp: queues_ok_def dest: map_of_SomeD)

lemma users_bind [users_intros]: "users_ok J M w \<Longrightarrow> users_ok J M (fst (bind_ep a r l d w))"
  by (auto simp: bind_ep_def new_endpoint_def intro!: users_endpoints queues_ok_update dest: users_okD(3))

lemma and_then_users:
  "users_ok J M (fst r) \<Longrightarrow> (\<And>w. users_ok J M w \<Longrightarrow> users_ok J M (fst (f w))) \<Longrightarrow> users_ok J M (fst (and_then r f))"
  by (rule and_then_inv)

lemma users_net_uniform [users_intros]: "users_ok J M w \<Longrightarrow> users_ok J M (snd (net_uniform a b w))"
  "users_ok J M w \<Longrightarrow> users_ok J M (snd (faults_uniform a b w))"
  "users_ok J M w \<Longrightarrow> users_ok J M (snd (faults_happens p w))"
  by (simp_all add: net_uniform_def faults_uniform_def faults_happens_def case_prod_unfold Let_def users_intros)

lemma users_schedule_reliable:
  "users_ok J M w \<Longrightarrow> (s, d, m) \<in> M \<Longrightarrow> users_ok J M (fst (schedule_reliable mid s d m l w))"
  unfolding schedule_reliable_def Let_def by (intro users_intros) simp_all

lemma users_send [users_intros]:
  assumes ok: "users_ok J M w" and ep: "map_of (endpoints w) a = Some ep" and m: "(a, d, m) \<in> M"
  shows "users_ok J M (fst (send ep d m w))"
proof -
  have addr: "ep_address ep = a" using queue_of [OF ok ep] by simp
  have cb: "cb_ok J M (Deliver mid a d m)" for mid using m by simp
  note later = users_call_later [OF _ cb]
  have "users_ok J M (snd (net_uniform LAT_MIN LAT_MAX
      (record_event (MsgEv (sl_time w) SendEv (next_mid w) a d) (w\<lparr>next_mid := Suc (next_mid w)\<rparr>))))" (is "users_ok J M ?w2")
    by (intro users_intros ok)
  then show ?thesis
    unfolding send_def addr Let_def case_prod_unfold
    by (auto intro!: users_schedule_reliable later users_intros and_then_users m)
qed

lemma users_enqueue [users_intros]:
  assumes ok: "users_ok J M w" and m: "(fst i, a, snd i) \<in> M"
  shows "users_ok J M (fst (enqueue a i w))"
proof (cases "map_of (endpoints w) a")
  case (Some ep)
  let ?w = "w\<lparr>endpoints := AList.update a (ep\<lparr>ep_queue := ep_queue ep @ [i]\<rparr>) (endpoints w)\<rparr>"
  have "users_ok J M ?w"
    using queue_of [OF ok Some] m users_okD(3) [OF ok] by (intro users_endpoints [OF ok] queues_ok_update) auto
  then show ?thesis using Some
    by (auto simp: enqueue_def Let_def intro!: users_intros split: option.splits)
qed (simp add: enqueue_def ok)

lemma users_recv_loop:
  assumes ok: "users_ok J M w" and ep: "ep_address ep = a" "\<forall>i\<in>set (ep_queue ep). (fst i, a, snd i) \<in> M"
  shows "users_ok J M (fst (recv_loop a ep w))"
    and "snd (recv_loop a ep w) = Received i \<Longrightarrow> (fst i, a, snd i) \<in> M"
    and "snd (recv_loop a ep w) = RecvRaised e \<Longrightarrow> no_violation e"
proof -
  show "users_ok J M (fst (recv_loop a ep w))"
  proof (cases "ep_queue ep")
    case Nil
    have "users_ok J M (fst (create_future w))" by (intro users_intros ok)
    then have "users_ok J M ((fst (create_future w))\<lparr>endpoints := AList.update a
        (ep\<lparr>ep_waiter := Some (snd (create_future w))\<rparr>) (endpoints (fst (create_future w)))\<rparr>)"
      using ep by (intro users_endpoints queues_ok_update users_okD(3)) simp_all
    then show ?thesis using Nil by (simp add: recv_loop_def case_prod_unfold Let_def)
  next
    case (Cons i rest)
    with ep users_okD(3) [OF ok] show ?thesis
      by (auto simp: recv_loop_def intro!: users_endpoints [OF ok] queues_ok_update)
  qed
  show "snd (recv_loop a ep w) = Received i \<Longrightarrow> (fst i, a, snd i) \<in> M"
    "snd (recv_loop a ep w) = RecvRaised e \<Longrightarrow> no_violation e"
    using ep by (auto simp: recv_loop_def case_prod_unfold Let_def split: list.splits)
qed

definition recv_good :: "'m pool \<Rightarrow> int \<Rightarrow> 'm recv_result \<Rightarrow> bool" where
  "recv_good M a r = (case r of Received i \<Rightarrow> (fst i, a, snd i) \<in> M | RecvRaised e \<Rightarrow> no_violation e | _ \<Rightarrow> True)"

lemma own_errors [simp]:
  "no_violation (exn (PyError s))" "no_violation (exn (SeedloopError s))" "no_violation (exn (BoundaryError s))"
  "no_violation (exn (UsageError s))" "no_violation (exn LivelockError)" "no_violation (exn TeardownError)"
  "no_violation (exn DeadlockError)" "no_violation (add_note n e) = no_violation e"
  "no_violation_kind (PyError s)" "no_violation_kind LivelockError" "no_violation_kind TeardownError"
  by (simp_all add: no_violation_def no_violation_kind_def exn_def add_note_def)

lemma users_recv:
  assumes ok: "users_ok J M w"
  shows "users_ok J M (fst (recv a w))" and "recv_good M a (snd (recv a w))"
proof -
  have "users_ok J M (fst (recv a w)) \<and> recv_good M a (snd (recv a w))"
  proof (cases "map_of (endpoints w) a")
    case (Some ep)
    with queue_of [OF ok Some] show ?thesis
      using users_recv_loop [OF ok, of ep a] ok
      by (auto simp: recv_def recv_good_def simp del: split_paired_All split: recv_result.splits)
  qed (simp add: recv_def recv_good_def ok)
  then show "users_ok J M (fst (recv a w))" "recv_good M a (snd (recv a w))" by blast+
qed

lemma users_recv_wake:
  assumes ok: "users_ok J M w" and e: "\<And>e. err = Some e \<Longrightarrow> no_violation e"
  shows "users_ok J M (fst (recv_wake a err w))" and "recv_good M a (snd (recv_wake a err w))"
proof -
  have "users_ok J M (fst (recv_wake a err w)) \<and> recv_good M a (snd (recv_wake a err w))"
  proof (cases "map_of (endpoints w) a")
    case None
    then show ?thesis by (simp add: recv_wake_def ok recv_good_def)
  next
    case (Some ep)
    let ?ep = "ep\<lparr>ep_waiter := None\<rparr>"
    let ?w = "w\<lparr>endpoints := AList.update a ?ep (endpoints w)\<rparr>"
    have q: "ep_address ?ep = a" "\<forall>i\<in>set (ep_queue ?ep). (fst i, a, snd i) \<in> M" using queue_of [OF ok Some] by auto
    have w: "users_ok J M ?w" by (intro users_endpoints [OF ok] queues_ok_update users_okD(3) [OF ok] q)
    from users_recv_loop [OF w q] w e Some show ?thesis
      by (auto simp: recv_wake_def Let_def recv_good_def split: option.splits recv_result.splits)
  qed
  then show "users_ok J M (fst (recv_wake a err w))" "recv_good M a (snd (recv_wake a err w))" by blast+
qed

lemma users_run_net:
  assumes "users_ok J M w" and "cb_ok J M c"
  shows "users_ok J M (fst (run_net c w))" and "snd (run_net c w) = Raised e \<Longrightarrow> no_violation e"
proof -
  show "users_ok J M (fst (run_net c w))"
    using assms by (cases c) (auto simp: deliver_def intro!: users_intros)
  show "snd (run_net c w) = Raised e \<Longrightarrow> no_violation e"
    by (cases c) (auto simp: deliver_def enqueue_def complete_future_def Let_def split: option.splits if_splits)
qed

section \<open>What calls end with\<close>

definition ends_well :: "outcome \<Rightarrow> bool" where
  "ends_well r = (\<forall>e. r = Raised e \<longrightarrow> no_violation e)"

lemma ends_well_simps [simp]: "ends_well Done" "ends_well Diverged" "ends_well (Raised e) = no_violation e"
  by (simp_all add: ends_well_def)

lemma ends_well_calls [simp]:
  "ends_well (snd (call_soon c w))" "ends_well (snd (call_at t c w))" "ends_well (snd (call_later t c w))"
  "ends_well (snd (complete_future f r w))" "ends_well (snd (bind_ep a rel l d w))" "ends_well (snd (run_net c w))"
  by (simp_all add: call_soon_def call_later_def call_at_def complete_future_def bind_ep_def)
    (use users_run_net(2) in \<open>auto simp: ends_well_def\<close>,
     cases c; auto simp: deliver_def enqueue_def complete_future_def Let_def split: option.splits if_splits)

lemma ends_well_and_then: "ends_well (snd r) \<Longrightarrow> (\<And>w. ends_well (snd (f w))) \<Longrightarrow> ends_well (snd (and_then r f))"
  by (cases r; cases "snd r") auto

lemma ends_well_send [simp]: "ends_well (snd (send ep d m w))"
  by (auto simp: send_def schedule_reliable_def Let_def case_prod_unfold intro!: ends_well_and_then)

definition res_ok :: "('s \<Rightarrow> 'm pool \<Rightarrow> bool) \<Rightarrow> 'm pool \<Rightarrow> ('m, 'v, 's) world \<times> outcome \<Rightarrow> bool" where
  "res_ok J M r = (users_ok J M (fst r) \<and> ends_well (snd r))"

lemma res_ok_call_at [users_intros]: "users_ok J M w \<Longrightarrow> cb_ok J M c \<Longrightarrow> res_ok J M (call_at t c w)"
  by (simp add: res_ok_def users_intros)

lemma res_ok_and_then [users_intros]:
  "res_ok J M r \<Longrightarrow> (\<And>w. users_ok J M w \<Longrightarrow> res_ok J M (f w)) \<Longrightarrow> res_ok J M (and_then r f)"
  by (cases r; cases "snd r") (auto simp: res_ok_def)

section \<open>Scheduling faults\<close>

lemma users_commit_partition [users_intros]:
  assumes "users_ok J M w"
  shows "res_ok J M (commit_partition_fault gs t0 sec w)"
proof -
  have "res_ok J M (let w0 = w\<lparr>faults_rng := r\<rparr>;
          (start, w1) = faults_uniform (Fin 0) sec w0;
          (fin, w2) = faults_uniform start sec w1;
          fid = next_fault_id w2;
          w3 = record_event (PartitionScheduled t0 fid (map sorted_list_of_set groups)
                 (py_add t0 start) (py_add t0 fin)) (w2\<lparr>next_fault_id := Suc fid\<rparr>)
      in and_then (call_at (py_add t0 start) (BeginFaultPartition fid groups) w3)
           (call_at (py_add t0 fin) (EndFaultPartition fid)))" for r groups
    unfolding Let_def case_prod_unfold by (intro users_intros assms) simp_all
  note rest = this
  show ?thesis
  proof (cases "if gs \<noteq> Groups [] then Some (groups_sets gs, faults_rng w)
      else draw_bipartition (bound_addresses w) (faults_rng w)")
    case None
    then show ?thesis using assms by (simp only: commit_partition_fault_def option.case) (simp add: res_ok_def)
  next
    case (Some p)
    then show ?thesis using rest by (cases p) (simp only: commit_partition_fault_def option.case prod.case)
  qed
qed

lemma users_commit_slow [users_intros]:
  assumes "users_ok J M w"
  shows "res_ok J M (commit_slow_resolved fac t0 sec a b w)"
proof -
  have "users_ok J M (snd (case fac of Some f \<Rightarrow> (f, w) | None \<Rightarrow> faults_uniform (Fin 2) (Fin 50) w))"
    using assms by (auto split: option.splits intro!: users_intros)
  then show ?thesis
    unfolding commit_slow_resolved_def Let_def case_prod_unfold by (intro users_intros) simp_all
qed

lemma users_with_choice [users_intros]:
  "users_ok J M w \<Longrightarrow> (\<And>x w. users_ok J M w \<Longrightarrow> res_ok J M (f x w)) \<Longrightarrow> res_ok J M (with_choice xs w f)"
  by (auto simp: with_choice_def res_ok_def users_intros split: choice_result.splits)

lemma users_commit_fault [users_intros]: "users_ok J M w \<Longrightarrow> res_ok J M (commit_fault f sec w)"
proof (cases f)
  case (CrashFault nd tm)
  assume ok: "users_ok J M w"
  then have "users_ok J M (snd (case tm of Some t \<Rightarrow> (t, w) | None \<Rightarrow> faults_uniform (Fin 0) sec w))"
    by (auto split: option.splits intro!: users_intros)
  then show ?thesis using CrashFault ok
    by (auto simp: commit_crash_fault_def Let_def case_prod_unfold intro!: users_intros split: option.split)
qed (auto simp: commit_slow_link_fault_def intro!: users_intros split: option.split, simp add: res_ok_def)

lemma users_commit_faults [users_intros]: "users_ok J M w \<Longrightarrow> res_ok J M (commit_faults fs sec w)"
  by (induction fs arbitrary: w) (auto intro!: users_intros, simp add: res_ok_def)

end
