(* ===== verification/User_World.thy ===== *)
theory User_World
  imports User_Code
begin

text \<open>
  User code that keeps its joint invariant keeps it in a world: every operation it calls, every
  stretch of a task, every callback and hook of the loop leaves a world whose remaining code is still
  ok, for a pool of messages that has only grown.
\<close>

section \<open>Tasks\<close>

lemma users_tasks [users_intros]:
  "users_ok J M w \<Longrightarrow> (\<And>f t. ts f = Some t \<Longrightarrow> tasks w f = Some t \<or> cont_ok J M (t_cont t)) \<Longrightarrow> users_ok J M (w\<lparr>tasks := ts\<rparr>)"
  by (erule users_ok_step) (auto simp: callbacks_def)

lemma users_upd_task [users_intros]:
  assumes ok: "users_ok J M w" and g: "\<And>t. cont_ok J M (t_cont t) \<Longrightarrow> cont_ok J M (t_cont (g t))"
  shows "users_ok J M (upd_task f g w)"
  unfolding upd_task_def
  by (rule users_tasks [OF ok]) (use g users_okD(4) [OF ok] in \<open>auto split: if_splits\<close>)

lemma users_spawn [users_intros]:
  assumes ok: "users_ok J M w" and c: "steady J M c"
  shows "users_ok J M (fst (spawn c w))"
proof -
  obtain w1 f where f: "create_future w = (w1, f)" by fastforce
  have 1: "users_ok J M w1" using users_create_future [OF ok] f by simp
  obtain w2 e s where t: "create_task (User (TaskStep f None)) w1 = (w2, e, s)" by (metis prod_cases3)
  have "users_ok J M (fst (call_soon (User (TaskStep f None)) w1))" by (intro users_intros 1) simp
  then have 2: "users_ok J M w2"
    using t by (auto simp: create_task_def split: prod.splits outcome.splits)
      (erule users_ok_same; auto simp: callbacks_def)
  then show ?thesis using f t c by (auto simp: spawn_def intro!: users_tasks split: if_splits)
qed

lemma users_start [users_intros]: "users_ok J M w \<Longrightarrow> \<forall>c\<in>set cs. steady J M c \<Longrightarrow> users_ok J M (start cs w)"
proof (induction cs arbitrary: w)
  case (Cons c cs)
  then have "users_ok J M (fst (spawn c w))" by (intro users_intros) simp_all
  with Cons show ?case by (auto simp: case_prod_unfold Let_def intro!: Cons.IH users_intros)
qed simp

lemma users_cancel_fut [users_intros]: "users_ok J M w \<Longrightarrow> users_ok J M (fst (cancel_fut n f w))"
proof (induction n arbitrary: f w)
  case (Suc n)
  then show ?case
    by (auto simp: Let_def case_prod_unfold intro!: users_intros Suc.IH split: option.splits)
qed simp

lemma users_cancel_task [users_intros]: "users_ok J M w \<Longrightarrow> users_ok J M (cancel_task f w)"
  unfolding cancel_task_def by (rule users_cancel_fut)

lemma users_cancel_user [users_intros]: "users_ok J M w \<Longrightarrow> users_ok J M (cancel_user n w)"
proof -
  have "users_ok J M w \<Longrightarrow> users_ok J M (fold cancel_handle hs w)" for hs
    by (induction hs arbitrary: w) (simp_all add: users_intros)
  then show "users_ok J M w \<Longrightarrow> users_ok J M (cancel_user n w)" unfolding cancel_user_def .
qed

section \<open>Operations of the world\<close>

lemma users_always [users_intros]: "users_ok J M w \<Longrightarrow> implied J p \<Longrightarrow> users_ok J M (always name p w)"
proof -
  assume ok: "users_ok J M w" and p: "implied J p"
  have 1: "users_ok J M (w\<lparr>invariants := invariants w @ [(name, p)]\<rparr>)"
    by (rule users_ok_step [OF ok]) (auto simp: callbacks_def p)
  have "users_ok J M (w\<lparr>invariants := invariants w @ [(name, p)], sl_hooks := sl_hooks w @ [CheckInvariants],
      invariants_hook_installed := True\<rparr>)"
    by (rule users_ok_step [OF ok]) (auto simp: callbacks_def p)
  with ok 1 show ?thesis by (simp add: always_def Let_def)
qed

lemma timeout_good [simp]: "no_violation timeout_error" "no_violation cancelled_error"
  by (simp_all add: timeout_error_def cancelled_error_def)

lemma users_until_check [users_intros]: "users_ok J M w \<Longrightarrow> tame p \<Longrightarrow> users_ok J M (fst (until_check f p d w))"
  by (auto simp: until_check_def tame_def intro!: users_intros split: presult.splits)

lemma until_check_result:
  "tame p \<Longrightarrow> snd (until_check f p d w) = HookHard e \<or> snd (until_check f p d w) = HookSoft e \<Longrightarrow> no_violation e"
  by (auto simp: until_check_def tame_def split: presult.splits if_splits)

lemma users_run_until_end [users_intros]: "users_ok J M w \<Longrightarrow> users_ok J M (run_until_end f timer w)"
  by (auto simp: run_until_end_def Let_def intro!: users_intros split: option.splits)

text \<open>How an operation answers: with a good reply now, or by waiting in a frame whose replies are good.\<close>

definition answers :: "('m pool \<Rightarrow> 'm reply \<Rightarrow> bool) \<Rightarrow> 'm pool \<Rightarrow> 'm op_result \<Rightarrow> bool" where
  "answers Q M r = (case r of Reply x \<Rightarrow> Q M x
     | Wait fr f \<Rightarrow> (\<forall>M' x. frame_reply M' fr x \<longrightarrow> Q M' x) | Hangs \<Rightarrow> True)"

lemma answers_simps [simp]:
  "answers Q M (Reply x) = Q M x" "answers Q M Hangs"
  "answers Q M (Wait fr f) = (\<forall>M' x. frame_reply M' fr x \<longrightarrow> Q M' x)"
  by (simp_all add: answers_def)

definition op_ok :: "('s \<Rightarrow> 'm pool \<Rightarrow> bool) \<Rightarrow> 'm pool \<Rightarrow> ('m pool \<Rightarrow> 'm reply \<Rightarrow> bool) \<Rightarrow>
    ('m, 'v, 's) world \<times> 'm op_result \<Rightarrow> bool" where
  "op_ok J M Q r = (users_ok J M (fst r) \<and> answers Q M (snd r))"

abbreviation any_good :: "'m pool \<Rightarrow> 'm reply \<Rightarrow> bool" where
  "any_good M x \<equiv> reply_good x"

lemma reply_good_simps [simp]: "reply_good ROk" "reply_good (RId i)" "reply_good (RTime t)" "reply_good (RReal x)"
  "reply_good (RItem s m)" "reply_good (RExn e) = no_violation e"
  by (simp_all add: reply_good_def)

lemma reply_of_good [simp]: "reply_good (reply_of err) = (\<forall>e. err = Some e \<longrightarrow> no_violation e)"
  by (simp add: reply_of_def split: option.splits)

lemma fut_reply_good: "users_ok J M w \<Longrightarrow> fut_reply f w = Some e \<Longrightarrow> no_violation e"
  by (auto simp: fut_reply_def dest: users_okD(7) split: fut_state.splits)

lemma frame_reply_good: "\<not> (\<exists>a. fr = FRecv a) \<Longrightarrow> frame_reply M fr x = reply_good x"
  by (cases fr) auto

lemma unit_reply_ok: "users_ok J M (fst r) \<Longrightarrow> ends_well (snd r) \<Longrightarrow> op_ok J M any_good (unit_reply r)"
  by (cases r; cases "snd r") (auto simp: op_ok_def unit_reply_def)

lemma handle_reply_ok: "users_ok J M (fst r) \<Longrightarrow> ends_well (snd r) \<Longrightarrow> op_ok J M any_good (handle_reply n r)"
  by (cases r; cases "snd r") (auto simp: op_ok_def handle_reply_def)

lemma users_sleep: "users_ok J M w \<Longrightarrow> op_ok J M any_good (sleep d w)"
proof -
  assume ok: "users_ok J M w"
  obtain w1 f where c: "create_future w = (w1, f)" by fastforce
  have "users_ok J M w1" using users_create_future [OF ok] c by simp
  then have 1: "users_ok J M (fst (call_later d (SetResultUnlessCancelled f) w1))" by (intro users_intros) simp_all
  obtain w2 e where l: "call_later d (SetResultUnlessCancelled f) w1 = (w2, e)" by fastforce
  have "ends_well e" using ends_well_calls(3) [of d "SetResultUnlessCancelled f" w1] l by simp
  with ok 1 c l show ?thesis
    by (cases e) (auto simp: sleep_def op_ok_def Let_def frame_reply_good)
qed

lemma users_run_for: "users_ok J M w \<Longrightarrow> op_ok J M any_good (run_for sec fs w)"
proof -
  assume ok: "users_ok J M w"
  obtain w1 e where c: "commit_faults fs sec w = (w1, e)" by fastforce
  have r: "res_ok J M (w1, e)" using users_commit_faults [OF ok, of fs sec] c by simp
  have "validate_faults (bound_addresses w) sec fs = Some k \<Longrightarrow> no_violation (exn k)" for k
    using validate_faults_Some [of "bound_addresses w" sec fs k] validate_fault_kind by fastforce
  with ok r c users_sleep [of J M w1 sec] show ?thesis
    by (cases e) (auto simp: run_for_def res_ok_def op_ok_def split: option.splits)
qed

lemma users_run_until:
  assumes ok: "users_ok J M w" and p: "tame p"
  shows "op_ok J M any_good (run_until p deadline w)"
proof (cases "run_until_active w \<or> (deadline \<noteq> None \<and> \<not> isfinite (the deadline))")
  case False
  let ?w0 = "w\<lparr>run_until_active := True\<rparr>"
  obtain w1 f where c: "create_future ?w0 = (w1, f)" by fastforce
  let ?at = "map_option (py_add (time w1)) deadline"
  let ?w2 = "w1\<lparr>sl_hooks := sl_hooks w1 @ [UntilCheck f p ?at]\<rparr>"
  let ?timer = "case ?at of None \<Rightarrow> None | Some t \<Rightarrow> Some (next_handle ?w2)"
  let ?w3 = "case ?at of None \<Rightarrow> ?w2 | Some t \<Rightarrow> fst (call_at t Nop ?w2)"
  obtain w4 r where u: "until_check f p ?at ?w3 = (w4, r)" by fastforce
  have "users_ok J M (fst (create_future ?w0))" by (intro users_intros ok)
  then have "users_ok J M ?w2" using c p by (auto intro!: users_hooks)
  then have "users_ok J M ?w3" by (cases deadline) (simp_all add: users_call_at)
  then have 4: "users_ok J M w4" using users_until_check [OF _ p, of J M ?w3 f ?at] u by simp
  have hard: "r = HookHard e \<Longrightarrow> no_violation e" for e
    using until_check_result [OF p, of f ?at ?w3 e] u by simp
  have e: "run_until p deadline w = (case r of HookHard e \<Rightarrow> (run_until_end f ?timer w4, Reply (RExn e))
      | _ \<Rightarrow> if fut_done f w4 then (run_until_end f ?timer w4, Reply (reply_of (fut_reply f w4)))
             else (w4, Wait (FUntil f ?timer) (Some f)))"
    using False c u by (auto simp: run_until_def Let_def split: hook_result.splits)
  show ?thesis
    unfolding e using 4 hard fut_reply_good [OF 4]
    by (auto simp: op_ok_def frame_reply_good intro!: users_intros split: hook_result.split)
qed (use ok in \<open>auto simp: run_until_def op_ok_def\<close>)

lemma users_enter_timeout:
  assumes ok: "users_ok J M w"
  shows "op_ok J M any_good (enter_timeout t w)"
proof (cases "current w")
  case (Some f)
  let ?i = "next_handle w"
  let ?w1 = "w\<lparr>timeouts := (timeouts w)(?i \<mapsto> Timeout f (cancels f w) False)\<rparr>"
  let ?r = "if py_le t (time ?w1) then call_soon (User (Expire ?i)) ?w1 else call_at t (User (Expire ?i)) ?w1"
  have "users_ok J M (fst ?r)" by (auto intro!: users_intros ok)
  moreover have "ends_well (snd ?r)"
    by (cases "py_le t (time ?w1)") (simp_all only: if_True if_False ends_well_calls)
  moreover have "enter_timeout t w = handle_reply ?i ?r"
    using Some by (simp only: enter_timeout_def Let_def option.case handle_reply_def)
  ultimately show ?thesis using handle_reply_ok by metis
qed (use ok in \<open>simp add: enter_timeout_def op_ok_def\<close>)

lemma users_expire [users_intros]: "users_ok J M w \<Longrightarrow> users_ok J M (expire i w)"
  by (auto simp: expire_def Let_def intro!: users_intros split: option.splits timeout.splits)

lemma users_exit_timeout:
  "users_ok J M w \<Longrightarrow> (\<And>e. err = Some e \<Longrightarrow> no_violation e) \<Longrightarrow> op_ok J M any_good (exit_timeout i err w)"
  by (auto simp: exit_timeout_def Let_def op_ok_def intro!: users_intros split: option.splits timeout.splits bool.splits)

lemma op_reply_any: "\<not> (\<exists>a. x = ORecv a) \<Longrightarrow> (\<lambda>M. op_reply M x) = any_good"
  by (intro ext; cases x) auto

lemma users_do_op:
  assumes ok: "users_ok J M w" and args: "args_ok J M x" and sub: "\<And>c. c \<in> set (sub_codes x) \<Longrightarrow> steady J M c"
  shows "op_ok J M (\<lambda>M. op_reply M x) (do_op x w)"
proof (cases x)
  case (ORecv a)
  obtain w' r where r: "recv a w = (w', r)" by fastforce
  have "users_ok J M w'" "recv_good M a r" using users_recv [OF ok, of a] r by simp_all
  moreover have "frame_reply M' (FRecv a) y \<Longrightarrow> op_reply M' (ORecv a) y" for M' y by (cases y) auto
  ultimately show ?thesis using ORecv r
    by (cases r) (auto simp: recv_reply_def op_ok_def recv_good_def)
next
  case (OSend a d m)
  then show ?thesis using ok args
    by (auto simp: op_reply_any op_ok_def [where r = "(_, _)"] split: option.split intro!: unit_reply_ok users_intros)
next
  case (OAwait f)
  then show ?thesis using ok fut_reply_good [OF ok] by (auto simp: op_reply_any op_ok_def frame_reply_good)
next
  case (OReal r)
  then show ?thesis using ok by (simp add: op_ok_def real_call_def reject_def)
qed (use ok args sub users_run_for [OF ok] users_run_until [OF ok] users_sleep [OF ok] users_enter_timeout [OF ok]
    users_exit_timeout [OF ok] in
  \<open>auto simp: op_reply_any op_ok_def [where r = "(_, _)"] Let_def case_prod_unfold
    intro!: unit_reply_ok handle_reply_ok users_intros\<close>)

section \<open>Running user code\<close>

definition ended_ok :: "('s \<Rightarrow> 'm pool \<Rightarrow> bool) \<Rightarrow> 'm pool \<Rightarrow> ('m, 'v, 's) ended \<Rightarrow> bool" where
  "ended_ok J M e = (case e of Threw x \<Rightarrow> no_violation x | Waiting fr f k \<Rightarrow> resumes J M fr k | _ \<Rightarrow> True)"

lemma ended_ok_simps [simp]:
  "ended_ok J M Returned" "ended_ok J M Hung" "ended_ok J M (Threw x) = no_violation x"
  "ended_ok J M (Waiting fr f k) = resumes J M fr k"
  by (simp_all add: ended_ok_def)

text \<open>A call that may add to the pool.\<close>

definition grows :: "('s \<Rightarrow> 'm pool \<Rightarrow> bool) \<Rightarrow> 'm pool \<Rightarrow> ('m, 'v, 's) world \<Rightarrow> ('m pool \<Rightarrow> bool) \<Rightarrow> bool" where
  "grows J M w P = (\<exists>M'. M \<subseteq> M' \<and> users_ok J M' w \<and> P M')"

lemma growsI: "users_ok J M w \<Longrightarrow> P M \<Longrightarrow> grows J M w P"
  unfolding grows_def by blast

lemma grows_weaken: "grows J M' w P \<Longrightarrow> M \<subseteq> M' \<Longrightarrow> (\<And>M''. M' \<subseteq> M'' \<Longrightarrow> P M'' \<Longrightarrow> Q M'') \<Longrightarrow> grows J M w Q"
  unfolding grows_def by blast

lemma users_exec:
  assumes "ok J c (heap w) M" and "users_ok J M w"
  shows "grows J M (fst (exec c w)) (\<lambda>M'. ended_ok J M' (snd (exec c w)))"
  using assms
proof (induction c arbitrary: w M)
  case (Throw e)
  then show ?case by (auto intro: growsI elim: ok_throwE)
next
  case (Heap f k)
  from Heap.prems(1) obtain M' where M': "M \<subseteq> M'" "J (f (heap w)) M'" "ok J (k (heap w)) (f (heap w)) M'"
    by (auto elim: ok_heapE)
  have "users_ok J M' (w\<lparr>heap := f (heap w)\<rparr>)" by (rule users_ok_heap [OF Heap.prems(2) M'(1,2)])
  from Heap.IH [OF rangeI, of "heap w" "w\<lparr>heap := f (heap w)\<rparr>" M'] M'(3) this show ?case
    by (auto intro: grows_weaken [OF _ M'(1)])
next
  case (Op x k)
  from Op.prems(1) have x: "args_ok J M x" "\<And>c. c \<in> set (sub_codes x) \<Longrightarrow> steady J M c"
    and k: "\<And>r h' M'. M \<subseteq> M' \<Longrightarrow> J h' M' \<Longrightarrow> op_reply M' x r \<Longrightarrow> ok J (k r) h' M'"
    by (auto elim!: ok_opE simp: steady_def)
  obtain w' r where r: "do_op x w = (w', r)" by fastforce
  have op: "users_ok J M w'" "answers (\<lambda>M. op_reply M x) M r"
    using users_do_op [OF Op.prems(2) x] r by (simp_all add: op_ok_def)
  show ?case
  proof (cases r)
    case (Reply y)
    have "ok J (k y) (heap w') M" using op Reply by (intro k users_okD(1) [OF op(1)]) simp_all
    from Op.IH(2) [OF rangeI this op(1)] show ?thesis using r Reply by simp
  next
    case (Wait fr f)
    have "resumes J M fr k" unfolding resumes_def using op(2) k Wait by simp
    then show ?thesis using r Wait op(1) by (auto intro: growsI)
  qed (use r op in \<open>auto intro: growsI\<close>)
qed (auto intro: growsI)

lemma users_wake:
  assumes ok: "users_ok J M w" and e: "\<And>e. err = Some e \<Longrightarrow> no_violation e"
  shows "op_ok J M (\<lambda>M. frame_reply M fr) (wake fr err w)"
proof (cases fr)
  case (FRecv a)
  obtain w' r where r: "recv_wake a err w = (w', r)" by fastforce
  have "users_ok J M w'" "recv_good M a r" using users_recv_wake [OF ok, of err a] e r by simp_all
  then show ?thesis using FRecv r
    by (cases r) (auto simp: recv_reply_def op_ok_def recv_good_def)
qed (use ok e in \<open>auto simp: op_ok_def frame_reply_good intro!: users_intros\<close>)

lemma users_resume:
  assumes ok: "users_ok J M w" and c: "cont_ok J M c" and e: "\<And>e. err = Some e \<Longrightarrow> no_violation e"
  shows "grows J M (fst (resume c err w)) (\<lambda>M'. ended_ok J M' (snd (resume c err w)))"
proof (cases c)
  case (Begin c')
  have "ok J c' (heap w) M" using c Begin users_okD(1) [OF ok] by (simp add: steady_def)
  from users_exec [OF this ok] show ?thesis using Begin ok e by (cases err) (auto intro: growsI)
next
  case (Resume fr k)
  obtain w' r where r: "wake fr err w = (w', r)" by fastforce
  have op: "users_ok J M w'" "answers (\<lambda>M. frame_reply M fr) M r"
    using users_wake [OF ok, of err fr] e r by (simp_all add: op_ok_def)
  have k: "resumes J M fr k" using c Resume by simp
  show ?thesis
  proof (cases r)
    case (Reply y)
    have "ok J (k y) (heap w') M" using k op Reply users_okD(1) [OF op(1)] by (simp add: resumes_def)
    from users_exec [OF this op(1)] show ?thesis using Resume r Reply by simp
  next
    case (Wait fr' f)
    have "resumes J M fr' k" using k op(2) Wait by (simp add: resumes_def)
    then show ?thesis using Resume r Wait op(1) by (auto intro: growsI)
  qed (use Resume r op in \<open>auto intro: growsI\<close>)
qed (use ok in \<open>auto intro: growsI\<close>)

lemma users_finish_task:
  "users_ok J M w \<Longrightarrow> (\<And>e. r = Failed e \<Longrightarrow> no_violation e) \<Longrightarrow> users_ok J M (finish_task f r w)"
  by (auto simp: finish_task_def intro!: users_intros)

lemma users_task_wait: "users_ok J M w \<Longrightarrow> resumes J M fr k \<Longrightarrow> users_ok J M (task_wait f fr g k w)"
  by (auto simp: task_wait_def Let_def case_prod_unfold simp del: cancel_fut.simps intro!: users_intros)

lemma users_task_end:
  assumes ok: "users_ok J M (fst r)" and e: "ended_ok J M (snd r)"
  shows "res_ok J M (task_end f r)"
proof -
  obtain w x where r: "r = (w, x)" by fastforce
  show ?thesis
  proof (cases x)
    case (Waiting fr g k)
    with ok e r show ?thesis
      by (cases g) (auto simp: task_end_def res_ok_def intro!: users_intros users_task_wait)
  qed (use ok e r in \<open>auto simp: task_end_def res_ok_def intro!: users_finish_task split: if_splits\<close>)
qed

text \<open>What a step of the loop does to the promises of user code.\<close>

definition steps_ok :: "('s \<Rightarrow> 'm pool \<Rightarrow> bool) \<Rightarrow> 'm pool \<Rightarrow> ('m, 'v, 's) world \<times> outcome \<Rightarrow> bool" where
  "steps_ok J M r = (grows J M (fst r) (\<lambda>_. True) \<and> ends_well (snd r))"

lemma steps_okI: "res_ok J M' r \<Longrightarrow> M \<subseteq> M' \<Longrightarrow> steps_ok J M r"
  by (auto simp: steps_ok_def res_ok_def grows_def)

lemma users_task_step:
  assumes ok: "users_ok J M w" and e: "\<And>e. err = Some e \<Longrightarrow> no_violation e"
  shows "steps_ok J M (task_step f err w)"
proof (cases "tasks w f")
  case (Some t)
  let ?err = "if t_must_cancel t \<and> \<not> (err \<noteq> None \<and> is_cancelled_error (the err)) then Some cancelled_error else err"
  let ?w = "(upd_task f (\<lambda>t. t\<lparr>t_waiter := None, t_must_cancel := False\<rparr>) w)\<lparr>current := Some f\<rparr>"
  have w: "users_ok J M ?w" by (auto intro!: users_intros ok)
  have "cont_ok J M (t_cont t)" by (rule users_okD(4) [OF ok Some])
  moreover have "?err = Some x \<Longrightarrow> no_violation x" for x using e by (auto split: if_splits)
  ultimately obtain M' where M': "M \<subseteq> M'" "users_ok J M' (fst (resume (t_cont t) ?err ?w))"
    "ended_ok J M' (snd (resume (t_cont t) ?err ?w))"
    using users_resume [OF w, of "t_cont t" ?err] unfolding grows_def by blast
  obtain w2 x where te: "task_end f (resume (t_cont t) ?err ?w) = (w2, x)" by fastforce
  have "res_ok J M' (w2, x)" using users_task_end [OF M'(2,3), of f] te by simp
  then have "res_ok J M' (w2\<lparr>current := None\<rparr>, x)" by (auto simp: res_ok_def intro!: users_intros)
  moreover have "task_step f err w = (if fut_done f w then (w, Done) else (w2\<lparr>current := None\<rparr>, x))"
    unfolding task_step_def Some Let_def option.case te by simp
  ultimately show ?thesis using steps_okI [OF _ M'(1), of J "(w2\<lparr>current := None\<rparr>, x)"] steps_okI [of J M "(w, Done)" M] ok
    by (cases "fut_done f w") (simp_all add: res_ok_def)
qed (use ok steps_okI [of J M "(w, Done)" M] in \<open>simp add: task_step_def res_ok_def\<close>)

section \<open>Callbacks, hooks and the loop\<close>

lemma users_gather [users_intros]: "users_ok J M w \<Longrightarrow> users_ok J M (fst (gather fs w))"
proof -
  have "users_ok J M w \<Longrightarrow> users_ok J M (fold (\<lambda>f. add_done_callback f (User (GatherDone outer))) fs w)" for w outer
    by (induction fs arbitrary: w) (simp_all add: users_intros)
  note fold = this
  show "users_ok J M w \<Longrightarrow> users_ok J M (fst (gather fs w))"
    by (simp add: gather_def Let_def case_prod_unfold) (intro fold users_intros)
qed

lemma users_gather_done [users_intros]: "users_ok J M w \<Longrightarrow> users_ok J M (gather_done f w)"
  by (auto simp: gather_done_def Let_def intro!: users_intros)

lemma users_run_cb:
  assumes ok: "users_ok J M w" and c: "cb_ok J M c"
  shows "steps_ok J M (run_cb c w)"
proof (cases "(c, w)" rule: run_cb.cases)
  case (2 f w')
  have "users_ok J M (fst (complete_future f Result w))" by (intro users_intros ok) simp
  with 2 ok show ?thesis by (auto intro!: steps_okI [of J M] simp: res_ok_def)
next
  case (3 f err w')
  then show ?thesis using users_task_step [OF ok, of err f] c by (cases err) auto
next
  case (4 f g w')
  then show ?thesis using users_task_step [OF ok, of "fut_reply g w" f] fut_reply_good [OF ok, of g] by auto
next
  case (5 b w')
  then have "ok J b (heap w) M" using c users_okD(1) [OF ok] by (simp add: steady_def)
  from users_exec [OF this ok] show ?thesis using 5
    by (auto simp: steps_ok_def grows_def split: prod.splits ended.splits)
qed (use ok c users_run_net [OF ok c] in \<open>auto intro!: steps_okI [of J M] users_intros simp: res_ok_def
    ends_well_def split: prod.splits outcome.splits\<close>)

lemma users_run_hook:
  assumes ok: "users_ok J M w" and k: "hook_ok k"
  shows "users_ok J M (fst (run_hook k w))" and "snd (run_hook k w) = HookHard e \<Longrightarrow> no_violation e"
proof -
  show "users_ok J M (fst (run_hook k w))"
    using ok k by (cases k) (auto simp: check_invariants_def intro!: users_intros)
  show "snd (run_hook k w) = HookHard e \<Longrightarrow> no_violation e"
  proof (cases k)
    case CheckInvariants
    have "first_failure ps (heap w) t = None" if "set ps \<subseteq> set (invariants w)" for ps t
      using that
    proof (induction ps)
      case (Cons x ps)
      then have "implied J (snd x)" using users_okD(5) [OF ok] by simp
      then have "snd x (heap w) t = Holds" using users_okD(1) [OF ok] unfolding implied_def by blast
      with Cons show ?case by (cases x) simp
    qed simp
    then show "snd (run_hook k w) = HookHard e \<Longrightarrow> no_violation e"
      using CheckInvariants by (simp add: check_invariants_def)
  next
    case (UntilCheck f p d)
    then show "snd (run_hook k w) = HookHard e \<Longrightarrow> no_violation e"
      using until_check_result [of p f d w e] k by simp
  qed
qed

lemma users_loop:
  assumes ok: "users_ok J M w"
  shows "users_ok J M (fst (count_step w))" "users_ok J M (fst (autojump w))" "users_ok J M (fire_due_timers w)"
    "users_ok J M (check_watch w)" "users_ok J M (run_settle s w)"
    "ready w = h # hs \<Longrightarrow> users_ok J M (w\<lparr>ready := hs\<rparr>)"
proof -
  show "users_ok J M (fst (count_step w))"
    by (rule users_ok_same [OF ok]) (auto simp: count_step_def callbacks_def split: option.splits nat.splits)
  have "set (purge_timers canc ts) \<subseteq> set ts" for canc :: "'d handle set" and ts
    by (induction ts rule: purge_timers.induct) auto
  from this [of "cancelled w" "sl_timers w"] show "users_ok J M (fst (autojump w))"
    by (intro users_ok_same [OF ok]) (auto simp: autojump_def purge_cancelled_timers_def Let_def callbacks_def)
  have "snd ` set rdy' \<union> tcb ` set ts' \<subseteq> snd ` set rdy \<union> tcb ` set ts"
    if "fire_timers canc t ts rdy = (ts', rdy')"
    for canc t rdy rdy' and ts ts' :: "'e handle timer list"
    using that by (induction canc t ts rdy rule: fire_timers.induct) (auto split: if_splits)
  note fire = this
  show "users_ok J M (fire_due_timers w)"
  proof -
    obtain ts' rdy' where r: "fire_timers (cancelled w) (sl_time w) (sl_timers w) (ready w) = (ts', rdy')" by fastforce
    show ?thesis using fire [OF r]
      by (intro users_ok_same [OF ok]) (auto simp: fire_due_timers_def r callbacks_def)
  qed
  have settle: "users_ok J M (run_settle s w)" if "users_ok J M w" for s w
    using that by (cases "(s, w)" rule: run_settle.cases) (auto intro: users_hooks)
  then show "users_ok J M (run_settle s w)" using ok .
  have stop_in: "users_ok J M (w\<lparr>sl_stop_in := k\<rparr>)" for k
    using users_fields(18) [where b = "stopping w" and f = "sl_watch w" and k = k and s = "sl_settle w", OF ok] by simp
  show "users_ok J M (check_watch w)"
    using ok stop_in settle [OF stop_in]
    by (auto simp: check_watch_def Let_def intro: users_fields(1) split: option.splits)
  show "ready w = h # hs \<Longrightarrow> users_ok J M (w\<lparr>ready := hs\<rparr>)"
    by (rule users_ok_same [OF ok]) (auto simp: callbacks_def)
qed

text \<open>The contract of the loop, for worlds whose user code keeps \<open>J\<close>.\<close>

definition user_inv :: "('s \<Rightarrow> 'm pool \<Rightarrow> bool) \<Rightarrow> rng \<Rightarrow> ('m, 'v, 's) world \<Rightarrow> bool" where
  "user_inv J r0 w = (world_ok r0 w \<and> (\<exists>M. users_ok J M w))"

lemma user_invI: "world_ok r0 w \<Longrightarrow> users_ok J M w \<Longrightarrow> user_inv J r0 w"
  by (auto simp: user_inv_def)

interpretation wu: loop_outcome run_cb run_hook "user_inv J r0" no_violation for J r0
proof
  fix st :: "('a, 'b, 'c) world" and h hs c k e
  assume i: "user_inv J r0 st"
  then obtain M where ok: "world_ok r0 st" and u: "users_ok J M st" by (auto simp: user_inv_def)
  note I = user_invI [of r0 _ J M]
  note l = users_loop [OF u]
  show "loop_ok st" using ok by (rule wl.inv_loop)
  show "user_inv J r0 (fst (count_step st))" "user_inv J r0 (fst (autojump st))"
    "user_inv J r0 (fire_due_timers st)" "user_inv J r0 (check_watch st)" "user_inv J r0 (run_settle x st)" for x
    using ok by (auto intro!: I l wl.inv_count wl.inv_jump wl.inv_fire wl.inv_watch wl.inv_settle)
  show "user_inv J r0 (st\<lparr>stopping := b, sl_watch := x, sl_stop_in := y, sl_settle := z\<rparr>)" for b x y z
    by (intro I wl.inv_ctl ok users_fields u)
  show "no_violation (exn (step_kind st))"
    using users_okD(8) [OF u] by (auto simp: step_kind_def no_violation_def exn_def no_violation_kind_def split: option.splits)
  show "user_inv J r0 (fst (run_hook k st))" if "k \<in> set (sl_hooks st)"
    by (intro I wl.hk_inv ok that users_run_hook u users_okD(6) [OF u that])
  show "no_violation e" if "k \<in> set (sl_hooks st)" "snd (run_hook k st) = HookHard e"
    by (rule users_run_hook(2) [OF u users_okD(6) [OF u that(1)] that(2)])
  assume r: "ready st = h # hs"
  show "user_inv J r0 (st\<lparr>ready := hs\<rparr>)" if "h \<in> cancelled st"
    by (rule I [OF wl.inv_skip [OF ok r that] l(6) [OF r]])
  have "cb_ok J M (snd h)" by (rule users_okD(2) [OF u]) (simp add: callbacks_def r)
  from users_run_cb [OF l(6) [OF r] this]
  have s: "steps_ok J M (run_cb (snd h) (st\<lparr>ready := hs\<rparr>))" .
  show "user_inv J r0 (fst (run_cb (snd h) (st\<lparr>ready := hs\<rparr>)))" if "h \<notin> cancelled st"
    using s wl.cb_inv [OF ok r that] by (auto simp: steps_ok_def grows_def user_inv_def)
  show "no_violation e" if "snd (run_cb (snd h) (st\<lparr>ready := hs\<rparr>)) = Raised e"
    using s that by (simp add: steps_ok_def)
qed (rule wl.cb_time wl.cb_steps wl.cb_stop_in wl.cb_ready wl.hk_time wl.hk_steps wl.hk_stop_in wl.hk_hooks own_errors)+

end
