(* ===== verification/Run.thy ===== *)
theory Run
  imports Drive_Guarantees
begin

text \<open>
  Sweeping and replaying seeds (\<open>src/seedloop/_run.py\<close>). Calling a scenario raises, or returns a
  coroutine (user code) or something else. The process-wide patches a run installs around its drive
  (\<open>csprng_shim\<close>, \<open>audit_mode\<close>) have no effect on the model's worlds, since the only entropy of a
  model scenario is \<open>world.rng\<close>. A call that never comes back is \<open>CheckDiverges\<close>.
\<close>

section \<open>One run\<close>

datatype ('m, 'v, 's) call = CallRaises exn | CallReturns "('m, 'v, 's) code option"

type_synonym ('m, 'v, 's) scenario = "int \<Rightarrow> ('m, 'v, 's) call"

definition run_one ::
    "(int \<Rightarrow> string \<Rightarrow> rng) \<Rightarrow> bool \<Rightarrow> 's \<Rightarrow> ('m, 'v, 's) scenario \<Rightarrow> nat option \<Rightarrow> int \<Rightarrow>
     (('m, 'v, 's) world \<times> outcome) option" where
  "run_one streams running objs scenario limit sd =
     (let w = world_init streams sd limit objs
      in case scenario sd of
           CallRaises e \<Rightarrow> Some (close_world w, Raised e)
         | CallReturns c \<Rightarrow> map_option (\<lambda>(w', e). (if e = Diverged then w' else close_world w', e))
             (drive running c w))"

text \<open>\<open>max_steps\<close> as the caller passes it.\<close>

datatype limit_arg = NoLimit | IntLimit int | BoolLimit bool | OtherLimit

definition DEFAULT_MAX_STEPS :: limit_arg where
  "DEFAULT_MAX_STEPS = IntLimit 10000000"

definition preflight :: "bool \<Rightarrow> limit_arg \<Rightarrow> exn_kind + nat option" where
  "preflight running limit =
     (if running
      then Inl (UsageError ''check/replay cannot run inside a running event loop'')
      else case limit of
        NoLimit \<Rightarrow> Inr None
      | IntLimit n \<Rightarrow> if n < 1 then Inl (UsageError ''max_steps must be a positive int or None'') else Inr (Some (nat n))
      | _ \<Rightarrow> Inl (UsageError ''max_steps must be a positive int or None''))"

section \<open>Sweeping\<close>

datatype check_end = CheckResult nat "int option" "exn option" | CheckRaised exn | CheckDiverges

datatype seeds_arg = SeedCount int | SeedList "int list"

fun seed_list :: "seeds_arg \<Rightarrow> int list" where
  "seed_list (SeedCount n) = map int [0..<nat n]"
| "seed_list (SeedList ss) = ss"

fun check_loop ::
    "(int \<Rightarrow> outcome option) \<Rightarrow> bool \<Rightarrow> nat \<Rightarrow> int list \<Rightarrow> check_end" where
  "check_loop run reraise checked [] = CheckResult checked None None"
| "check_loop run reraise checked (s # ss) = (case run s of
     None \<Rightarrow> CheckDiverges
   | Some Diverged \<Rightarrow> CheckDiverges
   | Some Done \<Rightarrow> check_loop run reraise (Suc checked) ss
   | Some (Raised e) \<Rightarrow>
       if isinstance_exn e UsageErrorC then CheckRaised e
       else if is_exception e then
         let e' = add_note (FailingSeed s) e
         in if reraise then CheckRaised e' else CheckResult (Suc checked) (Some s) (Some e')
       else CheckRaised e)"

definition check ::
    "(int \<Rightarrow> string \<Rightarrow> rng) \<Rightarrow> bool \<Rightarrow> 's \<Rightarrow> ('m, 'v, 's) scenario \<Rightarrow> limit_arg \<Rightarrow> seeds_arg \<Rightarrow> bool \<Rightarrow>
     check_end" where
  "check streams running objs scenario limit seeds reraise = (case preflight running limit of
     Inl k \<Rightarrow> CheckRaised (exn k)
   | Inr n \<Rightarrow> check_loop (\<lambda>s. map_option snd (run_one streams running objs scenario n s)) reraise 0 (seed_list seeds))"

definition replay ::
    "(int \<Rightarrow> string \<Rightarrow> rng) \<Rightarrow> bool \<Rightarrow> 's \<Rightarrow> ('m, 'v, 's) scenario \<Rightarrow> limit_arg \<Rightarrow> int \<Rightarrow> outcome option" where
  "replay streams running objs scenario limit sd = (case preflight running limit of
     Inl k \<Rightarrow> Some (Raised (exn k))
   | Inr n \<Rightarrow> map_option snd (run_one streams running objs scenario n sd))"

section \<open>What a sweep reports\<close>

lemma check_loop_fails:
  "check_loop run b k ss = CheckResult n (Some s) e \<Longrightarrow>
    \<exists>pre post e0. ss = pre @ s # post \<and> n = k + Suc (length pre) \<and> (\<forall>x\<in>set pre. run x = Some Done) \<and>
      run s = Some (Raised e0) \<and> is_exception e0 \<and> \<not> isinstance_exn e0 UsageErrorC \<and>
      e = Some (add_note (FailingSeed s) e0)"
proof (induction ss arbitrary: k)
  case (Cons x ss)
  show ?case
  proof (cases "run x = Some Done")
    case True
    with Cons.prems have "check_loop run b (Suc k) ss = CheckResult n (Some s) e" by simp
    from Cons.IH [OF this] obtain pre post e0 where "ss = pre @ s # post" "n = Suc k + Suc (length pre)"
      "\<forall>x\<in>set pre. run x = Some Done" "run s = Some (Raised e0) \<and> is_exception e0 \<and>
        \<not> isinstance_exn e0 UsageErrorC \<and> e = Some (add_note (FailingSeed s) e0)" by blast
    with True show ?thesis by (intro exI [of _ "x # pre"] exI [of _ post] exI [of _ e0]) simp
  next
    case False
    then have "x = s \<and> n = Suc k \<and> (\<exists>e0. run s = Some (Raised e0) \<and> is_exception e0 \<and>
        \<not> isinstance_exn e0 UsageErrorC \<and> e = Some (add_note (FailingSeed s) e0))"
      using Cons.prems by (auto simp: Let_def split: option.splits outcome.splits if_splits)
    then show ?thesis by (intro exI [of _ "[]"] exI [of _ ss]) auto
  qed
qed simp

lemma check_loop_passes:
  "check_loop run b k ss = CheckResult n None e \<longleftrightarrow>
    n = k + length ss \<and> e = None \<and> (\<forall>x\<in>set ss. run x = Some Done)"
  by (induction ss arbitrary: k) (auto simp: Let_def split: option.splits outcome.splits)

lemma check_loop_diverges:
  "check_loop run b k ss = CheckDiverges \<Longrightarrow> (\<And>s. run s \<noteq> None) \<Longrightarrow> \<exists>s\<in>set ss. run s = Some Diverged"
proof (induction ss arbitrary: k)
  case (Cons x ss)
  obtain r where "run x = Some r" using Cons.prems(2) [of x] by blast
  with Cons.prems(1) Cons.IH [OF _ Cons.prems(2)] show ?case
    by (cases r) (auto simp: Let_def split: if_splits)
qed simp

lemma preflight_ok: "preflight running limit = Inr n \<Longrightarrow> \<not> running"
  by (auto simp: preflight_def split: if_splits)

text \<open>C8: A failing seed is the reproduction: when a sweep reports a failing seed, that seed is the first
  that fails, every seed before it passes, the count is right, and \<open>replay\<close> of that seed raises the
  same failure, which the sweep has only tagged with the seed.\<close>

theorem failing_seed_replays:
  assumes "check streams running objs scenario limit seeds False = CheckResult n (Some s) (Some e)"
  shows "\<exists>pre post e0. seed_list seeds = pre @ s # post \<and> n = Suc (length pre) \<and>
    (\<forall>x\<in>set pre. replay streams running objs scenario limit x = Some Done) \<and>
    replay streams running objs scenario limit s = Some (Raised e0) \<and> e = add_note (FailingSeed s) e0"
proof -
  obtain k where k: "preflight running limit = Inr k"
    using assms by (auto simp: check_def split: sum.splits)
  let ?run = "\<lambda>s. map_option snd (run_one streams running objs scenario k s)"
  have "check_loop ?run False 0 (seed_list seeds) = CheckResult n (Some s) (Some e)"
    using assms k by (simp add: check_def)
  from check_loop_fails [OF this] k show ?thesis by (auto simp: replay_def)
qed

text \<open>A scenario that passes at seed 1 and fails at seed 2.\<close>

definition demo_scenario :: "(nat, nat, nat) scenario" where
  "demo_scenario sd = (if sd = 1 then CallReturns (Some Return) else CallRaises (exn (UserError 4)))"

lemma demo_run_one:
  "\<exists>w. run_one (\<lambda>_ _. zero_rng) False 0 demo_scenario (Some 10) 1 = Some (w, Done)"
  "\<exists>w. run_one (\<lambda>_ _. zero_rng) False 0 demo_scenario (Some 10) 2 = Some (w, Raised (exn (UserError 4)))"
  using demo_drive by (auto simp: run_one_def demo_scenario_def demo_world_def)

lemma demo_check: "check (\<lambda>_ _. zero_rng) False 0 demo_scenario (IntLimit 10) (SeedList [1, 2]) False =
    CheckResult 2 (Some 2) (Some (Exn (UserError 4) [FailingSeed 2]))"
proof -
  obtain w1 w2 where "run_one (\<lambda>_ _. zero_rng) False 0 demo_scenario (Some 10) 1 = Some (w1, Done)"
    "run_one (\<lambda>_ _. zero_rng) False 0 demo_scenario (Some 10) 2 = Some (w2, Raised (exn (UserError 4)))"
    using demo_run_one by blast
  then show ?thesis
    by (simp add: check_def preflight_def isinstance_exn_def is_subclass_eval is_exception_iff is_interrupt_def
        exn_def add_note_def)
qed

theorem failing_seed_replays_witness:
  "\<exists>e0. replay (\<lambda>_ _. zero_rng) False 0 demo_scenario (IntLimit 10) 2 = Some (Raised e0) \<and>
    Exn (UserError 4) [FailingSeed 2] = add_note (FailingSeed 2) e0"
  using failing_seed_replays [OF demo_check] by blast

text \<open>A sweep passes exactly when every seed of it passes on its own.\<close>

lemma check_passes_iff:
  "check streams running objs scenario limit seeds b = CheckResult n None None \<longleftrightarrow>
    (\<exists>k. preflight running limit = Inr k) \<and> n = length (seed_list seeds) \<and>
    (\<forall>s\<in>set (seed_list seeds). replay streams running objs scenario limit s = Some Done)"
  by (auto simp: check_def replay_def check_loop_passes split: sum.splits)

lemma check_passes_iff_witness:
  "check (\<lambda>_ _. zero_rng) False 0 demo_scenario (IntLimit 10) (SeedList [1]) True = CheckResult 1 None None"
  using demo_run_one(1) by (simp add: check_passes_iff preflight_def replay_def)

text \<open>C33: A sweep with a step limit comes back: the only way it does not is a run in which user code itself
  never comes back.\<close>

theorem check_returns:
  fixes scenario :: "('m, 'v, 's) scenario"
  assumes "check streams running objs scenario limit seeds b = CheckDiverges" and "limit \<noteq> NoLimit"
  shows "\<exists>s\<in>set (seed_list seeds). replay streams running objs scenario limit s = Some Diverged"
proof -
  obtain n where n: "preflight running limit = Inr (Some n)"
    using assms by (cases limit) (auto simp: check_def preflight_def split: sum.splits if_splits)
  let ?run = "\<lambda>s. map_option snd (run_one streams running objs scenario (Some n) s)"
  have returns: "?run s \<noteq> None" for s
  proof -
    have "\<exists>r. drive running c (world_init streams s (Some n) objs) = Some r" for c :: "('m, 'v, 's) code option"
    proof (cases c)
      case (Some x)
      have "max_steps (world_init streams s (Some n) objs) = Some n" by (simp add: world_init_def net.defs)
      from drive_driven [OF world_ok_init this, of x] Some preflight_ok [OF n] show ?thesis
        by (auto simp: driven_def)
    qed (simp add: drive_def)
    then show ?thesis by (cases "scenario s") (auto simp: run_one_def Let_def)
  qed
  have "\<exists>s\<in>set (seed_list seeds). ?run s = Some Diverged"
    using check_loop_diverges [of ?run b 0 "seed_list seeds"] returns assms(1) n by (simp add: check_def)
  then show ?thesis using n by (simp add: replay_def)
qed

lemma demo_hang: "\<exists>w. drive False (Some Hang) demo_world = Some (w, Diverged)"
proof -
  have "\<exists>w. drive_main 0 (fst (spawn Hang (limit_steps (Some 10) (Some LivelockError) demo_world))) = Some (w, Diverged)"
    unfolding drive_main_def run_until_done_def run_forever_def
    by (subst step_forever.simps)
      (simp add: spawn_def create_future_def create_task_def call_soon_def limit_steps_def run_eval numeral_eq_Suc)
  moreover have "snd (spawn Hang (limit_steps (Some 10) (Some LivelockError) demo_world)) = 0"
    by (simp add: spawn_def create_future_def create_task_def call_soon_def limit_steps_def)
  ultimately show ?thesis by (simp add: drive_def case_prod_unfold)
qed

lemma demo_diverges:
  "check (\<lambda>_ _. zero_rng) False (0 :: nat) (\<lambda>_. CallReturns (Some (Hang :: (nat, nat, nat) code))) (IntLimit 10)
    (SeedList [1]) True = CheckDiverges"
  using demo_hang by (auto simp: check_def preflight_def run_one_def demo_world_def)

theorem check_returns_witness:
  "replay (\<lambda>_ _. zero_rng) False (0 :: nat) (\<lambda>_. CallReturns (Some (Hang :: (nat, nat, nat) code))) (IntLimit 10) 1 =
    Some Diverged"
  using check_returns [OF demo_diverges] by simp


lemma demo_check_raises: "check (\<lambda>_ _. zero_rng) False 0 demo_scenario (IntLimit 10) (SeedList [1, 2]) True =
    CheckRaised (Exn (UserError 4) [FailingSeed 2])"
proof -
  obtain w1 w2 where "run_one (\<lambda>_ _. zero_rng) False 0 demo_scenario (Some 10) 1 = Some (w1, Done)"
    "run_one (\<lambda>_ _. zero_rng) False 0 demo_scenario (Some 10) 2 = Some (w2, Raised (exn (UserError 4)))"
    using demo_run_one by blast
  then show ?thesis
    by (simp add: check_def preflight_def isinstance_exn_def is_subclass_eval is_exception_iff is_interrupt_def
        exn_def add_note_def)
qed


end
