(* ===== verification/User_Drive.thy ===== *)
theory User_Drive
  imports User_World Run
begin

text \<open>
  A drive of user code that keeps its joint invariant never ends with an invariant violation, and
  neither does a sweep: what \<open>check\<close> reports as a violation is one the scenario's code can really
  reach.
\<close>

section \<open>Through the drive\<close>

lemma kept_notes [simp]: "no_violation (note_on n e) = no_violation e"
  by (simp add: note_on_def)

lemma user_inv_keep:
  assumes "user_inv J r0 w" and "world_ok r0 w \<Longrightarrow> world_ok r0 w'" and "\<And>M. users_ok J M w \<Longrightarrow> users_ok J M w'"
  shows "user_inv J r0 w'"
  using assms by (auto simp: user_inv_def)

lemma user_inv_cancel: "user_inv J r0 w \<Longrightarrow> user_inv J r0 (cancel_task f w)"
  by (erule user_inv_keep) (auto intro: world_ok_fine fine_cancel_task users_cancel_task)

lemma user_inv_cancels: "user_inv J r0 w \<Longrightarrow> user_inv J r0 (fold cancel_task fs w)"
  by (induction fs arbitrary: w) (simp_all add: user_inv_cancel)

lemma user_inv_limit: "user_inv J r0 w \<Longrightarrow> k \<noteq> stopped_early \<Longrightarrow> no_violation_kind k \<Longrightarrow> user_inv J r0 (limit_steps n (Some k) w)"
  by (erule user_inv_keep) (auto intro: world_ok_steps users_limit)

lemma user_inv_teardown_limit: "user_inv J r0 w \<Longrightarrow> user_inv J r0 (limit_teardown_steps n w)"
  unfolding limit_teardown_steps_def by (erule user_inv_limit) (simp_all add: stopped_early_def)

lemma user_inv_no_hooks: "user_inv J r0 w \<Longrightarrow> user_inv J r0 (w\<lparr>sl_hooks := []\<rparr>)"
proof (erule user_inv_keep)
  show "world_ok r0 w \<Longrightarrow> world_ok r0 (w\<lparr>sl_hooks := []\<rparr>)"
    by (rule world_ok_calm) (simp_all add: calm_heap)
qed (auto intro: users_hooks)

lemma user_inv_tearing: "user_inv J r0 w \<Longrightarrow> user_inv J r0 (w\<lparr>tearing_down := b\<rparr>)"
  by (erule user_inv_keep) (auto intro: world_ok_tearing users_fields)

lemma user_inv_gather: "user_inv J r0 w \<Longrightarrow> user_inv J r0 (fst (gather fs w))"
  by (erule user_inv_keep) (auto intro: world_ok_fine fine_gather users_gather)

lemma user_inv_watch: "user_inv J r0 w \<Longrightarrow> user_inv J r0 (add_done_callback f (User StopLoop) w)"
proof (erule user_inv_keep)
  show "world_ok r0 w \<Longrightarrow> world_ok r0 (add_done_callback f (User StopLoop) w)"
    by (rule world_ok_fine [OF _ fine_loop(3)]) simp_all
qed (auto intro: users_add_done_callback)

lemma user_inv_unwatch: "user_inv J r0 w \<Longrightarrow> user_inv J r0 (w\<lparr>fut_cbs := (fut_cbs w)(f := filter P (fut_cbs w f))\<rparr>)"
proof (erule user_inv_keep)
  show "world_ok r0 w \<Longrightarrow> world_ok r0 (w\<lparr>fut_cbs := (fut_cbs w)(f := filter P (fut_cbs w f))\<rparr>)"
    by (erule world_ok_calm) (auto simp: calm_unfold)
  show "users_ok J M w \<Longrightarrow> users_ok J M (w\<lparr>fut_cbs := (fut_cbs w)(f := filter P (fut_cbs w f))\<rparr>)" for M
    by (erule users_ok_same) (auto simp: callbacks_def split: if_splits)
qed

lemma user_inv_reply: "user_inv J r0 w \<Longrightarrow> fut_reply f w = Some e \<Longrightarrow> no_violation e"
  by (auto simp: user_inv_def dest: fut_reply_good)

lemma ends_good_simps [simp]:
  "wu.ends_good J r0 None"
  "wu.ends_good J r0 (Some (w, e)) = (user_inv J r0 w \<and> ends_well e)"
  by (auto simp: wu.ends_good_def ends_well_def)

lemma settle_main_good:
  assumes "user_inv J r0 w"
  shows "wu.ends_good J r0 (settle_main main w)"
proof -
  have "user_inv J r0 w \<longrightarrow> wu.ends_good J r0 (Some r)" if "settle_main main w = Some r" for r
  proof (rule settle_main.raw_induct [OF _ that])
    fix f main w and r
    assume IH: "\<And>main w r. f main w = Some r \<Longrightarrow> user_inv J r0 w \<longrightarrow> wu.ends_good J r0 (Some r)"
      and eq: "(if fut_done main w then Some (w, Done)
         else case run_until_done run_cb run_hook main None w of None \<Rightarrow> None
           | Some (w1, Done) \<Rightarrow> f main w1 | Some (w1, e) \<Rightarrow> Some (w1, e)) = Some r"
    show "user_inv J r0 w \<longrightarrow> wu.ends_good J r0 (Some r)"
    proof
      assume "user_inv J r0 w"
      then have g: "wu.ends_good J r0 (run_until_done run_cb run_hook main None w)" by (rule wu.run_until_done_good)
      show "wu.ends_good J r0 (Some r)"
        using eq g IH \<open>user_inv J r0 w\<close> by (cases r) (auto split: if_splits option.splits outcome.splits)
    qed
  qed
  with assms show ?thesis by (cases "settle_main main w") auto
qed

lemma run_until_complete_good:
  assumes i: "user_inv J r0 w"
  shows "wu.ends_good J r0 (run_until_complete f w)"
proof -
  have g: "wu.ends_good J r0 (run_forever run_cb run_hook (add_done_callback f (User StopLoop) w))"
    by (intro wu.run_forever_good user_inv_watch i)
  show ?thesis
  proof (cases "run_forever run_cb run_hook (add_done_callback f (User StopLoop) w)")
    case (Some p)
    obtain w1 e where p: "p = (w1, e)" by fastforce
    let ?w2 = "w1\<lparr>fut_cbs := (fut_cbs w1)(f := filter (\<lambda>c. \<not> is_stop_loop c) (fut_cbs w1 f))\<rparr>"
    have 2: "user_inv J r0 ?w2" "ends_well e" using g Some p by (simp_all add: user_inv_unwatch)
    then show ?thesis
      using Some p i user_inv_reply [OF 2(1), of f]
      by (cases e) (auto simp: run_until_complete_def Let_def stopped_early_def split: option.splits)
  qed (use i in \<open>auto simp: run_until_complete_def\<close>)
qed

lemma run_until_fut_good:
  assumes "user_inv J r0 w"
  shows "wu.ends_good J r0 (run_until_fut f w)"
proof -
  have "user_inv J r0 w \<longrightarrow> wu.ends_good J r0 (Some r)" if "run_until_fut f w = Some r" for r
  proof (rule run_until_fut.raw_induct [OF _ that])
    fix g f w and r
    assume IH: "\<And>f w r. g f w = Some r \<Longrightarrow> user_inv J r0 w \<longrightarrow> wu.ends_good J r0 (Some r)"
      and eq: "(if fut_done f w then Some (w, Done)
         else case run_until_complete f w of None \<Rightarrow> None
           | Some (w1, Done) \<Rightarrow> g f w1
           | Some (w1, Raised e) \<Rightarrow>
               if fut_done f w1 \<or> ekind e \<noteq> stopped_early then Some (w1, Raised e) else g f w1
           | Some (w1, Diverged) \<Rightarrow> Some (w1, Diverged)) = Some r"
    show "user_inv J r0 w \<longrightarrow> wu.ends_good J r0 (Some r)"
    proof
      assume i: "user_inv J r0 w"
      have c: "wu.ends_good J r0 (run_until_complete f w)" by (rule run_until_complete_good [OF i])
      show "wu.ends_good J r0 (Some r)"
        using eq c IH i by (cases r) (auto split: if_splits option.splits outcome.splits)
    qed
  qed
  with assms show ?thesis by (cases "run_until_fut f w") auto
qed

lemma cancel_rounds_good: "user_inv J r0 w \<Longrightarrow> wu.ends_good J r0 (cancel_rounds n w)"
proof (induction n arbitrary: w)
  case (Suc n)
  let ?p = "pending_tasks w"
  obtain w2 g where g: "gather ?p (limit_teardown_steps (length ?p) (fold cancel_task ?p w)) = (w2, g)" by fastforce
  have "user_inv J r0 w2"
    using user_inv_gather [OF user_inv_teardown_limit [OF user_inv_cancels [OF Suc.prems]], of ?p "length ?p" ?p] g
    by simp
  then have r: "wu.ends_good J r0 (run_until_fut g w2)" by (rule run_until_fut_good)
  show ?case
    using r g Suc by (auto simp: Let_def split: option.splits outcome.splits)
qed simp

text \<open>What a teardown and a drive leave: the promise of the objects, and no violation raised.\<close>

definition left_good :: "('s \<Rightarrow> 'm pool \<Rightarrow> bool) \<Rightarrow> (('m, 'v, 's) world \<times> outcome) option \<Rightarrow> bool" where
  "left_good J r = (\<forall>w e. r = Some (w, e) \<longrightarrow> (\<exists>M. J (heap w) M) \<and> ends_well e)"

lemma user_inv_heap: "user_inv J r0 w \<Longrightarrow> \<exists>M. J (heap w) M"
  by (auto simp: user_inv_def dest: users_okD(1))

definition failure_good :: "exn option \<Rightarrow> bool" where
  "failure_good f = (\<forall>e. f = Some e \<longrightarrow> no_violation e)"

lemma failure_good_simps [simp]: "failure_good None" "failure_good (Some e) = no_violation e"
  by (simp_all add: failure_good_def)

lemma secondary_good:
  assumes "failure_good f" and "ends_well e" and "secondary f (w, e) = (w', f', e')"
  shows "w' = w \<and> failure_good f' \<and> ends_well e'"
  using assms by (cases e; cases f) (auto simp: secondary_def split: if_splits)

lemma close_heap [simp]: "heap (close_world w) = heap w"
  by (simp add: close_world_def)

lemma teardown_good:
  assumes i: "user_inv J r0 w" and f: "failure_good failure"
  shows "left_good J (teardown failure w)"
proof -
  let ?w1 = "if failure \<noteq> None then w\<lparr>sl_hooks := []\<rparr> else w"
  have "user_inv J r0 (?w1\<lparr>tearing_down := True\<rparr>)" using i by (auto intro: user_inv_tearing user_inv_no_hooks)
  then have c: "wu.ends_good J r0 (cancel_everything (?w1\<lparr>tearing_down := True\<rparr>))"
    unfolding cancel_everything_def by (rule cancel_rounds_good)
  show ?thesis
  proof (cases "cancel_everything (?w1\<lparr>tearing_down := True\<rparr>)")
    case (Some p)
    obtain w3 e where p: "p = (w3, e)" by fastforce
    obtain w4 f' e' where s: "secondary failure (w3, e) = (w4, f', e')" by (metis prod_cases3)
    have 3: "user_inv J r0 w3" "ends_well e" using c Some p by simp_all
    note g = secondary_good [OF f 3(2) s]
    have "teardown failure w = Some (case (w4, f', e') of
            (w3, f, Done) \<Rightarrow> (close_world w3, case f of None \<Rightarrow> Done | Some e \<Rightarrow> Raised e)
          | (w3, f, Raised e) \<Rightarrow> (close_world w3, Raised (case f of
                Some x \<Rightarrow> if ekind x \<noteq> ekind e then note_on (describe x) e else e
              | None \<Rightarrow> e))
          | (w3, f, Diverged) \<Rightarrow> (w3, Diverged))"
      by (simp only: teardown_def Let_def Some p option.map s)
    with g user_inv_heap [OF 3(1)] show ?thesis
      by (cases e'; cases f') (auto simp: left_good_def)
  qed (simp only: teardown_def left_good_def Let_def, simp)
qed

lemma settle_drive_good:
  assumes i: "user_inv J r0 w" and f: "failure_good failure" and r: "settle_drive main failure w = Some (w', f', e)"
  shows "user_inv J r0 w' \<and> failure_good f' \<and> ends_well e"
proof -
  let ?w1 = "limit_teardown_steps 0 w"
  let ?w2 = "if failure \<noteq> None then ?w1\<lparr>sl_hooks := []\<rparr> else ?w1"
  have i2: "user_inv J r0 ?w2" using i by (auto intro: user_inv_teardown_limit user_inv_no_hooks)
  have m: "wu.ends_good J r0 (settle_main main (cancel_task main ?w2))"
    by (intro settle_main_good user_inv_cancel i2)
  have o: "wu.ends_good J r0 (run_one_more_step run_cb run_hook main ?w2)"
    by (intro wu.run_one_more_step_good i2)
  consider "\<not> fut_done main ?w2" | "fut_done main ?w2" "failure \<noteq> None" | "fut_done main ?w2" "failure = None"
    by blast
  then show ?thesis
  proof cases
    case 1
    then obtain w4 x where s: "settle_main main (cancel_task main ?w2) = Some (w4, x)"
      using r by (auto simp: settle_drive_def Let_def)
    obtain w5 g y where t: "secondary failure (w4, x) = (w5, g, y)" by (metis prod_cases3)
    have 4: "user_inv J r0 w4" "ends_well x" using m s by simp_all
    have "failure_good (Some (unwind_note main w4 z)) = no_violation z" for z
      by (auto simp: unwind_note_def split: fut_state.split)
    then show ?thesis
      using 1 r s t secondary_good [OF f 4(2) t] 4(1)
      by (cases g; cases y) (auto simp: settle_drive_def Let_def)
  next
    case 2
    then obtain w4 x where s: "run_one_more_step run_cb run_hook main ?w2 = Some (w4, x)"
      using r by (auto simp: settle_drive_def Let_def)
    have 4: "user_inv J r0 w4" "ends_well x" using o s by simp_all
    have "secondary failure (w4, x) = (w', f', e)" using 2 r s by (auto simp: settle_drive_def Let_def)
    from secondary_good [OF f 4(2) this] 4(1) show ?thesis by simp
  next
    case 3
    then have "w' = ?w2" "f' = None" "e = Done" using r by (auto simp: settle_drive_def Let_def)
    then show ?thesis using i2 by simp
  qed
qed

lemma run_result_good: "user_inv J r0 w \<Longrightarrow> failure_good (run_result main w)"
proof -
  assume "user_inv J r0 w"
  then have f: "futs w f = Failed e \<Longrightarrow> no_violation e" for f e
    by (auto simp: user_inv_def dest: users_okD(7))
  have "failure_good (first_node_error fs w)" for fs
    by (induction fs) (auto split: fut_state.split dest: f)
  then show ?thesis using f by (auto simp: run_result_def split: fut_state.split)
qed

lemma drive_end_good:
  assumes i: "user_inv J r0 w" and "failure_good f" and "ends_well e"
  shows "left_good J (drive_end main (w, f, e))"
proof -
  note t = teardown_good [OF i]
  have "failure_good (Some (replace_failure f x))" if "e = Raised x" for x
    using assms(3) that by (auto simp: replace_failure_def split: option.split)
  then show ?thesis
    using assms(2) user_inv_heap [OF i] t run_result_good [OF i]
    by (cases e; cases f) (simp_all add: drive_end_def left_good_def [of J "Some (w, Diverged)"])
qed

lemma drive_main_good:
  assumes i: "user_inv J r0 w"
  shows "left_good J (drive_main main w)"
proof (cases "run_until_done run_cb run_hook main (Some ClearHooks) w")
  case (Some p)
  obtain w1 e where p: "p = (w1, e)" by fastforce
  have 1: "user_inv J r0 w1" "ends_well e"
    using wu.run_until_done_good [OF i, of main "Some ClearHooks"] Some p by simp_all
  let ?f = "case e of Raised x \<Rightarrow> Some x | _ \<Rightarrow> if fut_done main w1 then None else Some (exn (PyError ''RuntimeError''))"
  have f: "failure_good ?f" using 1(2) by (cases e) auto
  have "left_good J (case settle_drive main ?f w1 of None \<Rightarrow> None | Some r \<Rightarrow> drive_end main r)"
  proof (cases "settle_drive main ?f w1")
    case None
    then show ?thesis by (simp only: left_good_def option.case) simp
  next
    case (Some q)
    obtain w' f' e' where q: "q = (w', f', e')" by (metis prod_cases3)
    have "user_inv J r0 w' \<and> failure_good f' \<and> ends_well e'"
      by (rule settle_drive_good [OF 1(1) f Some [unfolded q]])
    then have "left_good J (drive_end main (w', f', e'))" by (intro drive_end_good [of J r0]) simp_all
    then show ?thesis unfolding Some option.case q .
  qed
  moreover have "left_good J (Some (w1, Diverged))" using user_inv_heap [OF 1(1)] by (simp add: left_good_def)
  ultimately show ?thesis
    by (cases e) (simp_all only: drive_main_def Some p option.case prod.case outcome.case Let_def)
qed (simp add: drive_main_def left_good_def)

section \<open>A run and a sweep\<close>

lemma users_ok_init: "J objs {} \<Longrightarrow> users_ok J {} (world_init streams sd limit objs)"
  by (simp add: users_ok_def callbacks_def queues_ok_def world_init_def net_init_def loop_init_def net.defs loop.defs)

lemma drive_good:
  fixes scenario :: "('m, 'v, 's) code option"
  assumes "\<And>c. scenario = Some c \<Longrightarrow> steady J {} c" and J: "J objs {}"
  shows "left_good J (drive running scenario (world_init streams sd limit objs))"
proof (cases "running \<or> scenario = None")
  case True
  have "\<exists>M. J (heap (world_init streams sd limit objs)) M" using J by (auto simp: world_init_def net.defs)
  with True show ?thesis by (cases running) (auto simp: drive_def left_good_def no_violation_def no_violation_kind_def exn_def)
next
  case False
  then obtain c where c: "scenario = Some c" "\<not> running" by auto
  let ?w = "world_init streams sd limit objs :: ('m, 'v, 's) world"
  let ?w1 = "limit_steps (max_steps ?w) (Some LivelockError) ?w"
  have "user_inv J (streams sd ''net'') ?w" by (rule user_invI [OF world_ok_init users_ok_init [of J, OF J]])
  then have "user_inv J (streams sd ''net'') ?w1"
    by (rule user_inv_limit) (simp_all add: stopped_early_def no_violation_kind_def)
  then have "user_inv J (streams sd ''net'') (fst (spawn c ?w1))"
    using assms(1) [OF c(1)] steady_mono [of J "{}" c]
    by (auto simp: user_inv_def intro!: world_ok_fine [OF _ fine_spawn] users_spawn)
  then have "left_good J (drive_main (snd (spawn c ?w1)) (fst (spawn c ?w1)))" by (rule drive_main_good)
  with c show ?thesis by (simp add: drive_def case_prod_unfold Let_def)
qed

text \<open>What a call of a scenario gives: an exception of its own, or code that keeps \<open>J\<close>.\<close>

definition keeps_promise :: "('s \<Rightarrow> 'm pool \<Rightarrow> bool) \<Rightarrow> ('m, 'v, 's) call \<Rightarrow> bool" where
  "keeps_promise J c = (case c of
     CallRaises e \<Rightarrow> no_violation e
   | CallReturns None \<Rightarrow> True
   | CallReturns (Some c) \<Rightarrow> steady J {} c)"

lemma run_one_good:
  assumes k: "keeps_promise J (scenario sd)" and J: "J objs {}"
  shows "left_good J (run_one streams running objs scenario limit sd)"
proof (cases "scenario sd")
  case (CallRaises e)
  then show ?thesis using k J
    by (auto simp: run_one_def left_good_def keeps_promise_def world_init_def net.defs)
next
  case (CallReturns c)
  have "left_good J (drive running c (world_init streams sd limit objs))"
    using k CallReturns by (intro drive_good J) (auto simp: keeps_promise_def)
  then show ?thesis using CallReturns
    by (auto simp: run_one_def left_good_def Let_def split: if_splits)
qed

fun check_error :: "check_end \<Rightarrow> exn option" where
  "check_error (CheckResult n s e) = e"
| "check_error (CheckRaised e) = Some e"
| "check_error CheckDiverges = None"

lemma check_loop_good:
  assumes "\<And>s x. run s = Some (Raised x) \<Longrightarrow> no_violation x" and "check_error (check_loop run b k ss) = Some e"
  shows "no_violation e"
  using assms(2)
proof (induction ss arbitrary: k)
  case (Cons s ss)
  show ?case
  proof (cases "run s")
    case (Some r)
    with Cons assms(1) [of s] show ?thesis
      by (cases r) (auto simp: Let_def add_note_def no_violation_def split: if_splits)
  qed (use Cons.prems in simp)
qed simp

lemma check_good:
  fixes scenario :: "('m, 'v, 's) scenario"
  assumes J: "J objs {}" and k: "\<And>s. keeps_promise J (scenario s)"
    and e: "check_error (check streams running objs scenario limit seeds b) = Some e"
  shows "no_violation e"
proof (cases "preflight running limit")
  case (Inl k)
  then show ?thesis using e
    by (auto simp: check_def preflight_def no_violation_def no_violation_kind_def exn_def split: if_splits limit_arg.splits)
next
  case (Inr n)
  let ?run = "\<lambda>s. map_option snd (run_one streams running objs scenario n s)"
  have r: "no_violation x" if "?run s = Some (Raised x)" for s x
    using run_one_good [where J = J and scenario = scenario, OF k J] that by (fastforce simp: left_good_def)
  have "check_error (check_loop ?run b 0 (seed_list seeds)) = Some e" using e Inr by (simp add: check_def)
  with r show ?thesis by (rule check_loop_good [of ?run])
qed

lemma check_no_alarm:
  "J objs {} \<Longrightarrow> (\<And>s. keeps_promise J (scenario s)) \<Longrightarrow>
    check_error (check streams running objs scenario limit seeds b) \<noteq> Some (Exn (InvariantError name t) notes)"
  using check_good [where J = J and scenario = scenario and e = "Exn (InvariantError name t) notes"]
  by (auto simp: no_violation_def no_violation_kind_def)

text \<open>C3: No false alarm. A scenario whose code keeps a joint invariant of its objects and of the messages it
  sent, and registers only predicates that follow from it, is never reported as a violation, whatever
  the seeds, the entropy, the network's losses, delays and faults, the step limit, and however the run
  ends.\<close>

theorem no_false_alarm:
  assumes "J objs {}" and "\<And>s. keeps_promise J (scenario s)"
  shows "check_error (check streams running objs scenario limit seeds b) \<noteq> Some (Exn (InvariantError name t) notes)"
  by (rule check_no_alarm [where J = J, OF assms])

text \<open>A counter raised by two, checked to be even.\<close>

definition even_pred :: "nat pred" where
  "even_pred h t = (if even h then Holds else Fails)"

definition even_code :: "(nat, nat, nat) code" where
  "even_code = Op (OAlways ''even'' even_pred) (\<lambda>_. Heap (\<lambda>h. h + 2) (\<lambda>_. Op (OSleep (Fin 1)) (\<lambda>_. Return)))"

theorem no_false_alarm_witness:
  "check_error (check (\<lambda>_ _. zero_rng) False 0 (\<lambda>_. CallReturns (Some even_code)) (IntLimit 100) (SeedCount 3) True) \<noteq>
    Some (Exn (InvariantError ''even'' (Fin 0)) [])"
proof (rule no_false_alarm [where J = "\<lambda>h _. even h"])
  have "ok (\<lambda>h _. even h) even_code h M" if "even h" for h M
    unfolding even_code_def using that
    by (auto intro!: ok_op ok_heap [OF subset_refl] ok_return simp: implied_def even_pred_def)
  then show "keeps_promise (\<lambda>h _. even h) (CallReturns (Some even_code))"
    by (simp add: keeps_promise_def steady_def)
qed simp

end
