(* ===== verification/User_Calls.thy ===== *)
theory User_Calls
  imports User_Drive
begin

text \<open>
  How user code is put together: a call whose exception propagates, \<open>asyncio.wait_for\<close> around an
  awaitable (an \<open>asyncio.timeout\<close> entered and left), calls in a row, and a \<open>while True\<close> whose passes
  are counted (one more pass than that never comes back). The rules say when such code keeps a joint
  invariant.
\<close>

section \<open>Combinators\<close>

fun on_reply :: "('m reply \<Rightarrow> ('m, 'v, 's) code) \<Rightarrow> 'm reply \<Rightarrow> ('m, 'v, 's) code" where
  "on_reply k (RExn e) = Throw e"
| "on_reply k r = k r"

definition call ::
    "('m, 'v, 's, ('m, 'v, 's) code) op \<Rightarrow> ('m reply \<Rightarrow> ('m, 'v, 's) code) \<Rightarrow> ('m, 'v, 's) code" where
  "call x k = Op x (on_reply k)"

fun calls ::
    "('m, 'v, 's, ('m, 'v, 's) code) op list \<Rightarrow> ('m, 'v, 's) code \<Rightarrow> ('m, 'v, 's) code" where
  "calls [] k = k"
| "calls (x # xs) k = call x (\<lambda>_. calls xs k)"

text \<open>\<open>try: await x; k except: handler\<close>, for an awaitable that is the whole body of the \<open>try\<close>.\<close>

fun on_outcome ::
    "(exn \<Rightarrow> ('m, 'v, 's) code) \<Rightarrow> ('m reply \<Rightarrow> ('m, 'v, 's) code) \<Rightarrow> 'm reply \<Rightarrow> ('m, 'v, 's) code" where
  "on_outcome handler k (RExn e) = handler e"
| "on_outcome handler k r = k r"

definition try_call ::
    "('m, 'v, 's, ('m, 'v, 's) code) op \<Rightarrow> (exn \<Rightarrow> ('m, 'v, 's) code) \<Rightarrow> ('m reply \<Rightarrow> ('m, 'v, 's) code) \<Rightarrow> ('m, 'v, 's) code" where
  "try_call x handler k = Op x (on_outcome handler k)"

definition exn_of :: "'m reply \<Rightarrow> exn option" where
  "exn_of r = (case r of RExn e \<Rightarrow> Some e | _ \<Rightarrow> None)"

text \<open>The continuation gets the reply of the awaitable, or the exception \<open>wait_for\<close> raises.\<close>

definition wait_for ::
    "('m, 'v, 's, ('m, 'v, 's) code) op \<Rightarrow> pyfloat \<Rightarrow> ('m reply \<Rightarrow> ('m, 'v, 's) code) \<Rightarrow> ('m, 'v, 's) code" where
  "wait_for x t k = Op (OTimeout t) (\<lambda>i. case i of
     RId n \<Rightarrow> Op x (\<lambda>r. Op (OTimeoutEnd n (exn_of r)) (\<lambda>y. case y of RExn e \<Rightarrow> k (RExn e) | _ \<Rightarrow> k r))
   | RExn e \<Rightarrow> k (RExn e)
   | _ \<Rightarrow> Throw (exn (PyError ''TypeError'')))"

definition is_timeout :: "exn \<Rightarrow> bool" where
  "is_timeout e = (ekind e = PyError ''TimeoutError'')"

section \<open>Rules\<close>

lemma ok_call:
  assumes "args_ok J M x" and "\<And>c h' M'. c \<in> set (sub_codes x) \<Longrightarrow> M \<subseteq> M' \<Longrightarrow> J h' M' \<Longrightarrow> ok J c h' M'"
    and "\<And>r h' M'. M \<subseteq> M' \<Longrightarrow> J h' M' \<Longrightarrow> op_reply M' x r \<Longrightarrow> ok J (k r) h' M'"
  shows "ok J (call x k) h M"
proof -
  have "ok J (on_reply k r) h' M'" if "M \<subseteq> M'" "J h' M'" "op_reply M' x r" for r h' M'
    using assms(3) [OF that] that(3) by (cases "(k, r)" rule: on_reply.cases) (auto intro!: ok_throw simp: reply_good_def)
  then show ?thesis unfolding call_def using assms(1,2) by (rule_tac ok_op)
qed

lemma ok_calls:
  assumes "\<And>x M'. x \<in> set xs \<Longrightarrow> M \<subseteq> M' \<Longrightarrow> args_ok J M' x"
    and "\<And>x c h' M'. x \<in> set xs \<Longrightarrow> c \<in> set (sub_codes x) \<Longrightarrow> M \<subseteq> M' \<Longrightarrow> J h' M' \<Longrightarrow> ok J c h' M'"
    and "\<And>h' M'. M \<subseteq> M' \<Longrightarrow> J h' M' \<Longrightarrow> ok J k h' M'" and "J h M"
  shows "ok J (calls xs k) h M"
  using assms
proof (induction xs arbitrary: h M)
  case (Cons x xs)
  have "ok J (calls xs k) h' M'" if "M \<subseteq> M'" "J h' M'" for h' M'
    by (rule Cons.IH) (use Cons.prems that in \<open>meson list.set_intros(2) subset_trans\<close>)+
  note rest = this
  have "ok J (call x (\<lambda>_. calls xs k)) h M"
  proof (rule ok_call)
    show "ok J c h' M'" if "c \<in> set (sub_codes x)" "M \<subseteq> M'" "J h' M'" for c h' M'
      using Cons.prems(2) [OF list.set_intros(1) that] .
  qed (use Cons.prems(1) rest in simp_all)
  then show ?case by simp
qed simp

lemma ok_wait_for:
  assumes "args_ok J M x" and mono: "\<And>M'. M \<subseteq> M' \<Longrightarrow> args_ok J M' x" and "sub_codes x = []"
    and k: "\<And>r h' M'. M \<subseteq> M' \<Longrightarrow> J h' M' \<Longrightarrow> op_reply M' x r \<Longrightarrow> ok J (k r) h' M'"
  shows "ok J (wait_for x t k) h M"
  unfolding wait_for_def
proof (rule ok_op)
  fix r h1 M1
  assume 1: "M \<subseteq> M1" "J h1 M1" "op_reply M1 (OTimeout t) r"
  have good: "op_reply M' x r'" if "reply_good r'" "\<forall>s m. r' \<noteq> RItem s m" for r' and M'
    using that by (cases "(M', x, r')" rule: op_reply.cases) auto
  have exn: "ok J (k (RExn e)) h' M'" if "no_violation e" "M \<subseteq> M'" "J h' M'" for e h' M'
    using that by (intro k good) (auto simp: reply_good_def)
  show "ok J (case r of
      RId n \<Rightarrow> Op x (\<lambda>r. Op (OTimeoutEnd n (exn_of r)) (\<lambda>y. case y of RExn e \<Rightarrow> k (RExn e) | _ \<Rightarrow> k r))
    | RExn e \<Rightarrow> k (RExn e)
    | _ \<Rightarrow> Throw (exn (PyError ''TypeError''))) h1 M1"
  proof (cases r)
    case (RId n)
    have "ok J (Op (OTimeoutEnd n (exn_of r')) (\<lambda>y. case y of RExn e \<Rightarrow> k (RExn e) | _ \<Rightarrow> k r')) h2 M2"
      if 2: "M1 \<subseteq> M2" "J h2 M2" "op_reply M2 x r'" for r' h2 M2
    proof (rule ok_op)
      have "r' = RExn e \<Longrightarrow> no_violation e" for e
        using 2(3) by (cases "(M2, x, r')" rule: op_reply.cases) (auto simp: reply_good_def)
      then show "args_ok J M2 (OTimeoutEnd n (exn_of r'))" by (auto simp: exn_of_def split: reply.splits)
      fix y h3 M3
      assume 3: "M2 \<subseteq> M3" "J h3 M3" "op_reply M3 (OTimeoutEnd n (exn_of r')) y"
      have "op_reply M3 x r'"
        using 2(3) 3(1) by (cases "(M2, x, r')" rule: op_reply.cases) auto
      then have "ok J (k r') h3 M3" using 1 2 3 by (intro k) auto
      moreover have "y = RExn e \<Longrightarrow> ok J (k (RExn e)) h3 M3" for e
        using 1 2 3 by (intro exn) (auto simp: reply_good_def)
      ultimately show "ok J (case y of RExn e \<Rightarrow> k (RExn e) | _ \<Rightarrow> k r') h3 M3" by (auto split: reply.split)
    qed simp
    note inner = this
    have "ok J (Op x (\<lambda>r. Op (OTimeoutEnd n (exn_of r)) (\<lambda>y. case y of RExn e \<Rightarrow> k (RExn e) | _ \<Rightarrow> k r))) h1 M1"
      by (rule ok_op) (use assms(3) 1 mono inner in simp_all)
    then show ?thesis using RId by simp
  qed (use 1 in \<open>auto intro!: exn ok_throw simp: reply_good_def no_violation_def no_violation_kind_def exn_def\<close>)
qed simp_all

section \<open>Scripts that sweep a scenario\<close>

text \<open>A call that returns a value, raises, or never comes back.\<close>

datatype 'a returns = Returns 'a | Raises exn | NoReturn

lemma check_fails_replays:
  assumes "check streams running objs scenario limit seeds False = CheckResult n (Some s) e"
  shows "\<exists>e0. replay streams running objs scenario limit s = Some (Raised e0)"
proof -
  obtain k where k: "preflight running limit = Inr k"
    using assms by (auto simp: check_def split: sum.splits)
  then show ?thesis using assms check_loop_fails [of _ False 0 "seed_list seeds" n s e] by (fastforce simp: check_def replay_def)
qed

end
