(* ===== verification/Raft.thy ===== *)
theory Raft
  imports Entropy "HOL-Library.AList"
begin

text \<open>
  The worked demo (\<open>src/seedloop/demos/raft.py\<close>): a Raft leader election with a switch that drops the
  rule of one vote per term. A handler is modelled with the messages it sends, in order; no handler
  suspends between its sends, so each is one step of its node. The network of the cluster may lose,
  duplicate, delay and reorder: a step delivers any message that was ever sent. With the rule, no
  term ever has two leaders; without it, a cluster of three reaches a state with two.
\<close>

section \<open>A node\<close>

datatype role = Follower | Candidate | Leader

datatype raft_msg =
    RequestVote int int
  | VoteMsg int int bool
  | Heartbeat int int
  | OtherMsg

record raft_node =
  addr :: int
  peers :: "int list"
  all_nodes :: nat
  buggy :: bool
  term_no :: int
  role :: role
  voted_for :: "int option"
  votes :: "int set"

definition raft_init :: "int \<Rightarrow> int list \<Rightarrow> bool \<Rightarrow> raft_node" where
  "raft_init a ps bug = \<lparr>addr = a, peers = ps, all_nodes = length ps + 1, buggy = bug, term_no = 0,
     role = Follower, voted_for = None, votes = {}\<rparr>"

definition ELECTION_MIN :: pyfloat where
  "ELECTION_MIN = of_exact (15 / 100)"

definition ELECTION_MAX :: pyfloat where
  "ELECTION_MAX = of_exact (30 / 100)"

definition HEARTBEAT :: pyfloat where
  "HEARTBEAT = of_exact (5 / 100)"

definition election_timeout :: "rng \<Rightarrow> pyfloat \<times> rng" where
  "election_timeout r = uniform ELECTION_MIN ELECTION_MAX r"

text \<open>How long \<open>run\<close> waits for the next message.\<close>

definition receive_timeout :: "raft_node \<Rightarrow> rng \<Rightarrow> pyfloat \<times> rng" where
  "receive_timeout n r = (if role n = Leader then (HEARTBEAT, r) else election_timeout r)"

definition broadcast :: "raft_msg \<Rightarrow> raft_node \<Rightarrow> (int \<times> raft_msg) list" where
  "broadcast m n = map (\<lambda>p. (p, m)) (peers n)"

definition adopt_newer_term :: "int \<Rightarrow> raft_node \<Rightarrow> raft_node" where
  "adopt_newer_term t n =
     (if term_no n < t then n\<lparr>term_no := t, role := Follower, voted_for := None, votes := {}\<rparr> else n)"

definition begin_election :: "raft_node \<Rightarrow> raft_node \<times> (int \<times> raft_msg) list" where
  "begin_election n =
     (let n1 = n\<lparr>term_no := term_no n + 1, role := Candidate, voted_for := Some (addr n), votes := {addr n}\<rparr>
      in (n1, broadcast (RequestVote (term_no n1) (addr n1)) n1))"

definition on_request_vote :: "int \<Rightarrow> int \<Rightarrow> raft_node \<Rightarrow> raft_node \<times> (int \<times> raft_msg) list" where
  "on_request_vote src t n =
     (let n1 = adopt_newer_term t n;
          grant = (t = term_no n1 \<and> role n1 \<noteq> Leader \<and> (buggy n1 \<or> voted_for n1 \<in> {None, Some src}));
          n2 = (if grant then n1\<lparr>voted_for := Some src\<rparr> else n1)
      in (n2, [(src, VoteMsg (term_no n2) (addr n2) grant)]))"

definition on_vote :: "int \<Rightarrow> int \<Rightarrow> bool \<Rightarrow> raft_node \<Rightarrow> raft_node \<times> (int \<times> raft_msg) list" where
  "on_vote t voter granted n =
     (if t = term_no n \<and> role n = Candidate \<and> granted then
        let n1 = n\<lparr>votes := insert voter (votes n)\<rparr>
        in if all_nodes n1 div 2 < card (votes n1)
           then (n1\<lparr>role := Leader\<rparr>, broadcast (Heartbeat (term_no n1) (addr n1)) n1)
           else (n1, [])
      else (n, []))"

definition on_heartbeat :: "int \<Rightarrow> raft_node \<Rightarrow> raft_node" where
  "on_heartbeat t n =
     (let n1 = adopt_newer_term t n
      in if t = term_no n1 \<and> role n1 \<noteq> Follower then n1\<lparr>role := Follower\<rparr> else n1)"

fun handle_msg :: "int \<Rightarrow> raft_msg \<Rightarrow> raft_node \<Rightarrow> raft_node \<times> (int \<times> raft_msg) list" where
  "handle_msg src (RequestVote t c) n = on_request_vote src t n"
| "handle_msg src (VoteMsg t voter granted) n = on_vote t voter granted n"
| "handle_msg src (Heartbeat t l) n = (on_heartbeat t n, [])"
| "handle_msg src OtherMsg n = (n, [])"

text \<open>One pass of \<open>run\<close>: a message, or the timeout.\<close>

definition run_pass :: "(int \<times> raft_msg) option \<Rightarrow> raft_node \<Rightarrow> raft_node \<times> (int \<times> raft_msg) list" where
  "run_pass received n = (case received of
     Some (src, m) \<Rightarrow> handle_msg src m n
   | None \<Rightarrow> if role n = Leader then (n, broadcast (Heartbeat (term_no n) (addr n)) n)
             else begin_election n)"

section \<open>The property the scenario checks\<close>

definition add_leader :: "raft_node \<Rightarrow> (int \<times> int set) list \<Rightarrow> (int \<times> int set) list" where
  "add_leader n out =
     (if role n = Leader
      then AList.update (term_no n)
        (insert (addr n) (case map_of out (term_no n) of None \<Rightarrow> {} | Some s \<Rightarrow> s)) out
      else out)"

definition leaders_by_term :: "raft_node list \<Rightarrow> (int \<times> int set) list" where
  "leaders_by_term ns = fold add_leader ns []"

definition at_most_one_leader_per_term :: "raft_node list \<Rightarrow> bool" where
  "at_most_one_leader_per_term ns = (\<forall>p\<in>set (leaders_by_term ns). card (snd p) \<le> 1)"

section \<open>The cluster\<close>

definition election_cluster :: "bool \<Rightarrow> nat \<Rightarrow> raft_node list" where
  "election_cluster bug n =
     map (\<lambda>a. raft_init a (filter (\<lambda>p. p \<noteq> a) (map int [0..<n])) bug) (map int [0..<n])"

type_synonym cluster = "raft_node list \<times> (int \<times> int \<times> raft_msg) set"

text \<open>A pass of node \<open>i\<close> puts its messages on the network.\<close>

definition put :: "(int \<times> int \<times> raft_msg) set \<Rightarrow> nat \<Rightarrow> (int \<times> raft_msg) list \<Rightarrow> (int \<times> int \<times> raft_msg) set" where
  "put net i out = net \<union> (\<lambda>(d, m). (int i, d, m)) ` set out"

definition node_pass :: "nat \<Rightarrow> (int \<times> raft_msg) option \<Rightarrow> cluster \<Rightarrow> cluster" where
  "node_pass i received c = (let (ns, net) = c; (n, out) = run_pass received (ns ! i)
     in (ns[i := n], put net i out))"

inductive cluster_next :: "nat \<Rightarrow> cluster \<Rightarrow> cluster \<Rightarrow> bool" for n where
  cluster_timeout: "i < n \<Longrightarrow> cluster_next n (ns, net) (node_pass i None (ns, net))"
| cluster_receive: "i < n \<Longrightarrow> (src, int i, m) \<in> net \<Longrightarrow>
    cluster_next n (ns, net) (node_pass i (Some (src, m)) (ns, net))"

text \<open>The clusters a run of the scenario goes through.\<close>

definition cluster_run :: "bool \<Rightarrow> nat \<Rightarrow> cluster \<Rightarrow> bool" where
  "cluster_run bug n c = (cluster_next n)\<^sup>*\<^sup>* (election_cluster bug n, {}) c"

section \<open>What the dictionary of leaders says\<close>

definition leads :: "raft_node list \<Rightarrow> int \<Rightarrow> int \<Rightarrow> bool" where
  "leads ns t a = (\<exists>n\<in>set ns. role n = Leader \<and> term_no n = t \<and> addr n = a)"

lemma leads_simps [simp]:
  "leads [] t a = False"
  "leads (n # ns) t a = ((role n = Leader \<and> term_no n = t \<and> addr n = a) \<or> leads ns t a)"
  by (auto simp: leads_def)

lemma distinct_add_leader: "distinct (map fst out) \<Longrightarrow> distinct (map fst (add_leader n out))"
  by (simp add: add_leader_def distinct_update)

lemma map_of_add_leaders:
  "map_of (fold add_leader ns out) t = Some s \<longleftrightarrow>
    (\<exists>a. leads ns t a \<or> map_of out t \<noteq> None) \<and>
    s = {a. leads ns t a} \<union> (case map_of out t of None \<Rightarrow> {} | Some s' \<Rightarrow> s')"
proof (induction ns arbitrary: out)
  case Nil
  show ?case by (auto split: option.splits)
next
  case (Cons n ns)
  show ?case
    unfolding fold_simps Cons
    by (cases "role n = Leader \<and> term_no n = t")
      (auto simp: add_leader_def update_conv' split: option.splits)
qed

lemma distinct_leaders: "distinct (map fst (leaders_by_term ns))"
proof -
  have "distinct (map fst out) \<Longrightarrow> distinct (map fst (fold add_leader ns out))" for out
    by (induction ns arbitrary: out) (simp_all add: distinct_add_leader)
  then show ?thesis by (simp add: leaders_by_term_def)
qed

lemma in_leaders_by_term:
  "(t, s) \<in> set (leaders_by_term ns) \<longleftrightarrow> (\<exists>a. leads ns t a) \<and> s = {a. leads ns t a}"
proof -
  have "(t, s) \<in> set (leaders_by_term ns) \<longleftrightarrow> map_of (leaders_by_term ns) t = Some s"
    using distinct_leaders by (simp add: map_of_eq_Some_iff)
  then show ?thesis by (simp add: leaders_by_term_def map_of_add_leaders)
qed

lemma finite_leads: "finite {a. leads ns t a}"
proof -
  have "{a. leads ns t a} \<subseteq> addr ` set ns" by (auto simp: leads_def)
  then show ?thesis by (rule finite_subset) simp
qed

lemma at_most_one_iff:
  "at_most_one_leader_per_term ns \<longleftrightarrow> (\<forall>t a b. leads ns t a \<longrightarrow> leads ns t b \<longrightarrow> a = b)"
proof -
  have "card {a. leads ns t a} \<le> 1 \<longleftrightarrow> (\<forall>a b. leads ns t a \<longrightarrow> leads ns t b \<longrightarrow> a = b)" for t
    using finite_leads [of ns t] by (auto simp: card_le_Suc0_iff_eq)
  moreover have "at_most_one_leader_per_term ns \<longleftrightarrow> (\<forall>t. card {a. leads ns t a} \<le> 1)"
  proof -
    have "at_most_one_leader_per_term ns \<longleftrightarrow> (\<forall>t s. (t, s) \<in> set (leaders_by_term ns) \<longrightarrow> card s \<le> 1)"
      by (auto simp: at_most_one_leader_per_term_def)
    also have "\<dots> \<longleftrightarrow> (\<forall>t. (\<exists>a. leads ns t a) \<longrightarrow> card {a. leads ns t a} \<le> 1)"
      by (simp only: in_leaders_by_term) blast
    also have "\<dots> \<longleftrightarrow> (\<forall>t. card {a. leads ns t a} \<le> 1)"
      by (metis (mono_tags, lifting) card.empty empty_Collect_eq zero_le)
    finally show ?thesis .
  qed
  ultimately show ?thesis by simp
qed

section \<open>Election safety\<close>

text \<open>
  \<open>v\<close> has voted for \<open>c\<close> in term \<open>t\<close>: it granted a vote, or asked for votes itself. Messages are never
  taken off the network, so a vote once cast stays cast.
\<close>

definition cast :: "(int \<times> int \<times> raft_msg) set \<Rightarrow> int \<Rightarrow> int \<Rightarrow> int \<Rightarrow> bool" where
  "cast net v t c = ((v, c, VoteMsg t v True) \<in> net \<or> v = c \<and> (\<exists>d. (v, d, RequestVote t v) \<in> net))"

definition node_ok :: "nat \<Rightarrow> (int \<times> int \<times> raft_msg) set \<Rightarrow> nat \<Rightarrow> raft_node \<Rightarrow> bool" where
  "node_ok n net i nd = (addr nd = int i \<and> peers nd = filter (\<lambda>p. p \<noteq> int i) (map int [0..<n]) \<and>
     all_nodes nd = n \<and> \<not> buggy nd \<and>
     (\<forall>t c. cast net (int i) t c \<longrightarrow> t \<le> term_no nd \<and> (t = term_no nd \<longrightarrow> voted_for nd = Some c)) \<and>
     (role nd \<noteq> Follower \<longrightarrow> finite (votes nd) \<and> (\<forall>v\<in>votes nd. cast net v (term_no nd) (int i))) \<and>
     (role nd = Leader \<longrightarrow> n div 2 < card (votes nd)))"

text \<open>Every message on the network says what its sender did, and nobody votes twice in a term.\<close>

definition wire_ok :: "nat \<Rightarrow> (int \<times> int \<times> raft_msg) set \<Rightarrow> bool" where
  "wire_ok n net = ((\<forall>v c t v' g. (v, c, VoteMsg t v' g) \<in> net \<longrightarrow> v' = v) \<and>
     (\<forall>v d t c. (v, d, RequestVote t c) \<in> net \<longrightarrow> c = v) \<and>
     (\<forall>v d m. (v, d, m) \<in> net \<longrightarrow> 0 \<le> v \<and> v < int n) \<and>
     (\<forall>v t c c'. cast net v t c \<longrightarrow> cast net v t c' \<longrightarrow> c = c'))"

definition cluster_ok :: "nat \<Rightarrow> cluster \<Rightarrow> bool" where
  "cluster_ok n c = (length (fst c) = n \<and> wire_ok n (snd c) \<and> (\<forall>i<n. node_ok n (snd c) i (fst c ! i)))"

lemma cast_mono: "cast net v t c \<Longrightarrow> net \<subseteq> net' \<Longrightarrow> cast net' v t c"
  by (auto simp: cast_def)

lemma cast_range: "wire_ok n net \<Longrightarrow> cast net v t c \<Longrightarrow> 0 \<le> v \<and> v < int n"
  unfolding wire_ok_def cast_def by blast

text \<open>What a node casts by sending \<open>out\<close>.\<close>

definition casts_by :: "int \<Rightarrow> (int \<times> raft_msg) list \<Rightarrow> int \<Rightarrow> int \<Rightarrow> bool" where
  "casts_by v out t c = ((c, VoteMsg t v True) \<in> set out \<or> v = c \<and> (\<exists>d. (d, RequestVote t v) \<in> set out))"

lemma in_put: "(v, d, m) \<in> put net i out \<longleftrightarrow> (v, d, m) \<in> net \<or> v = int i \<and> (d, m) \<in> set out"
  by (auto simp: put_def)

lemma cast_put: "cast (put net i out) v t c \<longleftrightarrow> cast net v t c \<or> v = int i \<and> casts_by v out t c"
  by (auto simp: cast_def casts_by_def in_put)

lemma cluster_ok_pass:
  assumes ok: "cluster_ok n (ns, net)" and i: "i < n"
    and out: "\<forall>d t v g. (d, VoteMsg t v g) \<in> set out \<longrightarrow> v = int i"
      "\<forall>d t c. (d, RequestVote t c) \<in> set out \<longrightarrow> c = int i"
    and node: "node_ok n (put net i out) i nd"
    and once: "\<forall>t c. casts_by (int i) out t c \<longrightarrow> (\<forall>c'. cast net (int i) t c' \<or> casts_by (int i) out t c' \<longrightarrow> c' = c)"
  shows "cluster_ok n (ns[i := nd], put net i out)"
proof -
  have w: "wire_ok n net" and len: "length ns = n" and nodes: "\<And>j. j < n \<Longrightarrow> node_ok n net j (ns ! j)"
    using ok by (auto simp: cluster_ok_def)
  have "wire_ok n (put net i out)"
    unfolding wire_ok_def
  proof (intro conjI allI impI)
    show "v' = v" if "(v, c, VoteMsg t v' g) \<in> put net i out" for v c t v' g
      using that w out(1) unfolding wire_ok_def in_put by blast
    show "c = v" if "(v, d, RequestVote t c) \<in> put net i out" for v d t c
      using that w out(2) unfolding wire_ok_def in_put by blast
    have "(v, d, m) \<in> net \<Longrightarrow> 0 \<le> v \<and> v < int n" for v d m using w unfolding wire_ok_def by blast
    then show "0 \<le> v" "v < int n" if "(v, d, m) \<in> put net i out" for v d m
      using that i unfolding in_put by auto
    show "c = c'" if "cast (put net i out) v t c" "cast (put net i out) v t c'" for v t c c'
      using that once w unfolding cast_put wire_ok_def by blast
  qed
  moreover have "node_ok n (put net i out) j (ns[i := nd] ! j)" if "j < n" for j
  proof (cases "j = i")
    case True
    then show ?thesis using node len i by simp
  next
    case False
    then show ?thesis
      using nodes [OF that] len by (auto simp: node_ok_def cast_put)
  qed
  ultimately show ?thesis using len by (simp add: cluster_ok_def)
qed

text \<open>A pass that casts no vote.\<close>

lemma cluster_ok_silent:
  assumes ok: "cluster_ok n (ns, net)" and i: "i < n"
    and out: "\<forall>d t v g. (d, VoteMsg t v g) \<in> set out \<longrightarrow> v = int i \<and> \<not> g" "\<forall>d t c. (d, RequestVote t c) \<notin> set out"
    and node: "node_ok n net i nd"
  shows "cluster_ok n (ns[i := nd], put net i out)"
proof -
  have no: "\<not> casts_by v out t c" for v t c using out by (auto simp: casts_by_def)
  have "node_ok n (put net i out) i nd" using node by (simp add: node_ok_def cast_put no)
  then show ?thesis using out no by (intro cluster_ok_pass [OF ok i]) auto
qed

lemma node_ok_adopt: "node_ok n net i nd \<Longrightarrow> node_ok n net i (adopt_newer_term t nd)"
  by (fastforce simp: node_ok_def adopt_newer_term_def)

lemma not_casts_heartbeat [simp]: "(d, VoteMsg t v g) \<notin> set (broadcast (Heartbeat a b) nd)"
  "(d, RequestVote t c) \<notin> set (broadcast (Heartbeat a b) nd)"
  by (auto simp: broadcast_def)

lemma cluster_ok_begin:
  assumes ok: "cluster_ok n (ns, net)" and i: "i < n" and n: "2 \<le> n" and r: "begin_election (ns ! i) = (nd, out)"
  shows "cluster_ok n (ns[i := nd], put net i out)"
proof -
  have node: "node_ok n net i (ns ! i)" using ok i by (simp add: cluster_ok_def)
  then have a: "addr (ns ! i) = int i" by (simp add: node_ok_def)
  let ?t = "term_no (ns ! i) + 1"
  have out: "out = map (\<lambda>p. (p, RequestVote ?t (int i))) (peers (ns ! i))"
    and nd: "nd = (ns ! i)\<lparr>term_no := ?t, role := Candidate, voted_for := Some (int i), votes := {int i}\<rparr>"
    using r a by (auto simp: begin_election_def broadcast_def Let_def)
  have c: "casts_by (int i) out t c \<longleftrightarrow> t = ?t \<and> c = int i \<and> peers (ns ! i) \<noteq> []" for t c
    by (cases "peers (ns ! i)") (auto simp: casts_by_def out)
  have "(if i = 0 then 1 else 0) \<in> set (peers (ns ! i))" using node n by (auto simp: node_ok_def image_iff Bex_def)
  then have p: "peers (ns ! i) \<noteq> []" by auto
  have old: "cast net (int i) t c \<Longrightarrow> t < ?t" for t c using node by (fastforce simp: node_ok_def)
  have "node_ok n (put net i out) i nd"
    using node p old by (auto simp: node_ok_def nd cast_put c dest: old)
  then show ?thesis
    using old by (intro cluster_ok_pass [OF ok i]) (auto simp: out c [unfolded out] dest: old)
qed

lemma cluster_ok_request:
  assumes ok: "cluster_ok n (ns, net)" and i: "i < n" and r: "on_request_vote src t (ns ! i) = (nd, out)"
  shows "cluster_ok n (ns[i := nd], put net i out)"
proof -
  let ?n1 = "adopt_newer_term t (ns ! i)"
  have node: "node_ok n net i ?n1" using ok i node_ok_adopt by (simp add: cluster_ok_def)
  then have a: "addr ?n1 = int i" and b: "\<not> buggy ?n1" by (simp_all add: node_ok_def)
  show ?thesis
  proof (cases "t = term_no ?n1 \<and> role ?n1 \<noteq> Leader \<and> voted_for ?n1 \<in> {None, Some src}")
    case False
    then have "nd = ?n1" "out = [(src, VoteMsg (term_no ?n1) (int i) False)]"
      using r a b by (auto simp: on_request_vote_def Let_def)
    then show ?thesis using node by (intro cluster_ok_silent [OF ok i]) auto
  next
    case True
    then have nd: "nd = ?n1\<lparr>voted_for := Some src\<rparr>" and out: "out = [(src, VoteMsg (term_no ?n1) (int i) True)]"
      using r a b by (auto simp: on_request_vote_def Let_def)
    have c: "casts_by (int i) out t' c \<longleftrightarrow> t' = term_no ?n1 \<and> c = src" for t' c
      by (auto simp: casts_by_def out)
    have old: "cast net (int i) t' c \<Longrightarrow> t' \<le> term_no ?n1 \<and> (t' = term_no ?n1 \<longrightarrow> c = src)" for t' c
      using node True by (fastforce simp: node_ok_def)
    have "node_ok n (put net i out) i nd"
      using node True old by (auto simp: node_ok_def nd cast_put c)
    then show ?thesis
      using old by (intro cluster_ok_pass [OF ok i]) (auto simp: out c [unfolded out])
  qed
qed

lemma cluster_ok_vote:
  assumes ok: "cluster_ok n (ns, net)" and i: "i < n" and m: "(src, int i, VoteMsg t v g) \<in> net"
    and r: "on_vote t v g (ns ! i) = (nd, out)"
  shows "cluster_ok n (ns[i := nd], put net i out)"
proof -
  have node: "node_ok n net i (ns ! i)" using ok i by (simp add: cluster_ok_def)
  have "v = src" using ok m unfolding cluster_ok_def wire_ok_def snd_conv by blast
  then have "g \<Longrightarrow> cast net v t (int i)" using m by (auto simp: cast_def)
  then have "node_ok n net i nd" "\<forall>d t v g. (d, VoteMsg t v g) \<notin> set out" "\<forall>d t c. (d, RequestVote t c) \<notin> set out"
    using r node by (auto simp: on_vote_def Let_def node_ok_def split: if_splits)
  then show ?thesis by (intro cluster_ok_silent [OF ok i]) auto
qed

lemma length_peers:
  assumes "i < n"
  shows "length (filter (\<lambda>p. p \<noteq> int i) (map int [0..<n])) = n - 1"
proof -
  have "filter (\<lambda>p. p \<noteq> int i) (map int [0..<n]) = removeAll (int i) (map int [0..<n])"
    unfolding removeAll_filter_not_eq by (rule filter_cong) auto
  also have "\<dots> = remove1 (int i) (map int [0..<n])"
    by (rule distinct_remove1_removeAll [symmetric]) (simp add: distinct_map)
  finally show ?thesis using assms by (simp add: length_remove1)
qed

lemma cluster_ok_start: "cluster_ok n (election_cluster False n, {})"
  using length_peers [of _ n] by (auto simp: cluster_ok_def wire_ok_def node_ok_def cast_def election_cluster_def raft_init_def)

lemma cluster_ok_next:
  assumes step: "cluster_next n c c'" and ok: "cluster_ok n c" and n: "2 \<le> n"
  shows "cluster_ok n c'"
  using step
proof (cases rule: cluster_next.cases)
  case (cluster_timeout i ns net)
  note 1 = cluster_timeout and ok = ok [unfolded cluster_timeout(1)]
  show ?thesis
  proof (cases "role (ns ! i) = Leader")
    case True
    have "node_ok n net i (ns ! i)" using ok 1 by (simp add: cluster_ok_def)
    then show ?thesis
      using 1 True cluster_ok_silent [OF ok 1(3), of "broadcast (Heartbeat (term_no (ns ! i)) (addr (ns ! i))) (ns ! i)" "ns ! i"]
      by (simp add: node_pass_def run_pass_def)
  next
    case False
    obtain nd out where r: "begin_election (ns ! i) = (nd, out)" by fastforce
    show ?thesis using 1 False r cluster_ok_begin [OF ok 1(3) n r] by (simp add: node_pass_def run_pass_def)
  qed
next
  case (cluster_receive i src m net ns)
  note 2 = cluster_receive and ok = ok [unfolded cluster_receive(1)]
  obtain nd out where r: "handle_msg src m (ns ! i) = (nd, out)" by fastforce
  have node: "node_ok n net i (ns ! i)" using ok 2 by (simp add: cluster_ok_def)
  have "cluster_ok n (ns[i := nd], put net i out)"
  proof (cases m)
    case (RequestVote t c)
    then show ?thesis using cluster_ok_request [OF ok 2(3)] r by simp
  next
    case (VoteMsg t v g)
    then show ?thesis using cluster_ok_vote [OF ok 2(3), of src t v g] 2(4) r by simp
  next
    case (Heartbeat t l)
    have "node_ok n net i (on_heartbeat t (ns ! i))"
      using node_ok_adopt [OF node, of t] by (auto simp: on_heartbeat_def Let_def node_ok_def)
    then show ?thesis using r Heartbeat by (intro cluster_ok_silent [OF ok 2(3)]) auto
  next
    case OtherMsg
    then show ?thesis using r node by (intro cluster_ok_silent [OF ok 2(3)]) auto
  qed
  then show ?thesis using 2 r by (simp add: node_pass_def run_pass_def)
qed

lemma cluster_ok_run:
  assumes "(cluster_next n)\<^sup>*\<^sup>* c c'" and "cluster_ok n c" and "2 \<le> n"
  shows "cluster_ok n c'" and "snd c \<subseteq> snd c'"
proof -
  have "cluster_ok n c' \<and> snd c \<subseteq> snd c'"
    using assms(1)
  proof induction
    case (step c' c'')
    have "snd c' \<subseteq> snd c''"
      using step.hyps(2) by (cases rule: cluster_next.cases) (auto simp: node_pass_def put_def split: prod.splits)
    then show ?case using step.IH cluster_ok_next [OF step.hyps(2) _ assms(3)] by blast
  qed (simp add: assms(2))
  then show "cluster_ok n c'" "snd c \<subseteq> snd c'" by blast+
qed

text \<open>Two leaders of one term share a voter, who voted for both.\<close>

lemma leaders_agree:
  assumes ok: "cluster_ok n c" "cluster_ok n c'" and sub: "snd c \<subseteq> snd c'"
    and leads: "leads (fst c) t a" "leads (fst c') t b"
  shows "a = b"
proof -
  obtain ns net where c: "c = (ns, net)" by fastforce
  obtain ns' net' where c': "c' = (ns', net')" by fastforce
  have w: "wire_ok n net" "wire_ok n net'" and sub: "net \<subseteq> net'" using ok sub by (simp_all add: cluster_ok_def c c')
  obtain i where i: "i < n" "role (ns ! i) = Leader" "term_no (ns ! i) = t" "addr (ns ! i) = a"
    using leads(1) ok(1) by (auto simp: leads_def cluster_ok_def c in_set_conv_nth)
  obtain j where j: "j < n" "role (ns' ! j) = Leader" "term_no (ns' ! j) = t" "addr (ns' ! j) = b"
    using leads(2) ok(2) by (auto simp: leads_def cluster_ok_def c' in_set_conv_nth)
  have ni: "node_ok n net i (ns ! i)" and nj: "node_ok n net' j (ns' ! j)"
    using ok i j by (simp_all add: cluster_ok_def c c')
  let ?A = "votes (ns ! i)" and ?B = "votes (ns' ! j)"
  have A: "finite ?A" "n div 2 < card ?A" "\<And>v. v \<in> ?A \<Longrightarrow> cast net v t a" using ni i by (auto simp: node_ok_def)
  have B: "finite ?B" "n div 2 < card ?B" "\<And>v. v \<in> ?B \<Longrightarrow> cast net' v t b" using nj j by (auto simp: node_ok_def)
  have "?A \<union> ?B \<subseteq> {0..<int n}"
    using cast_range [OF w(1) A(3)] cast_range [OF w(2) B(3)] by auto
  then have "card (?A \<union> ?B) \<le> card {0..<int n}" by (intro card_mono) auto
  then have "?A \<inter> ?B \<noteq> {}" using A(1,2) B(1,2) card_Un_disjoint [of ?A ?B] by fastforce
  then obtain v where "cast net v t a" "cast net' v t b" using A(3) B(3) by blast
  then show ?thesis using cast_mono [OF _ sub] w(2) unfolding wire_ok_def by blast
qed

lemma addr_run_pass: "addr (fst (run_pass r n)) = addr n"
  by (cases "(case r of None \<Rightarrow> 0 | Some p \<Rightarrow> fst p, case r of None \<Rightarrow> OtherMsg | Some p \<Rightarrow> snd p, n)" rule: handle_msg.cases)
    (auto simp: run_pass_def begin_election_def on_request_vote_def on_vote_def on_heartbeat_def
      adopt_newer_term_def Let_def split: option.splits)

lemma next_timeout: "i < n \<Longrightarrow> cluster_next n c (node_pass i None c)"
  by (cases c) (simp add: cluster_timeout)

lemma next_receive: "i < n \<Longrightarrow> (src, int i, m) \<in> snd c \<Longrightarrow> cluster_next n c (node_pass i (Some (src, m)) c)"
  by (cases c) (simp add: cluster_receive)

lemma addrs_pass: "map addr (fst (node_pass i r c)) = map addr (fst c)"
proof -
  have "fst (node_pass i r c) = (fst c)[i := fst (run_pass r (fst c ! i))]"
    by (simp add: node_pass_def case_prod_unfold Let_def)
  then show ?thesis using addr_run_pass [of r "fst c ! i"] by (metis list_update_id map_update)
qed

lemma addrs_next: "cluster_next n c c' \<Longrightarrow> map addr (fst c') = map addr (fst c)"
  by (induction rule: cluster_next.induct) (simp_all add: addrs_pass)

lemma addrs_run: "(cluster_next n)\<^sup>*\<^sup>* c c' \<Longrightarrow> map addr (fst c') = map addr (fst c)"
  by (induction rule: rtranclp_induct) (auto dest: addrs_next)

lemma addrs_cluster: "cluster_run bug n (ns, net) \<Longrightarrow> map addr ns = map int [0..<n]"
  using addrs_run [of n "(election_cluster bug n, {})" "(ns, net)"]
  by (simp add: cluster_run_def election_cluster_def raft_init_def o_def)

lemma election_safe:
  assumes run: "cluster_run False n (ns, net)" and later: "(cluster_next n)\<^sup>*\<^sup>* (ns, net) (ns', net')"
  shows "at_most_one_leader_per_term ns \<and> (\<forall>t a b. leads ns t a \<longrightarrow> leads ns' t b \<longrightarrow> a = b)"
proof -
  have agree: "leads ns1 t a \<Longrightarrow> leads ns2 t b \<Longrightarrow> a = b"
    if "cluster_run False n (ns1, net1)" "(cluster_next n)\<^sup>*\<^sup>* (ns1, net1) (ns2, net2)" for ns1 net1 ns2 net2 t a b
  proof (cases "2 \<le> n")
    case True
    have ok1: "cluster_ok n (ns1, net1)"
      using cluster_ok_run(1) [OF _ cluster_ok_start True] that(1) by (auto simp: cluster_run_def)
    note ok2 = cluster_ok_run [OF that(2) ok1 True]
    show "leads ns1 t a \<Longrightarrow> leads ns2 t b \<Longrightarrow> a = b" using leaders_agree [OF ok1 ok2] by simp
  next
    case False
    have "map addr ns1 = map int [0..<n]" "map addr ns2 = map addr ns1"
      using addrs_cluster [OF that(1)] addrs_run [OF that(2)] by simp_all
    then have e: "addr ` set ns1 = int ` set [0..<n]" "addr ` set ns2 = addr ` set ns1"
      by (metis list.set_map)+
    have z: "int ` set [0..<n] \<subseteq> {0}" using False by auto
    have "leads ns t a \<Longrightarrow> a \<in> addr ` set ns" for ns t a by (auto simp: leads_def)
    then have "leads ns1 t a \<Longrightarrow> a \<in> {0}" "leads ns2 t b \<Longrightarrow> b \<in> {0}"
      using e z by (metis subsetD)+
    then show "leads ns1 t a \<Longrightarrow> leads ns2 t b \<Longrightarrow> a = b" by simp
  qed
  have "at_most_one_leader_per_term ns"
    unfolding at_most_one_iff using agree [OF run rtranclp.rtrancl_refl] by blast
  then show ?thesis using agree [OF run later] by blast
qed

text \<open>C9: Election safety: with the rule of one vote per term, whatever the network loses, duplicates, delays
  or reorders and whenever timeouts fire, no state of a run has two leaders in one term, and no term
  that has a leader ever gets another one later.\<close>

theorem election_safety:
  assumes "cluster_run False n (ns, net)" and "(cluster_next n)\<^sup>*\<^sup>* (ns, net) (ns', net')"
  shows "at_most_one_leader_per_term ns \<and> (\<forall>t a b. leads ns t a \<longrightarrow> leads ns' t b \<longrightarrow> a = b)"
  by (rule election_safe [OF assms])

text \<open>Two nodes, one of them elected: it times out, asks the other for its vote, and gets it.\<close>

definition demo_elected :: cluster where
  "demo_elected = node_pass 0 (Some (1, VoteMsg 1 1 True)) (node_pass 1 (Some (0, RequestVote 1 0))
     (node_pass 0 None (election_cluster False 2, {})))"

lemmas raft_eval = election_cluster_def raft_init_def node_pass_def run_pass_def begin_election_def
  on_request_vote_def on_vote_def broadcast_def adopt_newer_term_def put_def Let_def numeral_eq_Suc

lemma three_div_two: "Suc (Suc (Suc 0)) div Suc (Suc 0) = Suc 0"
proof -
  have "(3 :: nat) div 2 = 1" by simp
  then show ?thesis unfolding numeral_3_eq_3 numeral_2_eq_2 by simp
qed

lemma demo_elected_run: "cluster_run False 2 demo_elected"
proof -
  let ?c0 = "(election_cluster False 2, {})"
  let ?c1 = "node_pass 0 None ?c0"
  let ?c2 = "node_pass 1 (Some (0, RequestVote 1 0)) ?c1"
  have 1: "cluster_next 2 ?c0 ?c1" by (rule next_timeout) simp
  have 2: "cluster_next 2 ?c1 ?c2" by (rule next_receive) (simp_all add: raft_eval three_div_two)
  have 3: "cluster_next 2 ?c2 demo_elected"
    unfolding demo_elected_def by (rule next_receive) (simp_all add: raft_eval three_div_two)
  have "(cluster_next 2)\<^sup>*\<^sup>* ?c0 ?c2" using 1 2 by (rule rtranclp_trans [OF r_into_rtranclp r_into_rtranclp])
  then show ?thesis unfolding cluster_run_def using 3 by (rule rtranclp.rtrancl_into_rtrancl)
qed

theorem election_safety_witness:
  "leads (fst demo_elected) 1 0 \<and> at_most_one_leader_per_term (fst demo_elected)"
proof
  show "leads (fst demo_elected) 1 0" by (simp add: demo_elected_def raft_eval three_div_two)
  have "cluster_run False 2 (fst demo_elected, snd demo_elected)" using demo_elected_run by simp
  from election_safety [OF this rtranclp.rtrancl_refl] show "at_most_one_leader_per_term (fst demo_elected)" ..
qed

text \<open>C40: The bug the demo plants is real: without the rule, a cluster of three reaches a state with two
  leaders in one term.\<close>

theorem split_brain: "\<exists>c. cluster_run True 3 c \<and> \<not> at_most_one_leader_per_term (fst c)"
proof -
  let ?c0 = "(election_cluster True 3, {})"
  let ?c1 = "node_pass 0 None ?c0"
  let ?c2 = "node_pass 1 None ?c1"
  let ?c3 = "node_pass 2 (Some (0, RequestVote 1 0)) ?c2"
  let ?c4 = "node_pass 2 (Some (1, RequestVote 1 1)) ?c3"
  let ?c5 = "node_pass 0 (Some (2, VoteMsg 1 2 True)) ?c4"
  let ?c6 = "node_pass 1 (Some (2, VoteMsg 1 2 True)) ?c5"
  have "cluster_next 3 ?c0 ?c1" by (rule next_timeout) simp
  then have "cluster_run True 3 ?c1" unfolding cluster_run_def by (rule r_into_rtranclp)
  moreover have "cluster_next 3 ?c1 ?c2" by (rule next_timeout) simp
  moreover have "cluster_next 3 ?c2 ?c3" by (rule next_receive) (simp_all add: raft_eval three_div_two)
  moreover have "cluster_next 3 ?c3 ?c4" by (rule next_receive) (simp_all add: raft_eval three_div_two)
  moreover have "cluster_next 3 ?c4 ?c5" by (rule next_receive) (simp_all add: raft_eval three_div_two)
  moreover have "cluster_next 3 ?c5 ?c6" by (rule next_receive) (simp_all add: raft_eval three_div_two)
  ultimately have "cluster_run True 3 ?c6"
    unfolding cluster_run_def by (meson rtranclp.rtrancl_into_rtrancl)
  moreover have "leads (fst ?c6) 1 0" "leads (fst ?c6) 1 1" by (simp_all add: raft_eval three_div_two)
  then have "\<not> at_most_one_leader_per_term (fst ?c6)"
    unfolding at_most_one_iff by (metis zero_neq_one)
  ultimately show ?thesis by blast
qed

end
