(* ===== verification/Raft_Run.thy ===== *)
theory Raft_Run
  imports User_Calls Raft
begin

text \<open>
  The Raft demo as a scenario of the library (\<open>src/seedloop/demos/raft.py\<close>): \<open>RaftNode.run\<close> and
  \<open>election_scenario\<close> as user code over the model's loop and network. The user's objects are the
  nodes, as their constructors leave them; the handlers are those of \<open>Raft\<close>. A node's
  \<open>while True\<close> is counted: after \<open>passes\<close> passes it no longer comes back.
\<close>

section \<open>The code\<close>

type_synonym 'v raft_code = "(raft_msg, 'v, raft_node list) code"

text \<open>The sends of one pass, in order.\<close>

definition send_out :: "nat \<Rightarrow> (int \<times> raft_msg) list \<Rightarrow> 'v raft_code \<Rightarrow> 'v raft_code" where
  "send_out i out k = calls (map (\<lambda>(d, m). OSend (int i) d m) out) k"

text \<open>A pass of the node's handlers, on the message received or on the timeout.\<close>

definition raft_handle :: "nat \<Rightarrow> (int \<times> raft_msg) option \<Rightarrow> 'v raft_code \<Rightarrow> 'v raft_code" where
  "raft_handle i received k =
     Heap (\<lambda>ns. ns[i := fst (run_pass received (ns ! i))])
       (\<lambda>ns. send_out i (snd (run_pass received (ns ! i))) k)"

definition raft_receive :: "nat \<Rightarrow> pyfloat \<Rightarrow> 'v raft_code \<Rightarrow> 'v raft_code" where
  "raft_receive i timeout k = wait_for (ORecv (int i)) timeout (\<lambda>r. case r of
     RItem src m \<Rightarrow> raft_handle i (Some (src, m)) k
   | RExn e \<Rightarrow> if is_timeout e then raft_handle i None k else Throw e
   | _ \<Rightarrow> Throw (exn (PyError ''TypeError'')))"

fun raft_run :: "nat \<Rightarrow> nat \<Rightarrow> 'v raft_code" where
  "raft_run i 0 = Hang"
| "raft_run i (Suc n) = Heap (\<lambda>ns. ns) (\<lambda>ns.
     if role (ns ! i) = Leader then raft_receive i HEARTBEAT (raft_run i n)
     else call ORandom (\<lambda>r. case r of
         RReal x \<Rightarrow> raft_receive i (uniform_value ELECTION_MIN ELECTION_MAX x) (raft_run i n)
       | _ \<Rightarrow> Throw (exn (PyError ''TypeError''))))"

definition election_pred :: "raft_node list pred" where
  "election_pred ns t = (if at_most_one_leader_per_term ns then Holds else Fails)"

definition election_code :: "nat \<Rightarrow> pyfloat \<Rightarrow> nat \<Rightarrow> 'v raft_code" where
  "election_code n seconds passes =
     calls (map (\<lambda>i. OBind (int i) False (Fin 0) (Fin 0)) [0..<n] @ map (\<lambda>i. OStart [raft_run i passes]) [0..<n] @
       [OAlways ''at-most-one-leader-per-term'' election_pred, OSleep seconds])
     Return"

definition election_scenario :: "nat \<Rightarrow> pyfloat \<Rightarrow> nat \<Rightarrow> (raft_msg, 'v, raft_node list) scenario" where
  "election_scenario n seconds passes sd = CallReturns (Some (election_code n seconds passes))"

text \<open>\<open>seedloop.check\<close> and \<open>seedloop.replay\<close> of the demo's scenario, with three nodes for three seconds.\<close>

definition check_election ::
    "(int \<Rightarrow> string \<Rightarrow> rng) \<Rightarrow> bool \<Rightarrow> nat \<Rightarrow> int \<Rightarrow> check_end" where
  "check_election streams bug passes seeds =
     check streams False (election_cluster bug 3) (election_scenario 3 (Fin 3) passes :: (raft_msg, unit, raft_node list) scenario)
       DEFAULT_MAX_STEPS (SeedCount seeds) False"

definition replay_election :: "(int \<Rightarrow> string \<Rightarrow> rng) \<Rightarrow> bool \<Rightarrow> nat \<Rightarrow> int \<Rightarrow> outcome option" where
  "replay_election streams bug passes sd =
     replay streams False (election_cluster bug 3) (election_scenario 3 (Fin 3) passes :: (raft_msg, unit, raft_node list) scenario)
       DEFAULT_MAX_STEPS sd"

definition find_split_brain :: "(int \<Rightarrow> string \<Rightarrow> rng) \<Rightarrow> nat \<Rightarrow> int \<Rightarrow> int option returns" where
  "find_split_brain streams passes seeds = (case check_election streams True passes seeds of
     CheckResult n s e \<Rightarrow> Returns s | CheckRaised e \<Rightarrow> Raises e | CheckDiverges \<Rightarrow> NoReturn)"

text \<open>
  \<open>main\<close>: no seed found (exit status 1), or the seed, whether its replay raised the violation, and the
  failing seed of the correct election.
\<close>

datatype raft_report = NotFound | Verdict int bool "int option"

definition clean_verdict :: "(int \<Rightarrow> string \<Rightarrow> rng) \<Rightarrow> nat \<Rightarrow> int \<Rightarrow> bool \<Rightarrow> raft_report returns" where
  "clean_verdict streams passes s reproduced = (case check_election streams False passes 200 of
     CheckResult n f e \<Rightarrow> Returns (Verdict s reproduced f) | CheckRaised e \<Rightarrow> Raises e | CheckDiverges \<Rightarrow> NoReturn)"

definition raft_main :: "(int \<Rightarrow> string \<Rightarrow> rng) \<Rightarrow> nat \<Rightarrow> raft_report returns" where
  "raft_main streams passes = (case find_split_brain streams passes 200 of
     Returns None \<Rightarrow> Returns NotFound
   | Returns (Some s) \<Rightarrow> (case replay_election streams True passes s of
       None \<Rightarrow> NoReturn
     | Some Diverged \<Rightarrow> NoReturn
     | Some (Raised e) \<Rightarrow> if isinstance_exn e InvariantErrorC then clean_verdict streams passes s True else Raises e
     | Some Done \<Rightarrow> clean_verdict streams passes s False)
   | Raises e \<Rightarrow> Raises e
   | NoReturn \<Rightarrow> NoReturn)"

section \<open>A correct cluster keeps its promise\<close>

definition raft_inv :: "nat \<Rightarrow> raft_node list \<Rightarrow> raft_msg pool \<Rightarrow> bool" where
  "raft_inv n ns M = cluster_run False n (ns, M)"

lemma raft_inv_pass:
  assumes "raft_inv n ns M" and "i < n" and "\<And>src m. received = Some (src, m) \<Longrightarrow> (src, int i, m) \<in> M"
  shows "raft_inv n (ns[i := fst (run_pass received (ns ! i))]) (put M i (snd (run_pass received (ns ! i))))"
proof -
  have "cluster_next n (ns, M) (node_pass i received (ns, M))"
    using assms(2,3) by (cases received) (auto intro: next_timeout next_receive)
  then show ?thesis
    using assms(1) by (auto simp: raft_inv_def cluster_run_def node_pass_def case_prod_unfold Let_def)
qed

lemma ok_send_out:
  assumes out: "\<And>d m. (d, m) \<in> set out \<Longrightarrow> (int i, d, m) \<in> M" and J: "J h M"
    and k: "\<And>h' M'. M \<subseteq> M' \<Longrightarrow> J h' M' \<Longrightarrow> ok J k h' M'"
  shows "ok J (send_out i out k) h M"
  unfolding send_out_def by (rule ok_calls) (use assms in \<open>fastforce+\<close>)

lemma ok_raft_handle:
  assumes J: "raft_inv n h M" and i: "i < n" and "\<And>src m. received = Some (src, m) \<Longrightarrow> (src, int i, m) \<in> M"
    and k: "\<And>h' M'. M \<subseteq> M' \<Longrightarrow> raft_inv n h' M' \<Longrightarrow> ok (raft_inv n) k h' M'"
  shows "ok (raft_inv n) (raft_handle i received k) h M"
proof -
  let ?M = "put M i (snd (run_pass received (h ! i)))"
  have sub: "M \<subseteq> ?M" by (simp add: put_def)
  have J': "raft_inv n (h[i := fst (run_pass received (h ! i))]) ?M" by (rule raft_inv_pass [OF J i assms(3)])
  show ?thesis unfolding raft_handle_def
  proof (rule ok_heap [where M' = ?M])
    show "ok (raft_inv n) (send_out i (snd (run_pass received (h ! i))) k) (h[i := fst (run_pass received (h ! i))]) ?M"
      by (rule ok_send_out [where J = "raft_inv n", OF _ J']) (use k sub in \<open>force simp: put_def\<close>)+
  qed (rule sub J')+
qed

lemma ok_raft_receive:
  assumes J: "raft_inv n h M" and i: "i < n"
    and k: "\<And>h' M'. M \<subseteq> M' \<Longrightarrow> raft_inv n h' M' \<Longrightarrow> ok (raft_inv n) k h' M'"
  shows "ok (raft_inv n) (raft_receive i t k) h M"
  unfolding raft_receive_def
proof (rule ok_wait_for)
  fix r h' M'
  assume 1: "M \<subseteq> M'" "raft_inv n h' M'" "op_reply M' (ORecv (int i)) r"
  have k': "ok (raft_inv n) k h'' M''" if "M' \<subseteq> M''" "raft_inv n h'' M''" for h'' M''
    using 1(1) that by (intro k) auto
  have handle: "ok (raft_inv n) (raft_handle i received k) h' M'"
    if "\<And>src m. received = Some (src, m) \<Longrightarrow> (src, int i, m) \<in> M'" for received
    by (rule ok_raft_handle [OF 1(2) i that k'])
  show "ok (raft_inv n) (case r of
     RItem src m \<Rightarrow> raft_handle i (Some (src, m)) k
   | RExn e \<Rightarrow> if is_timeout e then raft_handle i None k else Throw e
   | _ \<Rightarrow> Throw (exn (PyError ''TypeError''))) h' M'"
    using 1(3) by (cases r) (auto intro!: ok_throw handle simp: reply_good_def no_violation_def no_violation_kind_def exn_def)
qed simp_all

lemma ok_raft_run:
  "raft_inv n h M \<Longrightarrow> i < n \<Longrightarrow> ok (raft_inv n) (raft_run i p :: 'v raft_code) h M"
proof (induction p arbitrary: h M)
  case 0
  show ?case by (simp add: ok_hang)
next
  case (Suc p)
  have r: "ok (raft_inv n) (raft_receive i t (raft_run i p :: 'v raft_code)) h' M'" if "raft_inv n h' M'" for t h' M'
    by (rule ok_raft_receive [OF that Suc.prems(2) Suc.IH]) (use Suc.prems(2) in simp_all)
  have t: "no_violation (exn (PyError x))" for x by (simp add: no_violation_def no_violation_kind_def exn_def)
  have "ok (raft_inv n) (call ORandom (\<lambda>r. case r of
         RReal x \<Rightarrow> raft_receive i (uniform_value ELECTION_MIN ELECTION_MAX x) (raft_run i p :: 'v raft_code)
       | _ \<Rightarrow> Throw (exn (PyError ''TypeError'')))) h M"
    by (rule ok_call) (auto split: reply.split intro!: r ok_throw t)
  then show ?case using r [OF Suc.prems(1)] Suc.prems(1) by (auto intro!: ok_heap [OF subset_refl])
qed

lemma election_implied: "implied (raft_inv n) election_pred"
  using election_safe [OF _ rtranclp.rtrancl_refl] unfolding implied_def raft_inv_def election_pred_def
  by auto

lemma steady_election: "steady (raft_inv n) {} (election_code n seconds passes)"
  unfolding steady_def election_code_def
  by (intro allI impI, rule ok_calls)
    (auto simp: election_implied intro: ok_return ok_raft_run)

lemma raft_inv_init: "raft_inv n (election_cluster False n) {}"
  by (simp add: raft_inv_def cluster_run_def)

text \<open>C10: The demo's promise, end to end: with the rule of one vote per term, no sweep of the election ever
  reports a violation, for any number of nodes, any seeds and entropy, whatever the network does to the
  messages and however the timeouts race.\<close>

theorem correct_election_passes:
  "check_error (check streams running (election_cluster False n) (election_scenario n seconds passes) limit seeds b) \<noteq>
    Some (Exn (InvariantError name t) notes)"
  by (rule check_no_alarm [where J = "raft_inv n", OF raft_inv_init])
    (simp add: keeps_promise_def election_scenario_def steady_election)

text \<open>The demo gives a verdict only after it has reproduced the violation it found.\<close>

lemma main_reproduces:
  assumes "raft_main streams passes = Returns (Verdict s reproduced f)"
  shows "reproduced \<and> (\<exists>e. replay_election streams True passes s = Some (Raised e) \<and> isinstance_exn e InvariantErrorC)"
proof -
  obtain n e where "check_election streams True passes 200 = CheckResult n (Some s) e"
    using assms
    by (auto simp: raft_main_def find_split_brain_def clean_verdict_def split: check_end.splits option.splits outcome.splits if_splits)
  then obtain e0 where "replay_election streams True passes s = Some (Raised e0)"
    by (auto simp: check_election_def replay_election_def dest!: check_fails_replays)
  then show ?thesis
    using assms
    by (auto simp: raft_main_def find_split_brain_def clean_verdict_def split: check_end.splits option.splits outcome.splits if_splits)
qed

end
