(* ===== verification/Quickstart.thy ===== *)
theory Quickstart
  imports User_Calls
begin

text \<open>
  The example of the README (\<open>src/examples/quickstart.py\<close>): a client that resends a request until it is
  acknowledged in time, and a server that applies it. Requests and acknowledgements are request ids;
  the user's objects are the server's \<open>applied\<close> list. A \<open>while True\<close> is counted: after \<open>passes\<close>
  passes it no longer comes back.
\<close>

section \<open>The code\<close>

type_synonym 'v quick_code = "(int, 'v, int list) code"

definition server_apply :: "bool \<Rightarrow> int \<Rightarrow> int list \<Rightarrow> int list" where
  "server_apply remember request_id applied =
     (if \<not> (remember \<and> request_id \<in> set applied) then applied @ [request_id] else applied)"

fun server_run :: "bool \<Rightarrow> nat \<Rightarrow> 'v quick_code" where
  "server_run remember 0 = Hang"
| "server_run remember (Suc n) = call (ORecv 1) (\<lambda>r. case r of
     RItem sender request_id \<Rightarrow> Heap (server_apply remember request_id)
       (\<lambda>_. call (OSend 1 sender request_id) (\<lambda>_. server_run remember n))
   | _ \<Rightarrow> Throw (exn (PyError ''TypeError'')))"

definition ACK_TIMEOUT :: pyfloat where
  "ACK_TIMEOUT = of_exact (3 / 100)"

fun client_run :: "nat \<Rightarrow> 'v quick_code" where
  "client_run 0 = Hang"
| "client_run (Suc n) = call (OSend 0 1 7) (\<lambda>_. wait_for (ORecv 0) ACK_TIMEOUT (\<lambda>r. case r of
     RExn e \<Rightarrow> if is_timeout e then client_run n else Throw e
   | _ \<Rightarrow> Return))"

definition applied_once :: "int list pred" where
  "applied_once applied t = (if length applied = card (set applied) then Holds else Fails)"

definition quick_code :: "bool \<Rightarrow> nat \<Rightarrow> 'v quick_code" where
  "quick_code remember passes = call (OBind 1 False (Fin 0) (Fin 0)) (\<lambda>_. Heap (\<lambda>_. []) (\<lambda>_. calls
     [OBind 0 False (Fin 0) (Fin 0), OStart [server_run remember passes, client_run passes],
      OAlways ''applied-at-most-once'' applied_once, OSleep (Fin 1)] Return))"

definition make_scenario :: "bool \<Rightarrow> nat \<Rightarrow> (int, 'v, int list) scenario" where
  "make_scenario remember passes sd = CallReturns (Some (quick_code remember passes))"

definition check_quick :: "(int \<Rightarrow> string \<Rightarrow> rng) \<Rightarrow> bool \<Rightarrow> nat \<Rightarrow> check_end" where
  "check_quick streams remember passes =
     check streams False [] (make_scenario remember passes :: (int, unit, int list) scenario)
       DEFAULT_MAX_STEPS (SeedCount 200) False"

definition replay_quick :: "(int \<Rightarrow> string \<Rightarrow> rng) \<Rightarrow> bool \<Rightarrow> nat \<Rightarrow> int \<Rightarrow> outcome option" where
  "replay_quick streams remember passes sd =
     replay streams False [] (make_scenario remember passes :: (int, unit, int list) scenario) DEFAULT_MAX_STEPS sd"

text \<open>
  The script: the failing seed of the forgetful server, whether its replay raised the violation, how
  many seeds of the other one were checked and its failing seed.
\<close>

definition fixed_report ::
    "(int \<Rightarrow> string \<Rightarrow> rng) \<Rightarrow> nat \<Rightarrow> int \<Rightarrow> bool \<Rightarrow> (int \<times> bool \<times> nat \<times> int option) returns" where
  "fixed_report streams passes s reproduced = (case check_quick streams True passes of
     CheckResult n f e \<Rightarrow> Returns (s, reproduced, n, f) | CheckRaised e \<Rightarrow> Raises e | CheckDiverges \<Rightarrow> NoReturn)"

definition quick_main :: "(int \<Rightarrow> string \<Rightarrow> rng) \<Rightarrow> nat \<Rightarrow> (int \<times> bool \<times> nat \<times> int option) returns" where
  "quick_main streams passes = (case check_quick streams False passes of
     CheckResult n None e \<Rightarrow> Raises (exn (PyError ''AssertionError''))
   | CheckResult n (Some s) e \<Rightarrow> (case replay_quick streams False passes s of
       None \<Rightarrow> NoReturn
     | Some Diverged \<Rightarrow> NoReturn
     | Some (Raised e) \<Rightarrow> if isinstance_exn e InvariantErrorC then fixed_report streams passes s True else Raises e
     | Some Done \<Rightarrow> fixed_report streams passes s False)
   | CheckRaised e \<Rightarrow> Raises e
   | CheckDiverges \<Rightarrow> NoReturn)"

section \<open>A server that remembers\<close>

definition applied_inv :: "int list \<Rightarrow> int pool \<Rightarrow> bool" where
  "applied_inv applied M = distinct applied"

lemma py_error_fine [simp]: "no_violation (exn (PyError x))"
  by (simp add: no_violation_def no_violation_kind_def exn_def)

lemma ok_server: "ok applied_inv (server_run True n :: 'v quick_code) h UNIV"
proof (induction n arbitrary: h)
  case (Suc n)
  have "ok applied_inv (Heap (server_apply True i) (\<lambda>_. call (OSend 1 s i) (\<lambda>_. server_run True n)) :: 'v quick_code) h' UNIV"
    if "applied_inv h' UNIV" for s i and h' :: "int list"
    using that by (intro ok_heap [OF subset_refl] ok_call) (auto simp: applied_inv_def server_apply_def Suc top_unique)
  then show ?case
    by (auto intro!: ok_call ok_throw simp: top_unique split: reply.split)
qed (simp add: ok_hang)

lemma ok_client: "ok applied_inv (client_run n :: 'v quick_code) h UNIV"
proof (induction n arbitrary: h)
  case (Suc n)
  have "ok applied_inv (wait_for (ORecv 0) ACK_TIMEOUT (\<lambda>r. case r of
     RExn e \<Rightarrow> if is_timeout e then client_run n else Throw e | _ \<Rightarrow> Return) :: 'v quick_code) h' UNIV" for h'
    by (rule ok_wait_for) (auto intro!: Suc ok_throw ok_return simp: top_unique reply_good_def split: reply.split)
  then show ?case by (auto intro!: ok_call simp: top_unique)
qed (simp add: ok_hang)

lemma steady_quick: "steady applied_inv {} (quick_code True passes :: 'v quick_code)"
proof -
  have "ok applied_inv (calls [OBind 0 False (Fin 0) (Fin 0), OStart [server_run True passes, client_run passes],
      OAlways ''applied-at-most-once'' applied_once, OSleep (Fin 1)] Return :: 'v quick_code) [] UNIV"
    by (rule ok_calls)
      (auto simp: top_unique applied_inv_def implied_def applied_once_def distinct_card ok_server ok_client intro: ok_return)
  then have "ok applied_inv (Heap (\<lambda>_. []) (\<lambda>_. calls [OBind 0 False (Fin 0) (Fin 0),
      OStart [server_run True passes, client_run passes],
      OAlways ''applied-at-most-once'' applied_once, OSleep (Fin 1)] Return) :: 'v quick_code) h M" for h M
    by (intro ok_heap [where M' = UNIV]) (simp_all add: applied_inv_def)
  then show ?thesis unfolding steady_def quick_code_def by (auto intro!: ok_call)
qed

text \<open>C12: The README's claim about the fixed server: a server that remembers what it has handled is never
  reported to have applied a request twice, for any seeds and entropy, however the network delays,
  loses or repeats requests and acknowledgements.\<close>

theorem remembering_server_passes:
  "check_error (check streams running [] (make_scenario True passes) limit seeds b) \<noteq>
    Some (Exn (InvariantError name t) notes)"
  by (rule check_no_alarm [where J = applied_inv])
    (simp_all add: keeps_promise_def make_scenario_def steady_quick applied_inv_def)

text \<open>The script prints its last line only after the forgetful server's failure was reproduced.\<close>

lemma quick_main_reproduces:
  assumes "quick_main streams passes = Returns (s, reproduced, n, f)"
  shows "reproduced \<and> (\<exists>e. replay_quick streams False passes s = Some (Raised e) \<and> isinstance_exn e InvariantErrorC)"
proof -
  obtain k e where "check_quick streams False passes = CheckResult k (Some s) e"
    using assms by (auto simp: quick_main_def fixed_report_def split: check_end.splits option.splits outcome.splits if_splits)
  then obtain e0 where "replay_quick streams False passes s = Some (Raised e0)"
    by (auto simp: check_quick_def replay_quick_def dest!: check_fails_replays)
  then show ?thesis
    using assms by (auto simp: quick_main_def fixed_report_def split: check_end.splits option.splits outcome.splits if_splits)
qed

end
