(* ===== verification/Run_Eval.thy ===== *)
theory Run_Eval
  imports User_Calls
begin

text \<open>
  Evaluating a run. Each equation here unfolds one call of the drive and hands its result to a named
  continuation, which computes only on a result that is known: so a concrete scenario is evaluated by
  rewriting, step after step, for any seed and entropy it does not depend on. Times are rounded exactly.
\<close>

section \<open>Times\<close>

lemma rnd_numeral: "numeral v \<le> (2 :: real) ^ 53 \<Longrightarrow> rnd (numeral v) = numeral v"
  using is_double_numeral [of v] by (simp add: rnd_double)

lemma rnd_one: "rnd 1 = 1"
  using rnd_numeral [of num.One] by simp

lemma of_exact_small:
  assumes "0 \<le> x" and "x \<le> 1024"
  shows "of_exact x = Fin (rnd x)"
proof -
  have "rnd x \<le> 1024"
    using rnd_mono [OF assms(2)] rnd_numeral [of "num.Bit0 (num.Bit0 (num.Bit0 (num.Bit0 (num.Bit0
      (num.Bit0 (num.Bit0 (num.Bit0 (num.Bit0 (num.Bit0 num.One)))))))))"] by simp
  then show ?thesis using over_big [of "rnd x"] assms(1) by (intro of_exact_finite) (simp_all add: rnd_nonneg)
qed

lemma of_exact_rnd: "0 \<le> x \<Longrightarrow> x \<le> 1024 \<Longrightarrow> of_exact (rnd x) = Fin (rnd x)"
  using of_exact_id [of "rnd x"] of_exact_ok [of x] by (simp add: of_exact_small)

text \<open>A delay that is not tiny moves the clock.\<close>

lemma rnd_later:
  assumes t: "0 \<le> t" "t \<le> 10" and u: "1 / 1024 \<le> u"
  shows "t < rnd (t + u)"
proof -
  obtain N :: int where N: "t * 1024 < of_int N" "of_int N \<le> t * 1024 + 1"
  proof
    show "t * 1024 < of_int (\<lfloor>t * 1024\<rfloor> + 1)" "of_int (\<lfloor>t * 1024\<rfloor> + 1) \<le> t * 1024 + 1" by linarith+
  qed
  have "(0 :: real) < of_int N" "of_int N \<le> (10241 :: real)" using t N by linarith+
  then have "0 < N" "N \<le> 10241" by linarith+
  then have "is_double (of_int N * 2 powi (- 10))" by (intro is_double_scaled) simp_all
  then have "is_double (of_int N / 1024)" by (simp add: power_int_minus field_simps)
  moreover have "of_int N / 1024 \<le> t + u" using N(2) u by (simp add: field_simps)
  ultimately have "of_int N / 1024 \<le> rnd (t + u)" by (rule rnd_ge_double)
  then show ?thesis using N(1) by simp
qed

text \<open>The facts the evaluation of a run reads off the order of two times.\<close>

lemma strictly: "a < (b :: real) \<Longrightarrow> a < b \<and> a \<le> b \<and> \<not> b \<le> a \<and> \<not> b < a \<and> a \<noteq> b \<and> b \<noteq> a"
  by simp

lemma weakly: "a \<le> (b :: real) \<Longrightarrow> a \<le> b \<and> \<not> b < a"
  by simp

text \<open>A draw between two bounds.\<close>

lemma draw_between:
  assumes "of_exact x = a" "of_exact y = b" "a = Fin a'" "b = Fin b'" "0 \<le> a'" "a' \<le> b'"
  obtains v r' u where "py_random r = (v, r')" "uniform_value a b v = Fin u" "of_exact u = Fin u" "a' \<le> u" "u \<le> b'"
proof -
  obtain v r' where r: "py_random r = (v, r')" by fastforce
  have "pf_ok (Fin a')" "pf_ok (Fin b')" using of_exact_ok [of x] of_exact_ok [of y] assms(1-4) by simp_all
  from uniform_bounds [OF this assms(5,6), of r] r obtain u
    where "uniform_value (Fin a') (Fin b') v = Fin u" "pf_ok (Fin u)" "a' \<le> u" "u \<le> b'"
    by (auto simp: uniform_def)
  with r assms(3,4) show thesis by (intro that [of v r' u]) (simp_all add: of_exact_id)
qed

section \<open>The loop\<close>

type_synonym ('m, 'v, 's) run = "(('m, 'v, 's) world \<times> outcome) option"

fun after_once :: "('m, 'v, 's) world \<times> outcome \<Rightarrow> ('m, 'v, 's) run" where
  "after_once (w, Done) = (if stopping w then Some (w, Done) else step_forever run_cb run_hook w)"
| "after_once (w, Raised e) = Some (w, Raised e)"
| "after_once (w, Diverged) = Some (w, Diverged)"

lemma eval_step: "step_forever run_cb run_hook w = after_once (run_once run_cb run_hook w)"
  by (subst step_forever.simps) (auto split: prod.split outcome.split)

fun after_forever :: "('m, 'v, 's) run \<Rightarrow> ('m, 'v, 's) run" where
  "after_forever None = None"
| "after_forever (Some (w, e)) = Some (w\<lparr>stopping := False\<rparr>, e)"

lemma eval_forever:
  "run_forever run_cb run_hook w = (if closed w then Some (w, Raised (exn (PyError ''RuntimeError'')))
    else after_forever (step_forever run_cb run_hook w))"
  by (cases "step_forever run_cb run_hook w") (auto simp: run_forever_def)

fun after_watch :: "('m, 'v, 's) run \<Rightarrow> ('m, 'v, 's) run" where
  "after_watch None = None"
| "after_watch (Some (w, e)) = Some (reset_watch w, e)"

fun watch_end :: "nat \<Rightarrow> settle option \<Rightarrow> ('m, 'v, 's) run \<Rightarrow> ('m, 'v, 's) run" where
  "watch_end f s None = None"
| "watch_end f s (Some (w, Done)) =
     (if fut_done f w \<and> sl_stop_in w \<in> {Some 1, Some 2}
      then run_forever run_cb run_hook
        ((if sl_stop_in w = Some 2 \<and> s \<noteq> None then run_settle s w else w)\<lparr>sl_stop_in := Some 1\<rparr>)
      else Some (w, Done))"
| "watch_end f s (Some (w, Raised e)) = Some (w, Raised e)"
| "watch_end f s (Some (w, Diverged)) = Some (w, Diverged)"

lemma eval_until_done:
  "run_until_done run_cb run_hook f s w = after_watch (watch_end f s
    (run_forever run_cb run_hook (w\<lparr>sl_watch := Some f, sl_stop_in := None, sl_settle := s\<rparr>)))"
proof -
  have "map_option (\<lambda>(w, e). (reset_watch w, e)) r = after_watch r" for r :: "('a, 'b, 'c) run"
    by (cases r) auto
  then show ?thesis
    by (cases "run_forever run_cb run_hook (w\<lparr>sl_watch := Some f, sl_stop_in := None, sl_settle := s\<rparr>)")
      (auto simp: run_until_done_def Let_def split: outcome.split)
qed

section \<open>The drive\<close>

fun after_settle :: "nat \<Rightarrow> (('m, 'v, 's) world \<times> exn option \<times> outcome) option \<Rightarrow> ('m, 'v, 's) run" where
  "after_settle main None = None"
| "after_settle main (Some r) = drive_end main r"

fun after_run :: "nat \<Rightarrow> ('m, 'v, 's) run \<Rightarrow> ('m, 'v, 's) run" where
  "after_run main None = None"
| "after_run main (Some (w, Done)) =
     after_settle main (settle_drive main (if fut_done main w then None else Some (exn (PyError ''RuntimeError''))) w)"
| "after_run main (Some (w, Raised e)) = after_settle main (settle_drive main (Some e) w)"
| "after_run main (Some (w, Diverged)) = Some (w, Diverged)"

lemma eval_drive_main:
  "drive_main main w = after_run main (run_until_done run_cb run_hook main (Some ClearHooks) w)"
proof -
  have "(case r of None \<Rightarrow> None | Some r \<Rightarrow> drive_end main r) = after_settle main r" for main r
    by (cases r) simp_all
  then show ?thesis
    by (cases "run_until_done run_cb run_hook main (Some ClearHooks) w")
      (auto simp: drive_main_def Let_def split: outcome.split)
qed

fun started_drive :: "('m, 'v, 's) world \<times> nat \<Rightarrow> ('m, 'v, 's) run" where
  "started_drive (w, main) = drive_main main w"

lemma eval_drive:
  "drive False (Some c) w = started_drive (spawn c (limit_steps (max_steps w) (Some LivelockError) w))"
  by (simp add: drive_def split: prod.split)

fun after_unwind ::
    "nat \<Rightarrow> exn option \<Rightarrow> ('m, 'v, 's) run \<Rightarrow> (('m, 'v, 's) world \<times> exn option \<times> outcome) option" where
  "after_unwind main failure None = None"
| "after_unwind main failure (Some r) = Some (case secondary failure r of
     (w4, Some f, Done) \<Rightarrow> (w4, Some (unwind_note main w4 f), Done)
   | r' \<Rightarrow> r')"

fun after_main :: "nat \<Rightarrow> ('m, 'v, 's) run \<Rightarrow> ('m, 'v, 's) run" where
  "after_main main None = None"
| "after_main main (Some (w, Done)) = settle_main main w"
| "after_main main (Some (w, Raised e)) = Some (w, Raised e)"
| "after_main main (Some (w, Diverged)) = Some (w, Diverged)"

lemma eval_settle_main:
  "settle_main main w = (if fut_done main w then Some (w, Done)
    else after_main main (run_until_done run_cb run_hook main None w))"
  by (subst settle_main.simps) (auto split: option.split outcome.split)

lemma eval_settle_drive:
  "settle_drive main None w = (if fut_done main w then Some (limit_teardown_steps 0 w, None, Done)
    else after_unwind main None (settle_main main (cancel_task main (limit_teardown_steps 0 w))))"
  "\<not> fut_done main w \<Longrightarrow> settle_drive main (Some e) w =
    after_unwind main (Some e) (settle_main main (cancel_task main ((limit_teardown_steps 0 w)\<lparr>sl_hooks := []\<rparr>)))"
proof -
  have u: "map_option (\<lambda>r. case secondary failure r of (w4, Some f, Done) \<Rightarrow> (w4, Some (unwind_note main w4 f), Done)
     | r' \<Rightarrow> r') r = after_unwind main failure r" for failure and r :: "('a, 'b, 'c) run"
    by (cases r) simp_all
  have f: "fut_done main (limit_teardown_steps 0 w) = fut_done main w"
    "fut_done main ((limit_teardown_steps 0 w)\<lparr>sl_hooks := []\<rparr>) = fut_done main w"
    by (simp_all add: fut_done_def limit_teardown_steps_def limit_steps_def)
  show "settle_drive main None w = (if fut_done main w then Some (limit_teardown_steps 0 w, None, Done)
      else after_unwind main None (settle_main main (cancel_task main (limit_teardown_steps 0 w))))"
    unfolding settle_drive_def Let_def u by (simp add: f)
  show "settle_drive main (Some e) w =
      after_unwind main (Some e) (settle_main main (cancel_task main ((limit_teardown_steps 0 w)\<lparr>sl_hooks := []\<rparr>)))"
    if "\<not> fut_done main w"
    unfolding settle_drive_def Let_def u using that by (simp add: f)
qed

section \<open>The teardown\<close>

fun after_cancel :: "exn option \<Rightarrow> ('m, 'v, 's) run \<Rightarrow> ('m, 'v, 's) run" where
  "after_cancel failure None = None"
| "after_cancel failure (Some r) = Some (case secondary failure r of
     (w3, f, Done) \<Rightarrow> (close_world w3, case f of None \<Rightarrow> Done | Some e \<Rightarrow> Raised e)
   | (w3, f, Raised e) \<Rightarrow> (close_world w3, Raised (case f of
         Some x \<Rightarrow> if ekind x \<noteq> ekind e then note_on (describe x) e else e
       | None \<Rightarrow> e))
   | (w3, f, Diverged) \<Rightarrow> (w3, Diverged))"

lemma eval_teardown:
  "teardown failure w = after_cancel failure (cancel_rounds teardown_rounds
    ((if failure \<noteq> None then w\<lparr>sl_hooks := []\<rparr> else w)\<lparr>tearing_down := True\<rparr>))"
proof -
  have "map_option (\<lambda>r. case secondary failure r of
      (w3, f, Done) \<Rightarrow> (close_world w3, case f of None \<Rightarrow> Done | Some e \<Rightarrow> Raised e)
    | (w3, f, Raised e) \<Rightarrow> (close_world w3, Raised (case f of
          Some x \<Rightarrow> if ekind x \<noteq> ekind e then note_on (describe x) e else e
        | None \<Rightarrow> e))
    | (w3, f, Diverged) \<Rightarrow> (w3, Diverged)) r = after_cancel failure r" for r :: "('a, 'b, 'c) run"
    by (cases r) simp_all
  then show ?thesis by (simp only: teardown_def cancel_everything_def Let_def)
qed

fun after_round :: "nat \<Rightarrow> ('m, 'v, 's) run \<Rightarrow> ('m, 'v, 's) run" where
  "after_round n None = None"
| "after_round n (Some (w, Done)) = cancel_rounds n w"
| "after_round n (Some (w, Raised e)) = Some (w, Raised e)"
| "after_round n (Some (w, Diverged)) = Some (w, Diverged)"

fun cancel_round :: "nat \<Rightarrow> ('m, 'v, 's) world \<times> nat \<Rightarrow> ('m, 'v, 's) run" where
  "cancel_round n (w, g) = after_round n (run_until_fut g w)"

fun cancel_all :: "nat list \<Rightarrow> ('m, 'v, 's) world \<Rightarrow> ('m, 'v, 's) world" where
  "cancel_all [] w = w"
| "cancel_all (f # fs) w = cancel_all fs (cancel_task f w)"

lemma cancel_all_fold: "cancel_all fs w = fold cancel_task fs w"
  by (induction fs arbitrary: w) simp_all

fun cancel_pending :: "nat \<Rightarrow> nat list \<Rightarrow> ('m, 'v, 's) world \<Rightarrow> ('m, 'v, 's) run" where
  "cancel_pending n [] w = Some (w, Done)"
| "cancel_pending n (f # fs) w = cancel_round n
     (gather (f # fs) (limit_teardown_steps (length (f # fs)) (cancel_all (f # fs) w)))"

lemma eval_cancel_Suc: "cancel_rounds (Suc n) w = cancel_pending n (pending_tasks w) w"
  by (cases "pending_tasks w") (auto simp: Let_def cancel_all_fold split: prod.split option.split outcome.split)

lemma eval_cancel: "cancel_rounds (numeral v) w = cancel_pending (pred_numeral v) (pending_tasks w) w"
  unfolding numeral_eq_Suc by (rule eval_cancel_Suc)

fun after_pass :: "nat \<Rightarrow> ('m, 'v, 's) run \<Rightarrow> ('m, 'v, 's) run" where
  "after_pass f None = None"
| "after_pass f (Some (w, Done)) = run_until_fut f w"
| "after_pass f (Some (w, Raised e)) =
     (if fut_done f w \<or> ekind e \<noteq> stopped_early then Some (w, Raised e) else run_until_fut f w)"
| "after_pass f (Some (w, Diverged)) = Some (w, Diverged)"

lemma eval_until_fut:
  "run_until_fut f w = (if fut_done f w then Some (w, Done) else after_pass f (run_until_complete f w))"
  by (subst run_until_fut.simps) (auto split: option.split outcome.split)

fun after_complete :: "nat \<Rightarrow> ('m, 'v, 's) run \<Rightarrow> ('m, 'v, 's) run" where
  "after_complete f None = None"
| "after_complete f (Some (w, e)) = (let w2 = w\<lparr>fut_cbs := (fut_cbs w)(f := filter (\<lambda>c. \<not> is_stop_loop c) (fut_cbs w f))\<rparr>
     in Some (case e of
          Done \<Rightarrow> if \<not> fut_done f w2 then (w2, Raised (exn stopped_early))
            else (w2, case fut_reply f w2 of None \<Rightarrow> Done | Some x \<Rightarrow> Raised x)
        | _ \<Rightarrow> (w2, e)))"

lemma eval_until_complete:
  "run_until_complete f w = (if closed w then Some (w, Raised (exn (PyError ''RuntimeError'')))
    else after_complete f (run_forever run_cb run_hook (add_done_callback f (User StopLoop) w)))"
  by (cases "run_forever run_cb run_hook (add_done_callback f (User StopLoop) w)")
    (auto simp: run_until_complete_def Let_def)

section \<open>One step\<close>

fun counted :: "nat option \<Rightarrow> ('m, 'v, 's) world \<Rightarrow> ('m, 'v, 's) world \<times> outcome" where
  "counted None w = (w, Done)"
| "counted (Some n) w = (if n = 0 then count_step (w\<lparr>sl_steps_left := Some 0\<rparr>) else (w\<lparr>sl_steps_left := Some (n - 1)\<rparr>, Done))"

lemma eval_count: "count_step w = counted (sl_steps_left w) w"
  by (cases "sl_steps_left w") (auto simp: count_step_def split: nat.split)

fun jump :: "('m, ('m, 'v, 's) ucb) callback handle timer list \<Rightarrow> ('m, 'v, 's) world \<Rightarrow> ('m, 'v, 's) world \<times> outcome" where
  "jump [] w = (w\<lparr>sl_timers := []\<rparr>, if \<not> stopping w then Raised (exn DeadlockError) else Done)"
| "jump ((t, h) # ts) w = (if t \<noteq> PosInf then (w\<lparr>sl_timers := (t, h) # ts, sl_time := py_max (sl_time w) t\<rparr>, Done)
     else (w\<lparr>sl_timers := (t, h) # ts\<rparr>, if \<not> stopping w then Raised (exn DeadlockError) else Done))"

lemma eval_jump: "autojump w = (if ready w = [] \<and> sl_stop_in w = None
    then jump (purge_timers (cancelled w) (sl_timers w)) w else (w, Done))"
  by (cases "purge_timers (cancelled w) (sl_timers w)") (auto simp: autojump_def purge_cancelled_timers_def Let_def)

fun fired ::
    "('m, ('m, 'v, 's) ucb) callback handle timer list \<times> ('m, ('m, 'v, 's) ucb) callback handle list \<Rightarrow>
     ('m, 'v, 's) world \<Rightarrow> ('m, 'v, 's) world" where
  "fired (ts, rdy) w = w\<lparr>sl_timers := ts, ready := rdy\<rparr>"

lemma eval_fire: "fire_due_timers w = fired (fire_timers (cancelled w) (sl_time w) (sl_timers w) (ready w)) w"
  by (cases "fire_timers (cancelled w) (sl_time w) (sl_timers w) (ready w)") (simp add: fire_due_timers_def)

fun batch_next :: "nat \<Rightarrow> ('m, 'v, 's) world \<times> outcome \<Rightarrow> ('m, 'v, 's) world \<times> outcome" where
  "batch_next n (w, Done) = run_batch run_cb n w"
| "batch_next n (w, Raised e) = (w, Raised e)"
| "batch_next n (w, Diverged) = (w, Diverged)"

fun batch ::
    "nat \<Rightarrow> ('m, ('m, 'v, 's) ucb) callback handle list \<Rightarrow> ('m, 'v, 's) world \<Rightarrow> ('m, 'v, 's) world \<times> outcome" where
  "batch n [] w = (w, Raised (exn (PyError ''IndexError'')))"
| "batch n ((i, c) # hs) w = (if (i, c) \<in> cancelled w then run_batch run_cb n (w\<lparr>ready := hs\<rparr>)
     else batch_next n (run_cb c (w\<lparr>ready := hs\<rparr>)))"

lemma eval_batch: "run_batch run_cb (Suc n) w = batch n (ready w) w"
proof (cases "ready w")
  case (Cons h hs)
  then show ?thesis by (cases h) (auto simp: Let_def split: prod.split outcome.split)
qed simp

fun hooked :: "('m, 'v, 's) world \<times> exn option \<times> exn list \<Rightarrow> ('m, 'v, 's) world \<times> outcome" where
  "hooked (w, None, notes) = (check_watch w, Done)"
| "hooked (w, Some e, notes) = (w, Raised (note_others e notes))"

fun batched :: "('m, 'v, 's) world \<times> outcome \<Rightarrow> ('m, 'v, 's) world \<times> outcome" where
  "batched (w, Done) = hooked (run_hooks run_hook (sl_hooks w) None [] w)"
| "batched (w, Raised e) = (w, Raised e)"
| "batched (w, Diverged) = (w, Diverged)"

fun due :: "('m, 'v, 's) world \<Rightarrow> ('m, 'v, 's) world \<times> outcome" where
  "due w = batched (run_batch run_cb (length (ready w)) w)"

fun jumped :: "('m, 'v, 's) world \<times> outcome \<Rightarrow> ('m, 'v, 's) world \<times> outcome" where
  "jumped (w, Done) = due (fire_due_timers w)"
| "jumped (w, Raised e) = (w, Raised e)"
| "jumped (w, Diverged) = (w, Diverged)"

fun stepping :: "('m, 'v, 's) world \<times> outcome \<Rightarrow> ('m, 'v, 's) world \<times> outcome" where
  "stepping (w, Done) = jumped (autojump w)"
| "stepping (w, Raised e) = (w, Raised e)"
| "stepping (w, Diverged) = (w, Diverged)"

lemma eval_once: "run_once run_cb run_hook w = stepping (count_step w)"
proof -
  have h: "(case after_step run_hook w of (w5, Done) \<Rightarrow> (check_watch w5, Done) | (w5, e) \<Rightarrow> (w5, e)) =
      hooked (run_hooks run_hook (sl_hooks w) None [] w)" for w :: "('a, 'b, 'c) world"
    by (auto simp: after_step_def split: prod.split option.split)
  have b: "(case r of (w4, Done) \<Rightarrow> (case after_step run_hook w4 of (w5, Done) \<Rightarrow> (check_watch w5, Done) | (w5, e) \<Rightarrow> (w5, e))
     | (w4, e) \<Rightarrow> (w4, e)) = batched r" for r :: "('a, 'b, 'c) world \<times> outcome"
    by (cases r rule: batched.cases) (simp_all add: h)
  have j: "(case r of (w2, Done) \<Rightarrow> let w3 = fire_due_timers w2 in (case run_batch run_cb (length (ready w3)) w3 of
       (w4, Done) \<Rightarrow> (case after_step run_hook w4 of (w5, Done) \<Rightarrow> (check_watch w5, Done) | (w5, e) \<Rightarrow> (w5, e))
     | (w4, e) \<Rightarrow> (w4, e)) | (w2, e) \<Rightarrow> (w2, e)) = jumped r" for r :: "('a, 'b, 'c) world \<times> outcome"
    by (cases r rule: jumped.cases) (simp_all add: b Let_def)
  show ?thesis unfolding run_once_def j
    by (cases "count_step w" rule: stepping.cases) simp_all
qed

fun watched :: "nat option \<Rightarrow> int option \<Rightarrow> ('m, 'v, 's) world \<Rightarrow> ('m, 'v, 's) world" where
  "watched None n w = w"
| "watched (Some f) None w = (if futs w f \<noteq> Pending then w\<lparr>sl_stop_in := Some 2\<rparr> else w)"
| "watched (Some f) (Some n) w =
     (if n - 1 = 0 then stop (w\<lparr>sl_stop_in := Some 0\<rparr>)
      else if n - 1 = 1 then run_settle (sl_settle w) (w\<lparr>sl_stop_in := Some 1\<rparr>) else w\<lparr>sl_stop_in := Some (n - 1)\<rparr>)"

lemma eval_watch: "check_watch w = watched (sl_watch w) (sl_stop_in w) w"
  by (cases "(sl_watch w, sl_stop_in w, w)" rule: watched.cases; cases "sl_settle w")
    (auto simp: check_watch_def fut_done_def)

section \<open>A task\<close>

lemma eval_soon: "\<not> closed w \<Longrightarrow>
    call_soon c w = (w\<lparr>ready := ready w @ [(next_handle w, c)], next_handle := Suc (next_handle w)\<rparr>, Done)"
  by (simp add: call_soon_def)

fun finish :: "nat \<Rightarrow> fut_state \<Rightarrow> ('m, 'v, 's) task option \<Rightarrow> ('m, 'v, 's) world \<Rightarrow> ('m, 'v, 's) world" where
  "finish f r None w = call_soon_all (fut_cbs w f)
     (w\<lparr>tasks := (tasks w)(f := None), futs := (futs w)(f := r), fut_cbs := (fut_cbs w)(f := [])\<rparr>)"
| "finish f r (Some t) w = call_soon_all (fut_cbs w f)
     (w\<lparr>tasks := (tasks w)(f \<mapsto> t\<lparr>t_cont := Finished, t_must_cancel := False\<rparr>), futs := (futs w)(f := r),
        fut_cbs := (fut_cbs w)(f := [])\<rparr>)"

lemma eval_finish: "futs w f = Pending \<Longrightarrow> finish_task f r w = finish f r (tasks w f) w"
  by (cases "tasks w f") (auto simp: finish_task_def upd_task_def complete_future_def fut_done_def)

fun marked :: "('m, 'v, 's) task option \<Rightarrow> bool" where
  "marked None = False"
| "marked (Some t) = t_must_cancel t"

lemma eval_must_cancel: "must_cancel f w = marked (tasks w f)"
  by (cases "tasks w f") (simp_all add: must_cancel_def)

fun yields ::
    "nat \<Rightarrow> frame \<Rightarrow> ('m reply \<Rightarrow> ('m, 'v, 's) code) \<Rightarrow> ('m, 'v, 's) task option \<Rightarrow> ('m, 'v, 's) world \<Rightarrow> ('m, 'v, 's) world" where
  "yields f fr k None w = fst (call_soon (User (TaskStep f None)) (w\<lparr>tasks := (tasks w)(f := None)\<rparr>))"
| "yields f fr k (Some t) w =
     fst (call_soon (User (TaskStep f None)) (w\<lparr>tasks := (tasks w)(f \<mapsto> t\<lparr>t_cont := Resume fr k\<rparr>)\<rparr>))"

fun waits ::
    "nat \<Rightarrow> frame \<Rightarrow> nat \<Rightarrow> ('m reply \<Rightarrow> ('m, 'v, 's) code) \<Rightarrow> ('m, 'v, 's) task option \<Rightarrow> ('m, 'v, 's) world \<Rightarrow> ('m, 'v, 's) world" where
  "waits f fr g k None w = task_wait f fr g k w"
| "waits f fr g k (Some t) w = (if t_must_cancel t then task_wait f fr g k w
     else add_done_callback g (User (TaskWakeup f g))
       (w\<lparr>tasks := (tasks w)(f \<mapsto> t\<lparr>t_cont := Resume fr k, t_waiter := Some g\<rparr>)\<rparr>))"

lemma tasks_add_done_callback: "tasks (add_done_callback g c w) = tasks w"
  by (simp add: add_done_callback_def call_soon_def)

lemma eval_waits: "task_wait f fr g k w = waits f fr g k (tasks w f) w"
  by (cases "tasks w f") (auto simp: task_wait_def Let_def upd_task_def must_cancel_def tasks_add_done_callback)

fun uncurrent :: "('m, 'v, 's) world \<times> outcome \<Rightarrow> ('m, 'v, 's) world \<times> outcome" where
  "uncurrent (w, e) = (w\<lparr>current := None\<rparr>, e)"

fun ended :: "nat \<Rightarrow> ('m, 'v, 's) world \<times> ('m, 'v, 's) ended \<Rightarrow> ('m, 'v, 's) world \<times> outcome" where
  "ended f (w, Returned) = (finish_task f (if marked (tasks w f) then FutCancelled else Result) w, Done)"
| "ended f (w, Threw e) =
     (if is_cancelled_error e then (finish_task f FutCancelled w, Done)
      else (finish_task f (Failed e) w, if is_interrupt e then Raised e else Done))"
| "ended f (w, Hung) = (w, Diverged)"
| "ended f (w, Waiting fr None k) = (yields f fr k (tasks w f) w, Done)"
| "ended f (w, Waiting fr (Some g) k) = (waits f fr g k (tasks w f) w, Done)"

lemma eval_ended: "task_end f r = ended f r"
proof (cases "(f, r)" rule: ended.cases)
  case (4 f w fr k)
  then show ?thesis by (cases "tasks w f") (auto simp: task_end_def upd_task_def)
qed (auto simp: task_end_def eval_must_cancel eval_waits)

fun stepped ::
    "nat \<Rightarrow> ('m, 'v, 's) task option \<Rightarrow> exn option \<Rightarrow> ('m, 'v, 's) world \<Rightarrow> ('m, 'v, 's) world \<times> outcome" where
  "stepped f None err w = (w, Done)"
| "stepped f (Some t) err w = (if futs w f \<noteq> Pending then (w, Done)
     else uncurrent (ended f (resume (t_cont t)
       (if t_must_cancel t \<and> \<not> (err \<noteq> None \<and> is_cancelled_error (the err)) then Some cancelled_error else err)
       (w\<lparr>tasks := (tasks w)(f \<mapsto> t\<lparr>t_waiter := None, t_must_cancel := False\<rparr>), current := Some f\<rparr>))))"

lemma eval_task: "task_step f err w = stepped f (tasks w f) err w"
proof (cases "tasks w f")
  case (Some t)
  have u: "uncurrent r = (fst r\<lparr>current := None\<rparr>, snd r)" for r :: "('a, 'b, 'c) world \<times> outcome"
    by (cases r) simp
  show ?thesis by (simp add: task_step_def Some Let_def upd_task_def fut_done_def eval_ended u case_prod_unfold)
qed (simp add: task_step_def)

text \<open>Cancelling.\<close>

fun cancel_mark :: "nat \<Rightarrow> ('m, 'v, 's) task option \<Rightarrow> ('m, 'v, 's) world \<Rightarrow> ('m, 'v, 's) world" where
  "cancel_mark f None w = w\<lparr>tasks := (tasks w)(f := None)\<rparr>"
| "cancel_mark f (Some t) w = w\<lparr>tasks := (tasks w)(f \<mapsto> t\<lparr>t_must_cancel := True\<rparr>)\<rparr>"

fun cancel_passed :: "nat \<Rightarrow> ('m, 'v, 's) world \<times> bool \<Rightarrow> ('m, 'v, 's) world \<times> bool" where
  "cancel_passed f (w, True) = (w, True)"
| "cancel_passed f (w, False) = (cancel_mark f (tasks w f) w, True)"

fun cancel_on :: "nat \<Rightarrow> nat \<Rightarrow> nat option \<Rightarrow> ('m, 'v, 's) world \<Rightarrow> ('m, 'v, 's) world \<times> bool" where
  "cancel_on n f None w = (cancel_mark f (tasks w f) w, True)"
| "cancel_on n f (Some g) w = cancel_passed f (cancel_fut n g w)"

fun cancel_at :: "nat \<Rightarrow> nat \<Rightarrow> ('m, 'v, 's) task option \<Rightarrow> ('m, 'v, 's) world \<Rightarrow> ('m, 'v, 's) world \<times> bool" where
  "cancel_at n f None w = (call_soon_all (fut_cbs w f)
     (w\<lparr>futs := (futs w)(f := FutCancelled), fut_cbs := (fut_cbs w)(f := [])\<rparr>), True)"
| "cancel_at n f (Some t) w =
     cancel_on n f (t_waiter t) (w\<lparr>tasks := (tasks w)(f \<mapsto> t\<lparr>t_cancels := Suc (t_cancels t)\<rparr>)\<rparr>)"

lemma eval_cancel_fut: "cancel_fut (Suc n) f w = (if futs w f \<noteq> Pending then (w, False) else cancel_at n f (tasks w f) w)"
proof -
  have m: "upd_task f (t_must_cancel_update (\<lambda>_. True)) w = cancel_mark f (tasks w f) w" for w :: "('a, 'b, 'c) world"
    by (cases "tasks w f") (simp_all add: upd_task_def)
  have u: "upd_task f (t_cancels_update Suc) w = w\<lparr>tasks := (tasks w)(f \<mapsto> t\<lparr>t_cancels := Suc (t_cancels t)\<rparr>)\<rparr>"
    if "tasks w f = Some t" for t using that by (cases t) (simp add: upd_task_def)
  have p: "(case r of (w1, b) \<Rightarrow> if b then (w1, True) else (upd_task f (t_must_cancel_update (\<lambda>_. True)) w1, True)) =
      cancel_passed f r" for r :: "('a, 'b, 'c) world \<times> bool"
    by (cases "(f, r)" rule: cancel_passed.cases) (simp_all add: m)
  show ?thesis
  proof (cases "tasks w f")
    case None
    then show ?thesis by (simp add: fut_done_def complete_future_def)
  next
    case (Some t)
    then show ?thesis by (cases "t_waiter t") (simp_all add: fut_done_def Let_def u p m)
  qed
qed

fun gathers :: "nat list \<Rightarrow> ('m, 'v, 's) world \<times> nat \<Rightarrow> ('m, 'v, 's) world \<times> nat" where
  "gathers [] (w, g) = (w, g)"
| "gathers (f # fs) (w, g) = gathers fs (add_done_callback f (User (GatherDone g)) w, g)"

lemma eval_gather: "gather fs w = gathers fs
    (w\<lparr>next_fut := Suc (next_fut w), futs := (futs w)(next_fut w := Pending), fut_cbs := (fut_cbs w)(next_fut w := []),
       gather_left := (gather_left w)(next_fut w := length fs)\<rparr>, next_fut w)"
proof -
  have "(fold (\<lambda>f. add_done_callback f (User (GatherDone g))) fs v, g) = gathers fs (v, g)" for g and v :: "('a, 'b, 'c) world"
    by (induction fs arbitrary: v) simp_all
  then show ?thesis by (simp add: gather_def create_future_def Let_def)
qed

section \<open>User code\<close>

fun replied ::
    "('m reply \<Rightarrow> ('m, 'v, 's) code) \<Rightarrow> ('m, 'v, 's) world \<times> 'm op_result \<Rightarrow> ('m, 'v, 's) world \<times> ('m, 'v, 's) ended" where
  "replied k (w, Reply r) = exec (k r) w"
| "replied k (w, Wait fr f) = (w, Waiting fr f k)"
| "replied k (w, Hangs) = (w, Hung)"

lemma eval_exec:
  "exec (Op x k) w = replied k (do_op x w)"
  "exec (Heap f b) w = exec (b (heap w)) (w\<lparr>heap := f (heap w)\<rparr>)"
  "exec (call x k) w = replied (on_reply k) (do_op x w)"
  "exec (try_call x h k) w = replied (on_outcome h k) (do_op x w)"
  "resume (Resume fr k) err w = replied k (wake fr err w)"
proof -
  show op: "exec (Op x k) w = replied k (do_op x w)" for k
    by (cases "do_op x w") (simp split: op_result.split)
  show "exec (call x k) w = replied (on_reply k) (do_op x w)" "exec (try_call x h k) w = replied (on_outcome h k) (do_op x w)"
    unfolding call_def try_call_def by (rule op)+
  show "resume (Resume fr k) err w = replied k (wake fr err w)"
    by (cases "wake fr err w") (simp split: op_result.split)
qed simp

fun plain_end :: "('m, 'v, 's) world \<times> ('m, 'v, 's) ended \<Rightarrow> ('m, 'v, 's) world \<times> outcome" where
  "plain_end (w, Threw e) = (w, if is_interrupt e then Raised e else Done)"
| "plain_end (w, Hung) = (w, Diverged)"
| "plain_end (w, Returned) = (w, Done)"
| "plain_end (w, Waiting fr f k) = (w, Done)"

lemma eval_plain: "run_cb (User (Plain c)) w = plain_end (exec c w)"
  by (cases "exec c w" rule: plain_end.cases) simp_all

fun slept :: "pyfloat \<Rightarrow> ('m, 'v, 's) world \<Rightarrow> ('m, 'v, 's) world \<times> 'm op_result" where
  "slept t w = (w\<lparr>next_fut := Suc (next_fut w), futs := (futs w)(next_fut w := Pending),
       fut_cbs := (fut_cbs w)(next_fut w := []),
       sl_timers := heappush (t, sl_timer_seq w, (next_handle w, SetResultUnlessCancelled (next_fut w))) (sl_timers w),
       sl_timer_seq := Suc (sl_timer_seq w), next_handle := Suc (next_handle w)\<rparr>,
     Wait (FSleep (next_handle w) (next_fut w)) (Some (next_fut w)))"

lemma eval_sleep:
  "sleep (Fin 0) w = (w, Wait FYield None)"
  "0 < r \<Longrightarrow> \<not> closed w \<Longrightarrow> sl_time w \<noteq> NaN \<Longrightarrow> sleep (Fin r) w = slept (py_add (sl_time w) (Fin r)) w"
proof -
  have "isnan (py_add t (Fin r)) \<longleftrightarrow> t = NaN" for t by (cases t) (simp_all add: isnan_def)
  then show "0 < r \<Longrightarrow> \<not> closed w \<Longrightarrow> sl_time w \<noteq> NaN \<Longrightarrow> sleep (Fin r) w = slept (py_add (sl_time w) (Fin r)) w"
    by (simp add: sleep_def create_future_def call_later_def call_at_def Let_def)
  show "sleep (Fin 0) w = (w, Wait FYield None)" by (simp add: sleep_def)
qed

lemma eval_spawn:
  "\<not> closed w \<Longrightarrow> spawn c w = (w\<lparr>next_fut := Suc (next_fut w), futs := (futs w)(next_fut w := Pending),
     fut_cbs := (fut_cbs w)(next_fut w := []), ready := ready w @ [(next_handle w, User (TaskStep (next_fut w) None))],
     next_handle := Suc (next_handle w), sl_task_seq := Suc (sl_task_seq w),
     tasks := (tasks w)(next_fut w \<mapsto> \<lparr>t_cont = Begin c, t_waiter = None, t_must_cancel = False, t_cancels = 0,
       t_seq = sl_task_seq w\<rparr>)\<rparr>, next_fut w)"
  by (simp add: spawn_def create_future_def create_task_def call_soon_def)

fun start_next :: "('m, 'v, 's) code list \<Rightarrow> ('m, 'v, 's) world \<times> nat \<Rightarrow> ('m, 'v, 's) world" where
  "start_next cs (w, f) = start cs (w\<lparr>started := started w @ [f]\<rparr>)"

lemma eval_start: "start (c # cs) w = start_next cs (spawn c w)"
  by (cases "spawn c w") simp

fun spawned :: "('m, 'v, 's) world \<times> nat \<Rightarrow> ('m, 'v, 's) world \<times> 'm op_result" where
  "spawned (w, f) = (w, Reply (RId f))"

lemma eval_OSpawn: "do_op (OSpawn c) w = spawned (spawn c w)"
  by (cases "spawn c w") simp

section \<open>The rules that evaluate a run\<close>

fun after_drive :: "('m, 'v, 's) run \<Rightarrow> ('m, 'v, 's) run" where
  "after_drive None = None"
| "after_drive (Some (w, e)) = Some (if e = Diverged then w else close_world w, e)"

lemma eval_run_one:
  "run_one streams False objs (\<lambda>_. CallReturns (Some c)) limit sd =
    after_drive (drive False (Some c) (world_init streams sd limit objs))"
  by (cases "drive False (Some c) (world_init streams sd limit objs)") (auto simp: run_one_def)

lemmas eval_control = eval_step eval_forever eval_until_done eval_drive_main eval_drive eval_settle_main
  eval_settle_drive eval_teardown eval_cancel eval_until_fut eval_until_complete eval_run_one teardown_rounds_def
  drive_end_def run_result_def pending_tasks_def task_seq_def secondary_def close_world_def limit_teardown_steps_def
  teardown_steps_def teardown_steps_per_task_def limit_steps_def reset_watch_def eval_gather gather_done_def eval_cancel_fut stopped_early_def

lemmas eval_loop = eval_once eval_count eval_jump eval_fire eval_batch eval_watch eval_soon stop_def fut_done_def
  cancel_handle_def add_done_callback_def complete_future_def create_future_def heappush_def record_event_def time_def
  call_later_def call_at_def

lemmas eval_code = eval_task eval_finish eval_exec eval_plain eval_sleep eval_spawn eval_start eval_OSpawn
  norm_def world_record_def reply_of_def fut_reply_def now_def handle_reply_def unit_reply_def
  exn_def is_cancelled_error_def cancelled_error_def is_exception_iff is_interrupt_def cancel_task_def upd_task_def
  world_init_def net_init_def loop_init_def net.defs loop.defs Let_def

lemmas eval_calls = wait_for_def exn_of_def is_timeout_def timeout_error_def enter_timeout_def exit_timeout_def
  expire_def cancels_def cancel_user_def

lemmas eval_checks = always_def check_invariants_def note_others_def unwind_note_def

lemmas eval_net = send_def net_uniform_def uniform_def faults_happens_def slow_factor_def and_then_def bind_ep_def
  probability_def new_endpoint_def recv_def recv_loop_def recv_wake_def recv_reply_def enqueue_def deliver_def
  reachable_def cut_def

lemmas eval_times = of_exact_small rnd_numeral rnd_one isnan_def py_max_def

lemmas eval_rules = eval_control eval_loop eval_code eval_times

lemmas eval_off = run_batch.simps(2) exec.simps(4,5) resume.simps(3) start.simps(2) run_cb.simps(5) do_op.simps(18)
  cancel_rounds.simps cancel_fut.simps(2)

end
