(* ===== verification/Quick_Eval.thy ===== *)
theory Quick_Eval
  imports Quickstart Run_Eval
begin

text \<open>
  The forgetful server of the quickstart, evaluated to the end of its run for every seed and all entropy: the docstring
  of \<open>src/examples/quickstart.py\<close> says on which seeds it fails, and here it fails on exactly those.
  What decides is the order of the clock times of the acknowledgement, of the repeated request and
  of what follows it; each order is one evaluation.
\<close>

section \<open>The times\<close>

definition wait_limit :: real where
  "wait_limit = rnd (3 / 100)"

definition wait_again :: real where
  "wait_again = rnd (2 * wait_limit)"

definition latency_min :: real where
  "latency_min = rnd (1 / 1000)"

definition latency_max :: real where
  "latency_max = rnd (1 / 50)"

lemma limits:
  "wait_limit = 1080863910568919 / 36028797018963968" "latency_min = 1152921504606847 / 1152921504606846976"
  "latency_max = 5764607523034235 / 288230376151711744"
  unfolding wait_limit_def latency_min_def latency_max_def by code_simp+

lemma again: "wait_again = 1080863910568919 / 18014398509481984"
  unfolding wait_again_def limits by code_simp

lemma limit_floats:
  "ACK_TIMEOUT = Fin wait_limit" "of_exact wait_limit = Fin wait_limit" "of_exact (2 * wait_limit) = Fin wait_again"
  "LAT_MIN = Fin latency_min" "LAT_MAX = Fin latency_max"
proof -
  show "ACK_TIMEOUT = Fin wait_limit" "LAT_MIN = Fin latency_min" "LAT_MAX = Fin latency_max"
    by (simp_all add: ACK_TIMEOUT_def LAT_MIN_def LAT_MAX_def of_exact_small flip: wait_limit_def latency_min_def latency_max_def)
  show "of_exact wait_limit = Fin wait_limit" by (simp add: wait_limit_def of_exact_rnd)
  show "of_exact (2 * wait_limit) = Fin wait_again" by (simp add: of_exact_small limits again [unfolded wait_again_def] wait_again_def)
qed

lemma draw_latency:
  obtains v r' u where "py_random r = (v, r')" "uniform_value LAT_MIN LAT_MAX v = Fin u" "of_exact u = Fin u"
    "latency_min \<le> u" "u \<le> latency_max"
  by (rule draw_between [OF LAT_MIN_def [symmetric] LAT_MAX_def [symmetric] limit_floats(4,5), of r])
    (use that in \<open>simp_all add: limits\<close>)

text \<open>A message's latency moves the clock, by no more than its bound.\<close>

lemma latency_later:
  assumes "latency_min \<le> u" "u \<le> latency_max" "0 \<le> t" "t \<le> b" "b \<le> 10"
  shows "t < rnd (t + u)" "rnd (t + u) \<le> rnd (b + latency_max)" "of_exact (t + u) = Fin (rnd (t + u))"
    "of_exact (rnd (t + u)) = Fin (rnd (t + u))"
proof -
  show "t < rnd (t + u)" using assms by (intro rnd_later) (simp_all add: limits)
  show "rnd (t + u) \<le> rnd (b + latency_max)" using assms by (intro rnd_mono) simp
  show "of_exact (t + u) = Fin (rnd (t + u))" "of_exact (rnd (t + u)) = Fin (rnd (t + u))"
    using assms by (simp_all add: of_exact_small of_exact_rnd limits)
qed

lemma latest:
  "rnd (latency_max + latency_max) < wait_again" "rnd (wait_limit + latency_max) < wait_again"
  "rnd (wait_again + latency_max) < 1"
  unfolding limits again by code_simp+

section \<open>The run\<close>

lemma server_code: "exec (server_run remember (Suc n)) = exec (call (ORecv 1) (\<lambda>r. case r of
     RItem sender request_id \<Rightarrow> Heap (server_apply remember request_id)
       (\<lambda>_. call (OSend 1 sender request_id) (\<lambda>_. server_run remember n))
   | _ \<Rightarrow> Throw (exn (PyError ''TypeError''))))"
  by (simp only: server_run.simps)

lemma client_code: "exec (client_run (Suc n)) = exec (call (OSend 0 1 7) (\<lambda>_. wait_for (ORecv 0) ACK_TIMEOUT (\<lambda>r. case r of
     RExn e \<Rightarrow> if is_timeout e then client_run n else Throw e
   | _ \<Rightarrow> Return)))"
  by (simp only: client_run.simps)

lemma scenario_code: "make_scenario b p = (\<lambda>_. CallReturns (Some (quick_code b p)))"
  by (simp add: fun_eq_iff make_scenario_def)

lemmas quick_eval = eval_rules eval_calls eval_checks eval_net quick_code_def server_code client_code scenario_code
  applied_once_def server_apply_def

abbreviation quick_run :: "(int \<Rightarrow> string \<Rightarrow> rng) \<Rightarrow> bool \<Rightarrow> nat \<Rightarrow> int \<Rightarrow> outcome option" where
  "quick_run streams remember passes sd \<equiv> map_option snd (run_one streams False []
     (make_scenario remember passes :: (int, unit, int list) scenario) (Some 10000000) sd)"

text \<open>The acknowledgement is in time: one request, whatever the server remembers.\<close>

lemma prompt_run:
  assumes 1: "py_random (streams sd ''net'') = (x1, r1)" "uniform_value LAT_MIN LAT_MAX x1 = Fin u1" "of_exact u1 = Fin u1"
    and 2: "py_random r1 = (x2, r2)" "uniform_value LAT_MIN LAT_MAX x2 = Fin u2" "of_exact u2 = Fin u2"
    and t2: "of_exact (u1 + u2) = Fin t2" "of_exact t2 = Fin t2"
    and o: "0 < u1" "u1 < t2" "t2 < wait_limit" "wait_limit < 1"
  shows "quick_run streams remember (Suc (Suc (Suc passes))) sd = Some Done"
proof -
  have c: "0 < wait_limit" "0 < t2" "u1 < wait_limit" "u1 < 1" "t2 < 1" "0 \<le> u1" using o by linarith+
  show ?thesis
    by (cases remember) (simp_all add: quick_eval 1 2 t2 limit_floats(1-3) o [THEN strictly] c(1-5) [THEN strictly] c(6)
      cong: let_weak_cong split del: if_split del: eval_off server_run.simps client_run.simps)
qed

text \<open>
  It is late: the request is repeated at \<open>wait_limit\<close> and arrives at \<open>t3\<close>, the first acknowledgement at \<open>t2\<close>, and
  \<open>wait_again\<close> is when the client would lose patience again. The second acknowledgement would arrive
  at \<open>t4\<close>, but the run is over by then, so its place among the timers does not matter.
\<close>

definition later :: "real \<Rightarrow> nat \<Rightarrow> 'h \<Rightarrow> 'h timer list \<Rightarrow> 'h timer list" where
  "later t n h ts = insort_key tkey (Fin t, n, h) ts"

lemma fire_later:
  "s < t \<Longrightarrow> s < a \<Longrightarrow> fire_timers C (Fin s) (later t n h ((Fin a, g) # ts)) r = (later t n h ((Fin a, g) # ts), r)"
  by (cases g; cases h) (auto simp: later_def)

lemma push_at: "heappush (Fin t, n, h) ts = insort_key tkey (Fin t, n, h) ts"
  by (simp add: heappush_def)

lemma push_later: "heappush (Fin t, n, h) ts = later t n h ts"
  by (simp add: heappush_def later_def)

lemma user_later: "\<not> P (f (Fin t, n, h)) \<Longrightarrow> filter P (map f (later t n h ts)) = filter P (map f ts)"
  by (induction ts) (auto simp: later_def)

lemmas quick_later = fire_later user_later

lemma late_forgets:
  assumes 1: "py_random (streams sd ''net'') = (x1, r1)" "uniform_value LAT_MIN LAT_MAX x1 = Fin u1" "of_exact u1 = Fin u1"
    and 2: "py_random r1 = (x2, r2)" "uniform_value LAT_MIN LAT_MAX x2 = Fin u2" "of_exact u2 = Fin u2"
    and 3: "py_random r2 = (x3, r3)" "uniform_value LAT_MIN LAT_MAX x3 = Fin u3" "of_exact u3 = Fin u3"
    and 4: "py_random r3 = (x4, r4)" "uniform_value LAT_MIN LAT_MAX x4 = Fin u4" "of_exact u4 = Fin u4"
    and t2: "of_exact (u1 + u2) = Fin t2" "of_exact t2 = Fin t2"
    and t3: "of_exact (wait_limit + u3) = Fin t3" "of_exact t3 = Fin t3"
    and t4: "of_exact (t3 + u4) = Fin t4" "of_exact t4 = Fin t4"
    and o: "0 < u1" "u1 < wait_limit" "u1 < t2" "wait_limit < t3" "t3 < wait_again" "t3 < t4" "t4 < 1"
      "wait_again < 1" "t2 < wait_again" and w: "wait_limit \<le> t2"
  shows "quick_run streams False (Suc (Suc (Suc passes))) sd = Some (Raised (Exn (InvariantError ''applied-at-most-once'' (Fin t3)) []))"
proof -
  have c: "0 < wait_limit" "0 < t2" "0 < t3" "0 < t4" "0 < wait_again" "wait_limit < wait_again" "wait_limit < 1" "t2 < 1" "t3 < 1"
    "u1 < t3" "u1 < wait_again" "u1 < 1" "wait_limit < t4" "0 \<le> u1"
    using o w by linarith+
  note facts = quick_eval quick_later 1 2 3 4 t2 t3 t4 limit_floats(1-3) push_later [of t4] push_at [of u1] push_at [of wait_limit] push_at [of t2] push_at [of t3] push_at [of wait_again] push_at [of 1] o [THEN strictly] c(1-13) [THEN strictly] c(14)
  from w o(3) consider (tie) "t2 = wait_limit" | (before) "wait_limit < t2" "t2 < t3" | (same) "t2 = t3"
    | (after) "wait_limit < t2" "t3 < t2"
    by linarith
  then show ?thesis
  proof cases
    case tie
    show ?thesis by (simp add: facts tie
      cong: let_weak_cong split del: if_split del: eval_off server_run.simps client_run.simps heappush_def)
  next
    case before
    show ?thesis by (simp add: facts before [THEN strictly]
      cong: let_weak_cong split del: if_split del: eval_off server_run.simps client_run.simps heappush_def)
  next
    case same
    show ?thesis by (simp add: facts same
      cong: let_weak_cong split del: if_split del: eval_off server_run.simps client_run.simps heappush_def)
  next
    case after
    show ?thesis by (simp add: facts after [THEN strictly]
      cong: let_weak_cong split del: if_split del: eval_off server_run.simps client_run.simps heappush_def)
  qed
qed

section \<open>Exactly the seeds that are late\<close>

text \<open>When the first acknowledgement and the repeated request arrive, from the first draws of the network's stream.\<close>

definition latency :: "rng \<Rightarrow> pyfloat \<times> rng" where
  "latency r = uniform LAT_MIN LAT_MAX r"

definition ack_arrives :: "(int \<Rightarrow> string \<Rightarrow> rng) \<Rightarrow> int \<Rightarrow> pyfloat" where
  "ack_arrives streams sd =
     (let (request, r1) = latency (streams sd ''net''); (ack, r2) = latency r1 in py_add request ack)"

definition repeat_arrives :: "(int \<Rightarrow> string \<Rightarrow> rng) \<Rightarrow> int \<Rightarrow> pyfloat" where
  "repeat_arrives streams sd =
     (let (request, r1) = latency (streams sd ''net''); (ack, r2) = latency r1; (again, r3) = latency r2
      in py_add ACK_TIMEOUT again)"

definition is_late :: "(int \<Rightarrow> string \<Rightarrow> rng) \<Rightarrow> int \<Rightarrow> bool" where
  "is_late streams sd = (\<not> py_lt (ack_arrives streams sd) ACK_TIMEOUT)"

definition applied_twice :: "(int \<Rightarrow> string \<Rightarrow> rng) \<Rightarrow> int \<Rightarrow> exn" where
  "applied_twice streams sd = Exn (InvariantError ''applied-at-most-once'' (repeat_arrives streams sd)) []"

lemma forgetful_run:
  "quick_run streams False (passes + 3) sd = Some (if is_late streams sd then Raised (applied_twice streams sd) else Done)"
proof -
  obtain x1 r1 u1 where 1: "py_random (streams sd ''net'') = (x1, r1)" "uniform_value LAT_MIN LAT_MAX x1 = Fin u1"
    "of_exact u1 = Fin u1" and b1: "latency_min \<le> u1" "u1 \<le> latency_max" by (rule draw_latency)
  obtain x2 r2 u2 where 2: "py_random r1 = (x2, r2)" "uniform_value LAT_MIN LAT_MAX x2 = Fin u2" "of_exact u2 = Fin u2"
    and b2: "latency_min \<le> u2" "u2 \<le> latency_max" by (rule draw_latency)
  obtain x3 r3 u3 where 3: "py_random r2 = (x3, r3)" "uniform_value LAT_MIN LAT_MAX x3 = Fin u3" "of_exact u3 = Fin u3"
    and b3: "latency_min \<le> u3" "u3 \<le> latency_max" by (rule draw_latency)
  obtain x4 r4 u4 where 4: "py_random r3 = (x4, r4)" "uniform_value LAT_MIN LAT_MAX x4 = Fin u4" "of_exact u4 = Fin u4"
    and b4: "latency_min \<le> u4" "u4 \<le> latency_max" by (rule draw_latency)
  define t2 t3 t4 where t: "t2 = rnd (u1 + u2)" "t3 = rnd (wait_limit + u3)" "t4 = rnd (t3 + u4)"
  note l2 = latency_later [OF b2 _ b1(2), folded t]
  note l3 = latency_later [OF b3 _ order_refl, of wait_limit, folded t]
  have o: "0 < u1" "u1 < wait_limit" "0 < wait_limit" "wait_again < 1" using b1 by (simp_all add: limits again)
  have t2: "of_exact (u1 + u2) = Fin t2" "of_exact t2 = Fin t2" "u1 < t2" "t2 < wait_again"
    using l2 o(1) latest(1) by (simp_all add: limits)
  have t3: "of_exact (wait_limit + u3) = Fin t3" "of_exact t3 = Fin t3" "wait_limit < t3" "t3 < wait_again"
    using l3 o(3) latest(2) by (simp_all add: limits)
  note l4 = latency_later [OF b4 _ less_imp_le [OF t3(4)], folded t]
  have t4: "of_exact (t3 + u4) = Fin t4" "of_exact t4 = Fin t4" "t3 < t4" "t4 < 1"
    using l4 o(3) t3(3) latest(3) by (simp_all add: again)
  have late: "is_late streams sd \<longleftrightarrow> wait_limit \<le> t2" "repeat_arrives streams sd = Fin t3"
    using 1 2 3 t2(1) t3(1)
    by (auto simp: is_late_def ack_arrives_def repeat_arrives_def latency_def uniform_def limit_floats(1))
  have p: "passes + 3 = Suc (Suc (Suc passes))" by simp
  show ?thesis
  proof (cases "wait_limit \<le> t2")
    case True
    with late_forgets [where streams = streams and sd = sd, OF 1 2 3 4 t2(1,2) t3(1,2) t4(1,2) o(1,2) t2(3) t3(3,4) t4(3,4) o(4) t2(4)] late show ?thesis
      unfolding p applied_twice_def by simp
  next
    case False
    with prompt_run [where streams = streams and sd = sd, OF 1 2 t2(1,2) o(1) t2(3)] late o(4) t3(4) t3(3) show ?thesis
      unfolding p by simp
  qed
qed

text \<open>A sweep over seeds each of which passes or fails: it stops at the first that fails.\<close>

lemma sweep_finds_first:
  assumes "\<And>s. run s = Some (if fails s then Raised (err s) else Done)"
    and "\<And>s. is_exception (err s)" "\<And>s. \<not> isinstance_exn (err s) UsageErrorC"
  shows "check_loop run False k ss = (case find fails ss of
      None \<Rightarrow> CheckResult (k + length ss) None None
    | Some s \<Rightarrow> CheckResult (Suc (k + length (takeWhile (\<lambda>x. \<not> fails x) ss))) (Some s) (Some (add_note (FailingSeed s) (err s))))"
  by (induction ss arbitrary: k) (auto simp: assms split: option.split)

lemma passed_before:
  assumes "find P (map int [0..<n]) = Some s"
  shows "length (takeWhile (\<lambda>x. \<not> P x) (map int [0..<n])) = nat s"
proof -
  obtain i where i: "i < n" "P (int i)" "s = int i" "\<forall>j<i. \<not> P (int j)"
    using assms by (auto simp: find_Some_iff)
  have "[0..<n] = [0..<i] @ i # [Suc i..<n]"
    using i(1) upt_add_eq_append [of 0 i "n - i"] by (simp add: upt_conv_Cons)
  then have "map int [0..<n] = map int [0..<i] @ int i # map int [Suc i..<n]" by simp
  moreover have "\<forall>x\<in>set (map int [0..<i]). \<not> P x" using i(4) by auto
  ultimately show ?thesis using i(2,3) by (simp add: takeWhile_append)
qed

text \<open>C13: The example's claim about the broken server, exactly: with the server that forgets, a seed fails if and only if
  the first acknowledgement arrives when the client's patience is over or later, and then with the
  violation at the moment the repeated request arrives; every other seed passes. So the sweep of the
  script reports the first seed on which the acknowledgement is late, and passes when there is none.\<close>

theorem forgetful_exactly_late:
  "replay_quick streams False (passes + 3) sd =
     Some (if is_late streams sd then Raised (applied_twice streams sd) else Done) \<and>
   check_quick streams False (passes + 3) = (case find (is_late streams) (map int [0..<200]) of
      None \<Rightarrow> CheckResult 200 None None
    | Some s \<Rightarrow> CheckResult (nat s + 1) (Some s) (Some (add_note (FailingSeed s) (applied_twice streams s))))"
proof -
  have "is_exception (applied_twice streams s)" "\<not> isinstance_exn (applied_twice streams s) UsageErrorC" for s
    by (simp_all add: applied_twice_def is_exception_iff isinstance_exn_def is_subclass_eval is_interrupt_def)
  note sweep = sweep_finds_first [of "quick_run streams False (passes + 3)", OF forgetful_run this, of 0 "map int [0..<200]"]
  then show ?thesis
    by (auto simp: replay_quick_def check_quick_def replay_def check_def preflight_def DEFAULT_MAX_STEPS_def forgetful_run
        passed_before simp del: upt_rec_numeral split: option.split)
qed

end
