(* ===== verification/PyText.thy ===== *)
theory PyText
  imports Main
begin

text \<open>
  The Python text operations the library and its scripts use: decimal numbers and the string
  methods \<open>strip\<close>, \<open>split\<close>, \<open>partition\<close>, \<open>splitlines\<close>, \<open>join\<close>. A string is a list of characters with
  code points below 256; the whitespace and line boundaries are Python's for that range. Big-endian
  byte strings are lists of numbers below 256.
\<close>

section \<open>Decimal numbers\<close>

definition digit_char :: "nat \<Rightarrow> char" where
  "digit_char d = char_of (48 + d)"

definition is_digit :: "char \<Rightarrow> bool" where
  "is_digit c = (48 \<le> (of_char c :: nat) \<and> (of_char c :: nat) \<le> 57)"

definition digit_value :: "char \<Rightarrow> nat" where
  "digit_value c = of_char c - 48"

fun str_nat :: "nat \<Rightarrow> string" where
  "str_nat n = (if n < 10 then [digit_char n] else str_nat (n div 10) @ [digit_char (n mod 10)])"

declare str_nat.simps [simp del]

definition str_int :: "int \<Rightarrow> string" where
  "str_int i = (if i < 0 then CHR ''-'' # str_nat (nat (- i)) else str_nat (nat i))"

definition parse_nat :: "string \<Rightarrow> nat" where
  "parse_nat s = foldl (\<lambda>n c. 10 * n + digit_value c) 0 s"

text \<open>\<open>str.isdigit\<close>, for decimal digits.\<close>

definition isdigit :: "string \<Rightarrow> bool" where
  "isdigit s = (s \<noteq> [] \<and> list_all is_digit s)"

lemma of_char_small: "n < 256 \<Longrightarrow> of_char (char_of n :: char) = (n :: nat)"
  by (simp add: of_char_of)

lemma digit_char_simps [simp]:
  "d < 10 \<Longrightarrow> is_digit (digit_char d)" "d < 10 \<Longrightarrow> digit_value (digit_char d) = d"
  by (simp_all add: is_digit_def digit_value_def digit_char_def of_char_small)

lemma digit_char_eval [simp]:
  "digit_char 0 = CHR ''0''" "digit_char (Suc 0) = CHR ''1''" "digit_char 2 = CHR ''2''" "digit_char 3 = CHR ''3''"
  "digit_char 4 = CHR ''4''" "digit_char 5 = CHR ''5''" "digit_char 6 = CHR ''6''" "digit_char 7 = CHR ''7''"
  "digit_char 8 = CHR ''8''" "digit_char 9 = CHR ''9''"
  by (simp_all add: digit_char_def char_of_def bit_Suc_0_iff)

lemma str_nat_not_Nil [simp]: "str_nat n \<noteq> []"
  by (simp add: str_nat.simps [of n])

lemma isdigit_str_nat [simp]: "isdigit (str_nat n)"
proof (induction n rule: str_nat.induct)
  case (1 n)
  then show ?case by (cases "n < 10") (simp_all add: str_nat.simps [of n] isdigit_def)
qed

lemma parse_str_nat [simp]: "parse_nat (str_nat n) = n"
proof (induction n rule: str_nat.induct)
  case (1 n)
  then show ?case by (cases "n < 10") (simp_all add: str_nat.simps [of n] parse_nat_def)
qed

lemma str_nat_inj: "str_nat m = str_nat n \<Longrightarrow> m = n"
  by (metis parse_str_nat)

lemma digits_str_nat: "c \<in> set (str_nat n) \<Longrightarrow> is_digit c"
  using isdigit_str_nat [of n] by (auto simp: isdigit_def list_all_iff)

lemma minus_not_digit: "\<not> is_digit (CHR ''-'')"
  by (simp add: is_digit_def)

lemma str_int_inj: "str_int i = str_int j \<Longrightarrow> i = j"
proof -
  have *: "CHR ''-'' # s \<noteq> str_nat n" for s n
    using digits_str_nat [of "CHR ''-''" n] minus_not_digit by (metis list.set_intros(1))
  assume "str_int i = str_int j"
  then show "i = j"
    using * *[symmetric] by (auto simp: str_int_def split: if_splits dest!: str_nat_inj)
qed

section \<open>Whitespace and words\<close>

definition is_space :: "char \<Rightarrow> bool" where
  "is_space c = ((of_char c :: nat) \<in> {9, 10, 11, 12, 13, 28, 29, 30, 31, 32, 133, 160})"

definition lstrip :: "string \<Rightarrow> string" where
  "lstrip s = dropWhile is_space s"

definition rstrip :: "string \<Rightarrow> string" where
  "rstrip s = rev (dropWhile is_space (rev s))"

definition strip :: "string \<Rightarrow> string" where
  "strip s = lstrip (rstrip s)"

text \<open>\<open>split()\<close>: the maximal runs of characters that are not whitespace.\<close>

function split_words :: "string \<Rightarrow> string list" where
  "split_words s = (case lstrip s of
     [] \<Rightarrow> []
   | c # cs \<Rightarrow> takeWhile (\<lambda>x. \<not> is_space x) (c # cs) # split_words (dropWhile (\<lambda>x. \<not> is_space x) (c # cs)))"
  by pat_completeness auto
termination
proof (relation "measure length")
  fix s x21 and x22 :: string
  assume l: "lstrip s = x21 # x22"
  then have "\<not> is_space x21"
    by (metis dropWhile_eq_Cons_conv lstrip_def)
  then have "length (dropWhile (\<lambda>x. \<not> is_space x) (x21 # x22)) \<le> length x22"
    by (simp add: length_dropWhile_le)
  also have "\<dots> < length s"
    using l by (metis Suc_le_lessD length_Cons length_dropWhile_le lstrip_def)
  finally show "(dropWhile (\<lambda>x. \<not> is_space x) (x21 # x22), s) \<in> measure length" by simp
qed simp

declare split_words.simps [simp del]

text \<open>\<open>partition(sep)\<close> with a separator of any length: what precedes its first occurrence, whether it occurs, the rest.\<close>

fun partition_at :: "string \<Rightarrow> string \<Rightarrow> string \<times> bool \<times> string" where
  "partition_at sep [] = (if sep = [] then ([], True, []) else ([], False, []))"
| "partition_at sep (c # cs) =
     (if take (length sep) (c # cs) = sep then ([], True, drop (length sep) (c # cs))
      else let (a, found, b) = partition_at sep cs in (c # a, found, b))"

section \<open>Lines\<close>

definition line_break :: "char \<Rightarrow> bool" where
  "line_break c = ((of_char c :: nat) \<in> {10, 11, 12, 13, 28, 29, 30, 133})"

text \<open>\<open>splitlines()\<close>; a carriage return and a line feed are one boundary.\<close>

fun splitlines_from :: "string \<Rightarrow> string \<Rightarrow> string list" where
  "splitlines_from cur [] = (if cur = [] then [] else [cur])"
| "splitlines_from cur (c # cs) =
     (if c = CHR 0x0D then
        cur # (case cs of
                 [] \<Rightarrow> []
               | d # ds \<Rightarrow> if d = CHR 0x0A then splitlines_from [] ds else splitlines_from [] cs)
      else if line_break c then cur # splitlines_from [] cs
      else splitlines_from (cur @ [c]) cs)"

definition splitlines :: "string \<Rightarrow> string list" where
  "splitlines s = splitlines_from [] s"

fun join_lines :: "string list \<Rightarrow> string" where
  "join_lines [] = []"
| "join_lines [l] = l"
| "join_lines (l # ls) = l @ CHR 0x0A # join_lines ls"

text \<open>A text that is written line by line reads back as those lines.\<close>

lemma splitlines_from_line:
  "list_all (\<lambda>c. \<not> line_break c) l \<Longrightarrow>
    splitlines_from cur (l @ CHR 0x0A # s) = (cur @ l) # splitlines_from [] s"
proof (induction l arbitrary: cur)
  case (Cons c l)
  then have "c \<noteq> CHR 0x0D" by (auto simp: line_break_def)
  with Cons show ?case by simp
qed (simp add: line_break_def)

lemma splitlines_join:
  "list_all (list_all (\<lambda>c. \<not> line_break c)) ls \<Longrightarrow> splitlines (join_lines ls @ [CHR 0x0A]) = (if ls = [] then [[]] else ls)"
proof (induction ls rule: join_lines.induct)
  case 1
  then show ?case by (simp add: splitlines_def line_break_def)
next
  case (2 l)
  then show ?case using splitlines_from_line [of l "[]" "[]"] by (simp add: splitlines_def)
next
  case (3 l l2 ls)
  then show ?case by (simp add: splitlines_def splitlines_from_line)
qed

section \<open>Big-endian bytes\<close>

definition from_bytes :: "nat list \<Rightarrow> nat" where
  "from_bytes bs = foldl (\<lambda>n b. 256 * n + b) 0 bs"

fun to_bytes :: "nat \<Rightarrow> nat \<Rightarrow> nat list" where
  "to_bytes 0 v = []"
| "to_bytes (Suc n) v = to_bytes n (v div 256) @ [v mod 256]"

lemma from_bytes_snoc: "from_bytes (bs @ [b]) = 256 * from_bytes bs + b"
  by (simp add: from_bytes_def)

lemma length_to_bytes [simp]: "length (to_bytes n v) = n"
  by (induction n arbitrary: v) auto

lemma to_bytes_range: "b \<in> set (to_bytes n v) \<Longrightarrow> b < 256"
  by (induction n arbitrary: v) auto

lemma from_to_bytes: "v < 256 ^ n \<Longrightarrow> from_bytes (to_bytes n v) = v"
proof (induction n arbitrary: v)
  case (Suc n)
  then have "v div 256 < 256 ^ n" by (simp add: less_mult_imp_div_less mult.commute)
  with Suc.IH show ?case by (simp add: from_bytes_snoc)
qed (simp add: from_bytes_def)

lemma from_bytes_less: "list_all (\<lambda>b. b < 256) bs \<Longrightarrow> from_bytes bs < 256 ^ length bs"
proof (induction bs rule: rev_induct)
  case (snoc b bs)
  then have "from_bytes bs + 1 \<le> 256 ^ length bs" "b < 256" by simp_all
  then have "256 * (from_bytes bs + 1) \<le> 256 * 256 ^ length bs" by (intro mult_left_mono) auto
  with \<open>b < 256\<close> show ?case by (simp add: from_bytes_snoc)
qed (simp add: from_bytes_def)

section \<open>Words and lines that read back\<close>

definition plain_word :: "string \<Rightarrow> bool" where
  "plain_word w = (w \<noteq> [] \<and> list_all (\<lambda>c. \<not> is_space c) w)"

lemma line_break_space: "line_break c \<Longrightarrow> is_space c"
  by (auto simp: line_break_def is_space_def)

lemma digit_not_space: "is_digit c \<Longrightarrow> \<not> is_space c"
  by (auto simp: is_digit_def is_space_def)

lemma plain_word_str_nat [simp]: "plain_word (str_nat n)"
  by (auto simp: plain_word_def list_all_iff dest!: digits_str_nat digit_not_space)

lemma strip_plain:
  assumes "s \<noteq> []" and "\<not> is_space (hd s)" and "\<not> is_space (last s)"
  shows "strip s = s"
proof -
  have keep: "dropWhile is_space xs = xs" if "\<not> is_space (hd xs)" "xs \<noteq> []" for xs
    using that by (cases xs) auto
  have "dropWhile is_space (rev s) = rev s" using assms by (intro keep) (simp_all add: hd_rev)
  moreover have "dropWhile is_space s = s" using assms by (intro keep)
  ultimately show ?thesis by (simp add: strip_def lstrip_def rstrip_def)
qed

lemma split_words_word:
  assumes w: "plain_word w" and s: "s = [] \<or> is_space (hd s)"
  shows "split_words (w @ s) = w # split_words s"
proof -
  obtain c cs where cs: "w = c # cs" "\<not> is_space c" using w by (cases w) (auto simp: plain_word_def)
  have all: "\<And>x. x \<in> set w \<Longrightarrow> \<not> is_space x" using w by (auto simp: plain_word_def list_all_iff)
  have "takeWhile (\<lambda>x. \<not> is_space x) (w @ s) = w" "dropWhile (\<lambda>x. \<not> is_space x) (w @ s) = s"
    using all s by (cases s; auto simp: takeWhile_append2 dropWhile_append2)+
  moreover have "lstrip (w @ s) = w @ s" using cs by (simp add: lstrip_def)
  ultimately show ?thesis using cs by (subst split_words.simps) simp
qed

lemma split_words_space: "is_space c \<Longrightarrow> split_words (c # s) = split_words s"
  by (subst (1 2) split_words.simps) (simp add: lstrip_def)

lemma split_two_words:
  assumes "plain_word a" and "plain_word b"
  shows "split_words (a @ CHR '' '' # b) = [a, b]"
proof -
  have "split_words [] = []" by (subst split_words.simps) (simp add: lstrip_def)
  then have "split_words b = [b]" using split_words_word [OF assms(2), of "[]"] by simp
  moreover have "is_space (CHR '' '')" by (simp add: is_space_def)
  ultimately show ?thesis
    using split_words_word [OF assms(1), of "CHR '' '' # b"] by (simp add: split_words_space)
qed

lemma strip_two_words:
  assumes "plain_word a" and "plain_word b"
  shows "strip (a @ CHR '' '' # b) = a @ CHR '' '' # b"
  using assms by (intro strip_plain) (auto simp: plain_word_def list_all_iff)

text \<open>The lines of a text hold no line boundary.\<close>

lemma splitlines_from_clean:
  "list_all (\<lambda>c. \<not> line_break c) cur \<Longrightarrow> l \<in> set (splitlines_from cur s) \<Longrightarrow> list_all (\<lambda>c. \<not> line_break c) l"
proof (induction cur s rule: splitlines_from.induct)
  case (2 cur c cs)
  note IH = "2.IH" and cur = "2.prems"(1) and l = "2.prems"(2)
  consider "c = CHR 0x0D" "cs = []" | d ds where "c = CHR 0x0D" "cs = d # ds"
    | "c \<noteq> CHR 0x0D" by (cases cs) auto
  then show ?case
  proof cases
    case 1
    with cur l show ?thesis by simp
  next
    case 2
    with cur l IH(1,2) [OF 2] show ?thesis by (cases "d = CHR 0x0A") auto
  next
    case 3
    with cur l IH(3,4) [OF 3] show ?thesis by (cases "line_break c") auto
  qed
qed (simp split: if_splits)

lemma splitlines_clean: "l \<in> set (splitlines s) \<Longrightarrow> list_all (\<lambda>c. \<not> line_break c) l"
  using splitlines_from_clean [of "[]"] by (simp add: splitlines_def)

text \<open>A text is split at the first occurrence of a separator in one way.\<close>

lemma split_at_unique:
  assumes "a @ c # x = b @ c # y" and "c \<notin> set a" and "c \<notin> set b"
  shows "a = b \<and> x = y"
proof -
  have "takeWhile (\<lambda>z. z \<noteq> c) (a @ c # x) = a" "takeWhile (\<lambda>z. z \<noteq> c) (b @ c # y) = b"
    using assms(2,3) by (auto simp: takeWhile_append2 takeWhile_tail)
  then have "a = b" using assms(1) by simp
  with assms(1) show ?thesis by simp
qed

end
