(* ===== verification/Pins.thy ===== *)
theory Pins
  imports Run PyText
begin

text \<open>
  The two golden files that pin timelines (\<open>src/scripts/pin_replay.py\<close>, \<open>src/scripts/pin_corpus.py\<close>): how a
  timeline is written down, and the command that checks or rewrites a golden. \<open>repr\<close> of an event and
  the SHA-1 of a text are parameters; the file system is a map from path to text.
\<close>

section \<open>Writing timelines down\<close>

definition lines_text :: "string list \<Rightarrow> string" where
  "lines_text ls = concat (map (\<lambda>l. l @ [CHR 0x0A]) ls)"

definition serialize :: "('e \<Rightarrow> string) \<Rightarrow> 'e list \<Rightarrow> string" where
  "serialize repr events = lines_text (map repr events)"

text \<open>The outcome of a corpus run: \<open>ok\<close>, or the name of the exception's type; other \<open>BaseException\<close>s propagate.\<close>

definition capture ::
    "(exn_kind \<Rightarrow> string) \<Rightarrow> ('m, 'v, 's) world \<times> outcome \<Rightarrow> (string \<times> 'v event list) option" where
  "capture type_name r = (case r of
     (w, Done) \<Rightarrow> Some (''ok'', timeline w)
   | (w, Raised e) \<Rightarrow> if is_exception e then Some (type_name (ekind e), timeline w) else None
   | (w, Diverged) \<Rightarrow> None)"

definition digest :: "(string \<Rightarrow> string) \<Rightarrow> ('e \<Rightarrow> string) \<Rightarrow> string \<Rightarrow> 'e list \<Rightarrow> string" where
  "digest sha1hex repr outcome events =
     take 12 (sha1hex (outcome @ [CHR 0x0A] @ serialize repr events))"

text \<open>An entry: its name, its seeds, the seeds whose timeline is stored in full, and its runs.\<close>

record 'e entry =
  en_name :: string
  en_seeds :: "int list"
  en_full :: "int list"
  en_run :: "int \<Rightarrow> string \<times> 'e list"

definition entry_line :: "(string \<Rightarrow> string) \<Rightarrow> ('e \<Rightarrow> string) \<Rightarrow> 'e entry \<Rightarrow> int \<Rightarrow> string" where
  "entry_line sha1hex repr en s = (let (outcome, events) = en_run en s
     in en_name en @ '' '' @ str_int s @ '' '' @ outcome @ '' '' @ digest sha1hex repr outcome events)"

definition full_lines :: "('e \<Rightarrow> string) \<Rightarrow> 'e entry \<Rightarrow> int \<Rightarrow> string list" where
  "full_lines repr en s = (let (outcome, events) = en_run en s in
     if s \<in> set (en_full en)
     then (''== '' @ en_name en @ '' seed='' @ str_int s @ '' outcome='' @ outcome) # map repr events
     else [])"

definition serialize_corpus :: "(string \<Rightarrow> string) \<Rightarrow> ('e \<Rightarrow> string) \<Rightarrow> 'e entry list \<Rightarrow> string" where
  "serialize_corpus sha1hex repr entries =
     join_lines ([''# seedloop characterization corpus: name seed outcome digest''] @
       concat (map (\<lambda>en. map (entry_line sha1hex repr en) (en_seeds en)) entries) @
       concat (map (\<lambda>en. concat (map (full_lines repr en) (en_seeds en))) entries)) @ [CHR 0x0A]"

section \<open>The command\<close>

type_synonym files = "string \<Rightarrow> string option"

definition golden_arg :: "string \<Rightarrow> string list \<Rightarrow> string option" where
  "golden_arg golden argv = (case dropWhile (\<lambda>a. a \<noteq> ''--golden'') argv of
     [] \<Rightarrow> Some golden
   | [_] \<Rightarrow> None
   | _ # path # _ \<Rightarrow> Some path)"

text \<open>Exit code and file system; the run comes between the arguments and the golden.\<close>

definition pin_main :: "string \<Rightarrow> string list \<Rightarrow> string \<Rightarrow> files \<Rightarrow> nat \<times> files" where
  "pin_main golden argv produced fs = (case golden_arg golden argv of
     None \<Rightarrow> (2, fs)
   | Some path \<Rightarrow>
       if ''--update'' \<in> set argv then (0, fs(path \<mapsto> produced))
       else (case fs path of
           None \<Rightarrow> (1, fs)
         | Some expected \<Rightarrow> (if produced = expected then 0 else 1, fs)))"

section \<open>What a pin catches\<close>

lemma lines_text_inj:
  assumes "list_all (\<lambda>l. CHR 0x0A \<notin> set l) ls" and "list_all (\<lambda>l. CHR 0x0A \<notin> set l) ls'"
    and "lines_text ls = lines_text ls'"
  shows "ls = ls'"
  using assms
proof (induction ls arbitrary: ls')
  case Nil
  then show ?case by (cases ls') (simp_all add: lines_text_def)
next
  case (Cons l ls)
  then obtain m ms where ms: "ls' = m # ms" by (cases ls') (auto simp: lines_text_def)
  have "l @ CHR 0x0A # lines_text ls = m @ CHR 0x0A # lines_text ms"
    using Cons.prems(3) ms by (simp add: lines_text_def)
  from split_at_unique [OF this] Cons.prems(1,2) ms have "l = m" "lines_text ls = lines_text ms" by simp_all
  with Cons ms show ?case by simp
qed

text \<open>C39: The pin catches every change of the timeline and nothing else: after a golden was written for one
  timeline, the check of another one on the same path passes exactly when they agree event by
  event; checking never changes a file, and updating changes only the golden.\<close>

theorem pin_detects:
  assumes repr: "\<And>e. CHR 0x0A \<notin> set (repr e)" and path: "golden_arg golden argv = Some path"
    and check: "''--update'' \<notin> set argv"
  shows "(fst (pin_main golden argv (serialize repr events')
        (snd (pin_main golden (''--update'' # argv) (serialize repr events) fs))) = 0 \<longleftrightarrow>
      map repr events = map repr events') \<and>
    snd (pin_main golden argv (serialize repr events') fs) = fs \<and>
    snd (pin_main golden (''--update'' # argv) (serialize repr events) fs) = fs(path \<mapsto> serialize repr events)"
proof -
  have "golden_arg golden (''--update'' # argv) = Some path" using path by (simp add: golden_arg_def)
  then have update: "snd (pin_main golden (''--update'' # argv) (serialize repr events) fs) = fs(path \<mapsto> serialize repr events)"
    by (simp add: pin_main_def)
  have "serialize repr events' = serialize repr events \<longleftrightarrow> map repr events = map repr events'"
    using lines_text_inj [of "map repr events" "map repr events'"] repr by (auto simp: serialize_def list_all_iff)
  with update path check show ?thesis by (simp add: pin_main_def split: option.splits)
qed

theorem pin_detects_witness:
  "fst (pin_main ''golden.txt'' [] (serialize str_nat [1, 3]) (snd (pin_main ''golden.txt'' [''--update''] (serialize str_nat [1, 2]) Map.empty))) \<noteq> 0"
proof -
  have "CHR 0x0A \<notin> set (str_nat n)" for n using digits_str_nat [of "CHR 0x0A" n] by (auto simp: is_digit_def)
  moreover have "map str_nat [1, 2] \<noteq> map str_nat [1, 3]" using str_nat_inj [of 2 3] by auto
  moreover have "golden_arg ''golden.txt'' [] = Some ''golden.txt''" by (simp add: golden_arg_def)
  ultimately show ?thesis
    using pin_detects [of str_nat "''golden.txt''" "[]" "''golden.txt''" "[1, 3]" "[1, 2]" Map.empty] by auto
qed

end
