(* ===== verification/Corpus.thy ===== *)
theory Corpus
  imports User_Calls Pins
begin

text \<open>
  Scenarios of the characterization corpus (\<open>src/scripts/pin_corpus.py\<close>), as user code, and what the
  committed golden pins of them: the outcome and the timeline, here for every seed and all entropy.
  A scenario's own variables are its objects. \<open>_spawn\<close> is \<open>ensure_future\<close>; the list it keeps alive has
  no effect here. A \<open>while True\<close> that is only left by cancellation is unrolled \<open>passes\<close> times.
\<close>

section \<open>The scenarios\<close>

text \<open>What scenarios record.\<close>

datatype pyval = PStr string | PInt int | PFloat pyfloat | PTuple "pyval list"

type_synonym corpus_code = "(int, pyval, int) code"

definition record_now :: "(pyfloat \<Rightarrow> pyval) \<Rightarrow> corpus_code \<Rightarrow> corpus_code" where
  "record_now v k = call ONow (\<lambda>r. case r of RTime t \<Rightarrow> call (ORecord (v t)) (\<lambda>_. k) | _ \<Rightarrow> Return)"

text \<open>\<open>try: await x; k except asyncio.CancelledError: handler\<close>, any other exception propagating.\<close>

definition on_cancel ::
    "(int, pyval, int, corpus_code) op \<Rightarrow> (exn \<Rightarrow> corpus_code) \<Rightarrow> corpus_code \<Rightarrow> corpus_code" where
  "on_cancel x handler k = try_call x (\<lambda>e. if is_cancelled_error e then handler e else Throw e) (\<lambda>_. k)"

definition run_until_tie :: corpus_code where
  "run_until_tie = call (OCallLater (Fin 3) (Heap (\<lambda>_. 1) (\<lambda>_. Return))) (\<lambda>_.
     call (ORunUntil (\<lambda>flag t. if flag = 1 then Holds else Fails) (Some (Fin 3))) (\<lambda>_.
     record_now (\<lambda>t. PTuple [PStr ''tie-won-by-predicate'', PFloat t]) Return))"

fun tick :: "nat \<Rightarrow> corpus_code" where
  "tick 0 = Return"
| "tick (Suc k) = call (OSleep (Fin 1)) (\<lambda>_. Heap (\<lambda>n. n + 1) (\<lambda>_. tick k))"

definition record_state :: "string \<Rightarrow> corpus_code \<Rightarrow> corpus_code" where
  "record_state what k = call ONow (\<lambda>r. case r of
     RTime t \<Rightarrow> Heap (\<lambda>n. n) (\<lambda>n. call (ORecord (PTuple [PStr what, PFloat t, PInt n])) (\<lambda>_. k)) | _ \<Rightarrow> Return)"

definition run_until_deadline_edge :: corpus_code where
  "run_until_deadline_edge = call (OSpawn (tick 10)) (\<lambda>_.
     let later = call (ORunUntil (\<lambda>n t. if 5 \<le> n then Holds else Fails) (Some (Fin 10))) (\<lambda>_. record_state ''later'' Return)
     in try_call (ORunUntil (\<lambda>n t. if 3 \<le> n then Holds else Fails) (Some (Fin 3)))
          (\<lambda>e. if is_timeout e then record_state ''deadline-won'' later else Throw e)
          (\<lambda>_. record_state ''predicate-won'' later))"

definition recording_node :: "int \<Rightarrow> corpus_code" where
  "recording_node i = on_cancel (OSleep (of_exact (of_int (100 + i))))
     (\<lambda>e. call (ORecord (PTuple [PStr ''cancelled'', PInt i])) (\<lambda>_. Throw e)) Return"

definition nodes_record_on_cancel :: corpus_code where
  "nodes_record_on_cancel = calls
     [OStart (map recording_node [0, 1, 2, 3, 4, 5]), OSleep (of_exact (1 / 100))] Return"

definition slow_node :: corpus_code where
  "slow_node = on_cancel (OSleep (Fin 100))
     (\<lambda>e. call (OSleep (of_exact (1 / 2))) (\<lambda>_. record_now (\<lambda>t. PTuple [PStr ''slow-cleanup'', PFloat t]) (Throw e))) Return"

definition bounded_node :: corpus_code where
  "bounded_node = on_cancel (OSleep (Fin 100))
     (\<lambda>e. wait_for (OSleep (Fin 1)) (of_exact (1 / 5)) (\<lambda>r. case r of
        RExn x \<Rightarrow> if is_timeout x then record_now (\<lambda>t. PTuple [PStr ''bounded-cleanup'', PFloat t]) (Throw e) else Throw x
      | _ \<Rightarrow> Throw e)) Return"

definition cancel_handler_sleeps :: corpus_code where
  "cancel_handler_sleeps = calls [OStart [slow_node, bounded_node], OSleep (Fin 1)] Return"

definition teardown_deadlock :: corpus_code where
  "teardown_deadlock = calls
     [OStart [on_cancel (OSleep (Fin 100))
        (\<lambda>e. call OFuture (\<lambda>r. case r of RId f \<Rightarrow> call (OAwait f) (\<lambda>_. Return) | _ \<Rightarrow> Return)) Return],
      OSleep (of_exact (1 / 10))] Return"

definition spawn_then_return :: corpus_code where
  "spawn_then_return = calls [OSleep (Fin 0), OSpawn (calls [ORecord (PStr ''child-ran'')] Return)] Return"

fun link_chain :: "nat \<Rightarrow> int \<Rightarrow> corpus_code" where
  "link_chain 0 n = calls [ORecord (PTuple [PStr ''link'', PInt n])] Return"
| "link_chain (Suc k) n = calls [ORecord (PTuple [PStr ''link'', PInt n]), OSpawn (link_chain k (n + 1))] Return"

text \<open>\<open>link(n)\<close> spawns the next while \<open>n < 4\<close>.\<close>

definition spawn_chain :: corpus_code where
  "spawn_chain = calls [OSpawn (link_chain 4 0)] Return"

definition cancel_handler_spawns :: corpus_code where
  "cancel_handler_spawns = calls
     [OStart [on_cancel (OSleep (Fin 100))
        (\<lambda>e. call (OSpawn (calls [OSleep (Fin 0), ORecord (PStr ''spawned-in-cancel-ran'')] Return)) (\<lambda>_. Throw e)) Return],
      OSleep (of_exact (1 / 10))] Return"

definition pending_callbacks_at_return :: corpus_code where
  "pending_callbacks_at_return =
     call (OCallLater (of_exact (1 / 2)) (calls [ORecord (PStr ''later'')] Return)) (\<lambda>_.
     call (OSpawn (calls [ORecord (PStr ''other'')] Return)) (\<lambda>r. case r of
       RId task \<Rightarrow> calls
         [OOnDone task (calls [OCallSoon (calls [ORecord (PStr ''soon-after-done'')] Return)] Return),
          OCallSoon (calls [OCallSoon (calls [ORecord (PStr ''soon-chain'')] Return)] Return)] Return
     | _ \<Rightarrow> Return))"

fun busy_loop :: "nat \<Rightarrow> corpus_code" where
  "busy_loop 0 = Hang"
| "busy_loop (Suc n) = Heap (\<lambda>ticks. ticks + 1) (\<lambda>_. on_cancel (OSleep (Fin 0))
     (\<lambda>e. Heap (\<lambda>ticks. ticks) (\<lambda>ticks. call (ORecord (PTuple [PStr ''ticks'', PInt ticks])) (\<lambda>_. Throw e)))
     (busy_loop n))"

definition busy_node_ticks :: "nat \<Rightarrow> corpus_code" where
  "busy_node_ticks passes = calls [OStart [busy_loop passes], OSleep (Fin 0), OSleep (Fin 0), OSleep (Fin 0)] Return"

definition node_raises_after :: "nat \<Rightarrow> corpus_code" where
  "node_raises_after steps = calls
     [OStart [calls (replicate steps (OSleep (Fin 0))) (Throw (exn (PyError ''ValueError'')))], OSleep (Fin 0)] Return"

definition failing_node :: "pyfloat \<Rightarrow> string \<Rightarrow> corpus_code" where
  "failing_node after error = calls [OSleep after, ORecord (PTuple [PStr ''failing'', PStr error])]
     (Throw (exn (PyError error)))"

definition two_nodes_fail :: corpus_code where
  "two_nodes_fail = calls
     [OStart [failing_node (of_exact (3 / 10)) ''LookupError'', failing_node (of_exact (1 / 10)) ''RuntimeError''],
      OSleep (Fin 1)] Return"

fun bumper :: "nat \<Rightarrow> corpus_code" where
  "bumper 0 = Hang"
| "bumper (Suc n) = call ORandom (\<lambda>r. case r of
     RReal x \<Rightarrow> call (OSleep (uniform_value (of_exact (1 / 10)) (Fin 1) x)) (\<lambda>_. Heap (\<lambda>x. x + 1)
       (\<lambda>x. record_now (\<lambda>t. PTuple [PStr ''bumped'', PInt (x + 1), PFloat t]) (bumper n)))
   | _ \<Rightarrow> Return)"

definition invariant_fails :: "nat \<Rightarrow> corpus_code" where
  "invariant_fails passes = calls
     [OAlways ''x-below-3'' (\<lambda>x t. if x < 3 then Holds else Fails), OStart [bumper passes], OSleep (Fin 10)] Return"

text \<open>
  \<open>asyncio.shield\<close> of a task that is not done: an outer future that follows it; the outcome of the task is
  passed on, and setting a result on an outer future that is done has no effect (the callback's exception is only logged).
\<close>

definition shield :: "nat \<Rightarrow> (nat \<Rightarrow> corpus_code) \<Rightarrow> corpus_code" where
  "shield task k = call OFuture (\<lambda>r. case r of
     RId outer \<Rightarrow> call (OOnDone task (try_call (OAwait task)
         (\<lambda>e. if is_cancelled_error e then call (OCancelTask outer) (\<lambda>_. Return) else Throw e)
         (\<lambda>_. call (OSetResult outer) (\<lambda>_. Return)))) (\<lambda>_. k outer)
   | _ \<Rightarrow> Return)"

definition shield_at_end :: corpus_code where
  "shield_at_end = call (OSpawn (calls [OSleep (Fin 0), ORecord (PStr ''inner-done'')] Return)) (\<lambda>r. case r of
     RId task \<Rightarrow> shield task (\<lambda>_. Return) | _ \<Rightarrow> Return)"

text \<open>
  An \<open>asyncio.TaskGroup\<close> with one child that does not fail: leaving it waits for a future that the child's end
  sets (the current one is kept as the scenario's object); a cancellation of that wait cancels the
  child, waits again, and is raised in the end.
\<close>

definition group_of_one :: "corpus_code \<Rightarrow> (exn option \<Rightarrow> corpus_code) \<Rightarrow> corpus_code" where
  "group_of_one child k = call (OSpawn child) (\<lambda>r. case r of
     RId task \<Rightarrow> call (OOnDone task (Heap (\<lambda>f. f) (\<lambda>f. call (OSetResult (nat f)) (\<lambda>_. Return)))) (\<lambda>_.
       call OFuture (\<lambda>r. case r of
         RId f \<Rightarrow> Heap (\<lambda>_. int f) (\<lambda>_. try_call (OAwait f)
           (\<lambda>e. if is_cancelled_error e then call (OCancelTask task) (\<lambda>_. call OFuture (\<lambda>r. case r of
                RId f2 \<Rightarrow> Heap (\<lambda>_. int f2) (\<lambda>_. call (OAwait f2) (\<lambda>_. k (Some e))) | _ \<Rightarrow> Return))
              else Throw e)
           (\<lambda>_. k None))
       | _ \<Rightarrow> Return))
   | _ \<Rightarrow> Return)"

definition group_worker :: corpus_code where
  "group_worker = on_cancel (OSleep (Fin 10)) (\<lambda>e. call (ORecord (PStr ''worker-cancelled'')) (\<lambda>_. Throw e)) Return"

definition taskgroup_one_child_timeout :: corpus_code where
  "taskgroup_one_child_timeout = Op (OTimeout (Fin 1)) (\<lambda>i. case i of
     RId n \<Rightarrow> group_of_one group_worker (\<lambda>x. try_call (OTimeoutEnd n x)
       (\<lambda>e. if is_timeout e then call (ORecord (PStr ''timed-out'')) (\<lambda>_. Return) else Throw e) (\<lambda>_. Return))
   | RExn e \<Rightarrow> Throw e
   | _ \<Rightarrow> Return)"

text \<open>The receiver and the sender of \<open>reliable_with_faults\<close>; its messages are numbers.\<close>

fun got_receiver :: "nat \<Rightarrow> corpus_code" where
  "got_receiver 0 = Return"
| "got_receiver (Suc n) = call (ORecv 2) (\<lambda>r. case r of
     RItem src m \<Rightarrow> call (ORecord (PTuple [PStr ''got'', PInt src, PInt m])) (\<lambda>_. got_receiver n) | _ \<Rightarrow> Return)"

definition reliable_with_faults :: corpus_code where
  "reliable_with_faults = calls [OBind 1 True (Fin 0) (Fin 0), OBind 2 True (Fin 0) (Fin 0)]
     (call (OSpawn (got_receiver 20)) (\<lambda>r. case r of
        RId task \<Rightarrow> calls (map (OSend 1 2) [0..19] @
            [ORunFor (Fin 1) [SlowLinkFault (Some (AddrArg 1)) (Some (AddrArg 2)) None]])
          (wait_for (OAwait task) (Fin 50) (\<lambda>r. case r of RExn e \<Rightarrow> Throw e | _ \<Rightarrow> Return))
      | _ \<Rightarrow> Return))"

section \<open>Running them\<close>

text \<open>The name of an exception's type.\<close>

fun type_name :: "exn_kind \<Rightarrow> string" where
  "type_name (SeedloopError m) = ''SeedloopError''"
| "type_name (BoundaryError m) = ''BoundaryError''"
| "type_name DeadlockError = ''DeadlockError''"
| "type_name LivelockError = ''LivelockError''"
| "type_name TeardownError = ''TeardownError''"
| "type_name (InvariantError n t) = ''InvariantError''"
| "type_name (EntropyLeakError m) = ''EntropyLeakError''"
| "type_name (UsageError m) = ''UsageError''"
| "type_name (PyError n) = n"
| "type_name (UserError n) = ''Exception''"
| "type_name (Interrupt n) = ''BaseException''"

definition corpus_run ::
    "(int \<Rightarrow> string \<Rightarrow> rng) \<Rightarrow> corpus_code \<Rightarrow> int \<Rightarrow> (string \<times> pyval event list) option" where
  "corpus_run streams c sd = (case run_one streams False 0 (\<lambda>_. CallReturns (Some c)) (Some 10000000) sd of
     None \<Rightarrow> None
   | Some r \<Rightarrow> capture type_name r)"

section \<open>The corpus and its command\<close>

definition SEEDS :: "int list" where
  "SEEDS = [0..11]"

definition FEW :: "int list" where
  "FEW = [0, 1, 2]"

text \<open>
  The entries in their order: name, seeds, whether audited, seeds stored in full. Running a scenario by its
  name is a parameter, since not every scenario is modelled.
\<close>

definition entries :: "(string \<Rightarrow> bool \<Rightarrow> int \<Rightarrow> string \<times> 'e list) \<Rightarrow> 'e entry list" where
  "entries run = map (\<lambda>(name, seeds, audit, full).
       \<lparr>en_name = name, en_seeds = seeds, en_full = full, en_run = run name audit\<rparr>)
     ([(''faults_unpinned'', SEEDS, False, []),
       (''faults_pinned'', SEEDS, False, [0]),
       (''reliable_with_faults'', SEEDS, False, []),
       (''run_until_tie'', FEW, False, []),
       (''run_until_deadline_edge'', FEW, False, []),
       (''nodes_record_on_cancel'', FEW, False, []),
       (''cancel_handler_sleeps'', FEW, False, [0]),
       (''teardown_deadlock'', FEW, False, []),
       (''spawn_then_return'', FEW, False, [0]),
       (''spawn_chain'', FEW, False, [0]),
       (''cancel_handler_spawns'', FEW, False, []),
       (''pending_callbacks_at_return'', FEW, False, [0]),
       (''busy_node_ticks'', FEW, False, [0])] @
      map (\<lambda>n. (''node_raises_after_'' @ str_nat n, [0, 1], False, [])) [1, 2, 3, 4, 5] @
      [(''shield_at_end'', FEW, False, []),
       (''invariant_fails'', SEEDS, False, []),
       (''wait_for_burst'', SEEDS, False, []),
       (''csprng_values'', SEEDS, False, []),
       (''net_basic'', SEEDS, False, []),
       (''net_basic_audited'', SEEDS, True, []),
       (''two_nodes_fail'', FEW, False, []),
       (''taskgroup_one_child_timeout'', FEW, False, []),
       (''raft_buggy'', [0..19], False, []),
       (''raft_correct'', [0..19], False, [])])"

definition corpus_main ::
    "(string \<Rightarrow> string) \<Rightarrow> ('e \<Rightarrow> string) \<Rightarrow> (string \<Rightarrow> bool \<Rightarrow> int \<Rightarrow> string \<times> 'e list) \<Rightarrow>
     string \<Rightarrow> string list \<Rightarrow> files \<Rightarrow> nat \<times> files" where
  "corpus_main sha1hex repr run golden argv fs =
     pin_main golden argv (serialize_corpus sha1hex repr (entries run)) fs"

text \<open>Every seed whose timeline is to be stored is run, and names and seeds are distinct.\<close>

lemma entries_sound:
  "list_all (\<lambda>en. set (en_full en) \<subseteq> set (en_seeds en)) (entries run)"
  "distinct (map en_name (entries run))" "list_all (\<lambda>en. distinct (en_seeds en)) (entries run)"
  by (simp_all add: entries_def SEEDS_def FEW_def str_nat.simps)

end
