(* ===== verification/Golden.thy ===== *)
theory Golden
  imports Corpus Run_Eval
begin

text \<open>
  The committed golden of the corpus (\<open>src/tests/data/corpus_golden.txt\<close>), reproduced by the model: each
  scenario here is evaluated step by step, teardown included, and ends with the outcome and the
  timeline the golden holds in full text or by digest, for every seed and all entropy.
\<close>

section \<open>The times that occur\<close>

definition hundredth :: real where
  "hundredth = rnd (1 / 100)"

definition tenth :: real where
  "tenth = rnd (1 / 10)"

definition fifth :: real where
  "fifth = rnd (1 / 5)"

definition three_tenths :: real where
  "three_tenths = rnd (3 / 10)"

definition six_fifths :: real where
  "six_fifths = rnd (6 / 5)"

lemmas fraction_defs = hundredth_def tenth_def fifth_def three_tenths_def six_fifths_def

lemma fractions:
  "hundredth = 5764607523034235 / 576460752303423488" "tenth = 3602879701896397 / 36028797018963968"
  "fifth = 3602879701896397 / 18014398509481984" "three_tenths = 5404319552844595 / 18014398509481984"
  "six_fifths = 5404319552844595 / 4503599627370496"
  unfolding fraction_defs by code_simp+

lemma rnd_sums: "rnd (1 + fifth) = six_fifths" "rnd (1 / 2) = 1 / 2" "rnd (3 / 2) = 3 / 2"
  unfolding fraction_defs by code_simp+

lemma unit_fractions: "0 < hundredth" "hundredth < 1" "0 < tenth" "tenth < 1" "0 < fifth" "fifth < 1"
  "0 < three_tenths" "three_tenths < 1" "tenth < three_tenths"
  "tenth \<le> three_tenths" "\<not> three_tenths < tenth" "\<not> three_tenths \<le> tenth"
  by (simp_all add: fractions)

lemma of_exact_fractions:
  "of_exact (1 / 10) = Fin tenth" "of_exact (3 / 10) = Fin three_tenths" "of_exact (1 / 100) = Fin hundredth"
  "of_exact (1 / 5) = Fin fifth" "of_exact (6 / 5) = Fin six_fifths"
  by (simp_all add: of_exact_small flip: fraction_defs)

lemma of_exact_again:
  "of_exact tenth = Fin tenth" "of_exact three_tenths = Fin three_tenths" "of_exact hundredth = Fin hundredth"
  "of_exact fifth = Fin fifth" "of_exact (1 + fifth) = Fin six_fifths"
proof -
  show "of_exact tenth = Fin tenth" "of_exact three_tenths = Fin three_tenths" "of_exact hundredth = Fin hundredth"
    "of_exact fifth = Fin fifth"
    using unit_fractions unfolding fraction_defs by (simp_all add: of_exact_small rnd_double)
  show "of_exact (1 + fifth) = Fin six_fifths" using rnd_sums(1) unit_fractions by (simp add: of_exact_small)
qed

lemma unit_order:
  assumes "0 < x" and "x < (1 :: real)"
  shows "0 \<le> x" "x \<le> 1" "x < numeral v" "x \<le> numeral v" "\<not> numeral v < x" "\<not> numeral v \<le> x"
    "\<not> 1 \<le> x" "\<not> 1 < x" "\<not> x \<le> 0" "\<not> x < 0"
proof -
  have "(1 :: real) \<le> numeral v" by (rule one_le_numeral)
  with assms show "x < numeral v" "x \<le> numeral v" "\<not> numeral v < x" "\<not> numeral v \<le> x" by linarith+
qed (use assms in simp_all)

lemma six_fifths_order:
  "six_fifths < numeral (num.Bit0 v)" "six_fifths \<le> numeral (num.Bit0 v)"
  "\<not> numeral (num.Bit0 v) < six_fifths" "\<not> numeral (num.Bit0 v) \<le> six_fifths"
  "1 < six_fifths" "1 \<le> six_fifths" "\<not> six_fifths \<le> 1" "\<not> six_fifths < 1"
  "six_fifths * 2 < 3" "six_fifths * 2 \<le> 3" "\<not> 3 < six_fifths * 2" "\<not> 3 \<le> six_fifths * 2"
proof -
  have "(1 :: real) \<le> numeral v" by (rule one_le_numeral)
  then have "(2 :: real) \<le> numeral (num.Bit0 v)" unfolding numeral_Bit0 by linarith
  moreover have "six_fifths < 2" by (simp add: fractions)
  ultimately show "six_fifths < numeral (num.Bit0 v)" "six_fifths \<le> numeral (num.Bit0 v)"
    "\<not> numeral (num.Bit0 v) < six_fifths" "\<not> numeral (num.Bit0 v) \<le> six_fifths" by linarith+
qed (simp_all add: fractions)

lemmas golden_times = of_exact_fractions of_exact_again rnd_sums(2,3) unit_fractions six_fifths_order
  unit_order [OF unit_fractions(1,2)] unit_order [OF unit_fractions(3,4)]
  unit_order [OF unit_fractions(5,6)] unit_order [OF unit_fractions(7,8)]

section \<open>The scenarios, evaluated\<close>

text \<open>Code held by a task is unfolded when it runs.\<close>

lemma link_chain_numeral:
  "link_chain (numeral v) n = calls [ORecord (PTuple [PStr ''link'', PInt n]), OSpawn (link_chain (pred_numeral v) (n + 1))] Return"
  by (simp add: numeral_eq_Suc)

lemma busy_loop_numeral:
  "busy_loop (numeral v) = Heap (\<lambda>ticks. ticks + 1) (\<lambda>_. on_cancel (OSleep (Fin 0))
     (\<lambda>e. Heap (\<lambda>ticks. ticks) (\<lambda>ticks. call (ORecord (PTuple [PStr ''ticks'', PInt ticks])) (\<lambda>_. Throw e)))
     (busy_loop (pred_numeral v)))"
  by (simp add: numeral_eq_Suc)

lemma tick_numeral:
  "tick (numeral v) = call (OSleep (Fin 1)) (\<lambda>_. Heap (\<lambda>n. n + 1) (\<lambda>_. tick (pred_numeral v)))"
  by (simp add: numeral_eq_Suc)

lemma replicate_numeral: "replicate (numeral v) x = x # replicate (pred_numeral v) x"
  by (simp add: numeral_eq_Suc)

lemma exec_nodes:
  "exec (failing_node t e) = exec (call (OSleep t) (\<lambda>_. calls [ORecord (PTuple [PStr ''failing'', PStr e])] (Throw (exn (PyError e)))))"
  "exec slow_node = exec (on_cancel (OSleep (Fin 100))
     (\<lambda>e. call (OSleep (of_exact (1 / 2))) (\<lambda>_. record_now (\<lambda>t. PTuple [PStr ''slow-cleanup'', PFloat t]) (Throw e))) Return)"
  "exec bounded_node = exec (on_cancel (OSleep (Fin 100))
     (\<lambda>e. wait_for (OSleep (Fin 1)) (of_exact (1 / 5)) (\<lambda>r. case r of
        RExn x \<Rightarrow> if is_timeout x then record_now (\<lambda>t. PTuple [PStr ''bounded-cleanup'', PFloat t]) (Throw e) else Throw x
      | _ \<Rightarrow> Throw e)) Return)"
  "exec (recording_node i) = exec (on_cancel (OSleep (of_exact (of_int (100 + i))))
     (\<lambda>e. call (ORecord (PTuple [PStr ''cancelled'', PInt i])) (\<lambda>_. Throw e)) Return)"
  by (simp_all add: failing_node_def slow_node_def bounded_node_def recording_node_def)

lemmas golden_code = corpus_run_def capture_def on_cancel_def record_now_def record_state_def
  link_chain_numeral busy_loop_numeral tick_numeral replicate_numeral exec_nodes

lemmas golden_eval = eval_rules eval_calls golden_times golden_code

text \<open>What the golden holds in full.\<close>

abbreviation instant :: "pyval \<Rightarrow> pyval event" where
  "instant v \<equiv> UserEv (Fin 0) v"

lemma golden_spawn:
  "corpus_run streams spawn_then_return sd = Some (''ok'', [instant (PStr ''child-ran'')])"
  by (simp add: spawn_then_return_def golden_eval cong: let_weak_cong split del: if_split del: eval_off)

lemma golden_chain:
  "corpus_run streams spawn_chain sd =
    Some (''ok'', [instant (PTuple [PStr ''link'', PInt 0]), instant (PTuple [PStr ''link'', PInt 1])])"
  by (simp add: spawn_chain_def golden_eval cong: let_weak_cong split del: if_split del: eval_off)

lemma golden_pending:
  "corpus_run streams pending_callbacks_at_return sd =
    Some (''ok'', [instant (PStr ''other''), instant (PStr ''soon-chain'')])"
  by (simp add: pending_callbacks_at_return_def golden_eval cong: let_weak_cong split del: if_split del: eval_off)

lemma golden_busy:
  "corpus_run streams (busy_node_ticks 8) sd = Some (''ok'', [instant (PTuple [PStr ''ticks'', PInt 5])])"
  by (simp add: busy_node_ticks_def golden_eval cong: let_weak_cong split del: if_split del: eval_off)

lemma golden_cleanup:
  "corpus_run streams cancel_handler_sleeps sd = Some (''ok'',
    [UserEv (of_exact (6 / 5)) (PTuple [PStr ''bounded-cleanup'', PFloat (of_exact (6 / 5))]),
     UserEv (of_exact (3 / 2)) (PTuple [PStr ''slow-cleanup'', PFloat (of_exact (3 / 2))])])"
  by (simp add: cancel_handler_sleeps_def golden_eval cong: let_weak_cong split del: if_split del: eval_off)

text \<open>What it holds by outcome and digest.\<close>

lemma golden_tie:
  "corpus_run streams run_until_tie sd =
    Some (''ok'', [UserEv (Fin 3) (PTuple [PStr ''tie-won-by-predicate'', PFloat (Fin 3)])])"
  by (simp add: run_until_tie_def run_until_def until_check_def run_until_end_def golden_eval
      cong: let_weak_cong split del: if_split del: eval_off)

lemma golden_edge:
  "corpus_run streams run_until_deadline_edge sd = Some (''ok'',
    [UserEv (Fin 3) (PTuple [PStr ''deadline-won'', PFloat (Fin 3), PInt 3]),
     UserEv (Fin 5) (PTuple [PStr ''later'', PFloat (Fin 5), PInt 5])])"
  by (simp add: run_until_deadline_edge_def run_until_def until_check_def run_until_end_def golden_eval
      cong: let_weak_cong split del: if_split del: eval_off)

lemma golden_order:
  "corpus_run streams nodes_record_on_cancel sd = Some (''ok'',
    map (\<lambda>i. UserEv (of_exact (1 / 100)) (PTuple [PStr ''cancelled'', PInt i])) [0, 1, 2, 3, 4, 5])"
  by (simp add: nodes_record_on_cancel_def golden_eval cong: let_weak_cong split del: if_split del: eval_off)

lemma golden_deadlock: "corpus_run streams teardown_deadlock sd = Some (''DeadlockError'', [])"
  by (simp add: teardown_deadlock_def golden_eval cong: let_weak_cong split del: if_split del: eval_off)

lemma golden_spawner:
  "corpus_run streams cancel_handler_spawns sd =
    Some (''ok'', [UserEv (of_exact (1 / 10)) (PStr ''spawned-in-cancel-ran'')])"
  by (simp add: cancel_handler_spawns_def golden_eval cong: let_weak_cong split del: if_split del: eval_off)

lemma golden_two:
  "corpus_run streams two_nodes_fail sd = Some (''LookupError'',
    [UserEv (of_exact (1 / 10)) (PTuple [PStr ''failing'', PStr ''RuntimeError'']),
     UserEv (of_exact (3 / 10)) (PTuple [PStr ''failing'', PStr ''LookupError''])])"
  by (simp add: two_nodes_fail_def golden_eval cong: let_weak_cong split del: if_split del: eval_off)

lemma golden_raises:
  "corpus_run streams (node_raises_after 1) sd = Some (''ValueError'', [])"
  "corpus_run streams (node_raises_after 2) sd = Some (''ValueError'', [])"
  "corpus_run streams (node_raises_after 3) sd = Some (''ok'', [])"
  "corpus_run streams (node_raises_after 4) sd = Some (''ok'', [])"
  "corpus_run streams (node_raises_after 5) sd = Some (''ok'', [])"
  by (simp_all add: node_raises_after_def golden_eval cong: let_weak_cong split del: if_split del: eval_off)

lemma golden_shield:
  "corpus_run streams shield_at_end sd = Some (''ok'', [instant (PStr ''inner-done'')])"
  by (simp add: shield_at_end_def shield_def golden_eval cong: let_weak_cong split del: if_split del: eval_off)

lemma golden_group:
  "corpus_run streams taskgroup_one_child_timeout sd = Some (''ok'',
    [UserEv (Fin 1) (PStr ''worker-cancelled''), UserEv (Fin 1) (PStr ''timed-out'')])"
  by (simp add: taskgroup_one_child_timeout_def group_of_one_def group_worker_def golden_eval
      cong: let_weak_cong split del: if_split del: eval_off)

section \<open>A violation that every seed reaches\<close>

lemma bumper_numeral_code:
  "bumper (Suc n) = call ORandom (\<lambda>r. case r of
     RReal x \<Rightarrow> call (OSleep (uniform_value (Fin tenth) (Fin 1) x)) (\<lambda>_. Heap (\<lambda>x. x + 1)
       (\<lambda>x. record_now (\<lambda>t. PTuple [PStr ''bumped'', PInt (x + 1), PFloat t]) (bumper n)))
   | _ \<Rightarrow> Return)"
  by (simp add: of_exact_fractions)

lemma later_sum:
  assumes t: "0 < t" "t \<le> 10" and u: "tenth \<le> u" "u \<le> 1"
  obtains s where "of_exact (t + u) = Fin s" "of_exact s = Fin s" "t < s" "s \<le> rnd (t + 1)"
proof -
  have "0 \<le> u" "1 / 1024 \<le> u" using u(1) by (simp_all add: fractions)
  then show thesis
    using t u(2) rnd_later [of t u] rnd_mono [of "t + u" "t + 1"]
    by (intro that [of "rnd (t + u)"]) (simp_all add: of_exact_small of_exact_rnd)
qed

lemma py_max_later: "a \<le> b \<Longrightarrow> py_max (Fin a) (Fin b) = Fin b"
  by (simp add: py_max_def)

lemma draw_tenth:
  obtains x r' u where "py_random r = (x, r')" "uniform_value (Fin tenth) (Fin 1) x = Fin u" "of_exact u = Fin u"
    "tenth \<le> u" "u \<le> 1"
  using unit_fractions draw_between [OF of_exact_fractions(1) _ refl refl, of 1 1 r]
  by (auto simp: of_exact_small rnd_one)

text \<open>C11: \<open>invariant_fails\<close> (the corpus scenario whose invariant is \<open>x < 3\<close> and whose only node bumps
  \<open>x\<close> in a loop without end, after a random delay each time) ends in \<open>InvariantError\<close> for every seed and
  every entropy, however many bumps the loop still has to make: exactly three bumps are recorded, each at
  the clock it happened at, at strictly increasing times within the first three virtual seconds, and
  nothing is recorded after the violation, teardown included.
\<close>

theorem violation_found:
  "\<exists>t1 t2 t3. 0 < t1 \<and> t1 < t2 \<and> t2 < t3 \<and> t3 \<le> 3 \<and>
   corpus_run streams (invariant_fails (passes + 4)) sd = Some (''InvariantError'',
    [UserEv (Fin t1) (PTuple [PStr ''bumped'', PInt 1, PFloat (Fin t1)]),
     UserEv (Fin t2) (PTuple [PStr ''bumped'', PInt 2, PFloat (Fin t2)]),
     UserEv (Fin t3) (PTuple [PStr ''bumped'', PInt 3, PFloat (Fin t3)])])"
proof -
  obtain x1 r1 u1 where 1: "py_random (streams sd ''user'') = (x1, r1)" "uniform_value (Fin tenth) (Fin 1) x1 = Fin u1"
    "of_exact u1 = Fin u1" "tenth \<le> u1" "u1 \<le> 1" by (rule draw_tenth)
  obtain x2 r2 u2 where 2: "py_random r1 = (x2, r2)" "uniform_value (Fin tenth) (Fin 1) x2 = Fin u2"
    "of_exact u2 = Fin u2" "tenth \<le> u2" "u2 \<le> 1" by (rule draw_tenth)
  obtain x3 r3 u3 where 3: "py_random r2 = (x3, r3)" "uniform_value (Fin tenth) (Fin 1) x3 = Fin u3"
    "of_exact u3 = Fin u3" "tenth \<le> u3" "u3 \<le> 1" by (rule draw_tenth)
  obtain x4 r4 u4 where 4: "py_random r3 = (x4, r4)" "uniform_value (Fin tenth) (Fin 1) x4 = Fin u4"
    "of_exact u4 = Fin u4" "tenth \<le> u4" "u4 \<le> 1" by (rule draw_tenth)
  have r: "rnd (u1 + 1) \<le> 2" using rnd_mono [of "u1 + 1" 2] 1 by (simp add: rnd_numeral)
  obtain t2 where t2: "of_exact (u1 + u2) = Fin t2" "of_exact t2 = Fin t2" "u1 < t2" "t2 \<le> 2"
    using later_sum [of u1 u2] 1 2 r unit_fractions(3) by (smt (verit))
  have r: "rnd (t2 + 1) \<le> 3" using rnd_mono [of "t2 + 1" 3] t2 by (simp add: rnd_numeral)
  obtain t3 where t3: "of_exact (t2 + u3) = Fin t3" "of_exact t3 = Fin t3" "t2 < t3" "t3 \<le> 3"
    using later_sum [of t2 u3] 1 t2 3 r unit_fractions(3) by (smt (verit))
  have r: "rnd (t3 + 1) \<le> 4" using rnd_mono [of "t3 + 1" 4] t3 by (simp add: rnd_numeral)
  obtain t4 where t4: "of_exact (t3 + u4) = Fin t4" "of_exact t4 = Fin t4" "t3 < t4" "t4 \<le> 4"
    using later_sum [of t3 u4] 1 t2 t3 4 r unit_fractions(3) by (smt (verit))
  have o: "u1 < 10" "t2 < 10" "t3 < 10" "t4 < 10" "0 < t2" "0 < t3" "0 < t4"  "u1 \<le> 10" "t2 \<le> 10" "t3 \<le> 10" "t4 \<le> 10"
     "\<not> 10 \<le> u1" "\<not> 10 \<le> t2" "\<not> 10 \<le> t3" "\<not> 10 \<le> t4" "\<not> 10 < u1" "\<not> 10 < t2" "\<not> 10 < t3" "\<not> 10 < t4" "0 \<le> u1" "0 < u1" "0 < u2" "0 < u3" "0 < u4" "\<not> t4 \<le> t3" "\<not> t3 \<le> t2" "\<not> t2 \<le> u1" 
     using 1 2 3 4 t2 t3 t4 unit_fractions(3) by simp_all
  have m: "py_max (Fin 0) (Fin u1) = Fin u1" "py_max (Fin u1) (Fin t2) = Fin t2" "py_max (Fin t2) (Fin t3) = Fin t3"
     using o t2 t3 t4 by (simp_all add: py_max_later)
  have e: "exec (bumper (Suc n)) = exec (call ORandom (\<lambda>r. case r of
     RReal x \<Rightarrow> call (OSleep (uniform_value (Fin tenth) (Fin 1) x)) (\<lambda>_. Heap (\<lambda>x. x + 1)
       (\<lambda>x. record_now (\<lambda>t. PTuple [PStr ''bumped'', PInt (x + 1), PFloat t]) (bumper n)))
   | _ \<Rightarrow> Return))" for n by (simp only: bumper_numeral_code)
  have p: "passes + 4 = Suc (Suc (Suc (Suc passes)))" by simp
  have "corpus_run streams (invariant_fails (Suc (Suc (Suc (Suc passes))))) sd = Some (''InvariantError'',
    [UserEv (Fin u1) (PTuple [PStr ''bumped'', PInt 1, PFloat (Fin u1)]),
     UserEv (Fin t2) (PTuple [PStr ''bumped'', PInt 2, PFloat (Fin t2)]),
     UserEv (Fin t3) (PTuple [PStr ''bumped'', PInt 3, PFloat (Fin t3)])])"
    by (simp add: golden_eval invariant_fails_def e eval_checks
        1 2 3 4 t2 t3 t4 o m cong: let_weak_cong split del: if_split del: eval_off bumper.simps py_max_def)
  with o t2 t3 show ?thesis unfolding p by blast
qed

section \<open>What the golden says\<close>


end
