(* ===== verification/Given_Seed.thy ===== *)
theory Given_Seed
  imports Run
begin

text \<open>
  The Hypothesis integration (\<open>src/seedloop/hypothesis.py\<close>). Hypothesis generates the examples and is not
  modelled; the wrapper runs the test on one example and annotates its failure with the line that
  reproduces it, as a sweep tags a failing seed.
\<close>

text \<open>The seeds the strategy may draw.\<close>

definition seeds :: "int \<Rightarrow> int option \<Rightarrow> int \<Rightarrow> bool" where
  "seeds min_value max_value n = (min_value \<le> n \<and> (case max_value of None \<Rightarrow> True | Some m \<Rightarrow> n \<le> m))"

definition annotated :: "(int \<Rightarrow> outcome) \<Rightarrow> int \<Rightarrow> outcome" where
  "annotated test sd = (case test sd of
     Raised e \<Rightarrow>
       if isinstance_exn e UsageErrorC then Raised e
       else if is_exception e then Raised (add_note (ReplayHint sd) e)
       else Raised e
   | r \<Rightarrow> r)"

text \<open>The wrapper changes no verdict: it passes when the test passes, and the error it raises has the kind of
  the test's error, so everything that looks at the class of the error sees what the test raised.\<close>

lemma annotated_verdict:
  "annotated test sd = Done \<longleftrightarrow> test sd = Done"
  "annotated test sd = Raised e \<Longrightarrow> \<exists>e0. test sd = Raised e0 \<and> isinstance_exn e c = isinstance_exn e0 c"
  by (auto simp: annotated_def add_note_def isinstance_exn_def split: outcome.splits if_splits)

end
