(* ===== verification/Seeds.thy ===== *)
theory Seeds
  imports Entropy Errors PyText
begin

text \<open>
  Where a run's entropy comes from (\<open>src/seedloop/_entropy.py\<close>): the named sub-streams of a root seed,
  the seeded replacement of \<open>os.urandom\<close>, and the launcher that pins \<open>PYTHONHASHSEED\<close>. BLAKE2b
  (text and digest size to digest bytes) and the generator \<open>random.Random(n)\<close> seeds are parameters.
\<close>

section \<open>Sub-streams\<close>

definition label_text :: "int \<Rightarrow> string \<Rightarrow> string" where
  "label_text root_seed label = str_int root_seed @ '':'' @ label"

definition substream ::
    "(string \<Rightarrow> nat \<Rightarrow> nat list) \<Rightarrow> (nat \<Rightarrow> rng) \<Rightarrow> int \<Rightarrow> string \<Rightarrow> rng" where
  "substream blake2b random_from root_seed label = random_from (from_bytes (blake2b (label_text root_seed label) 32))"

definition hash_seed_for :: "(string \<Rightarrow> nat \<Rightarrow> nat list) \<Rightarrow> int \<Rightarrow> nat" where
  "hash_seed_for blake2b root_seed = from_bytes (blake2b (label_text root_seed ''hashseed'') 4)"

lemma colon_not_in_int: "CHR '':'' \<notin> set (str_int i)"
proof -
  have "\<not> is_digit (CHR '':'')" by (simp add: is_digit_def)
  then show ?thesis using digits_str_nat by (auto simp: str_int_def)
qed

lemma takeWhile_label: "takeWhile (\<lambda>c. c \<noteq> CHR '':'') (label_text root_seed label) = str_int root_seed"
proof -
  have "\<And>c. c \<in> set (str_int root_seed) \<Longrightarrow> c \<noteq> CHR '':''" using colon_not_in_int by metis
  then show ?thesis by (simp add: label_text_def takeWhile_append2)
qed

text \<open>C35: The text a sub-stream is derived from tells the root seed and the label apart: two streams are
  derived from the same text only if they are the same stream of the same seed, for every integer
  seed, negative ones and ones wider than 64 bits included, and whatever the label contains.\<close>

theorem streams_separate: "label_text r l = label_text r' l' \<longleftrightarrow> r = r' \<and> l = l'"
proof
  assume eq: "label_text r l = label_text r' l'"
  then have "str_int r = str_int r'" by (metis takeWhile_label)
  then have "r = r'" by (rule str_int_inj)
  with eq show "r = r' \<and> l = l'" by (simp add: label_text_def)
qed simp

section \<open>Seeded \<open>os.urandom\<close>\<close>

definition seeded_urandom :: "int \<Rightarrow> rng \<Rightarrow> (exn_kind + nat list) \<times> rng" where
  "seeded_urandom n r =
     (if n = 0 then (Inr [], r)
      else if n < 0 then (Inl (PyError ''ValueError''), r)
      else let (v, r') = getrandbits (nat n * 8) r in (Inr (to_bytes (nat n) v), r'))"

text \<open>The seeded \<open>os.urandom(n)\<close> returns exactly \<open>n\<close> bytes, which are the bits the stream draws (so
  nothing of the draw is lost and nothing else goes in), and moves only the position of its own
  stream, by the words those bits take.\<close>

lemma urandom_bytes:
  assumes "seeded_urandom n r = (Inr bs, r')"
  shows "int (length bs) = n \<and> list_all (\<lambda>b. b < 256) bs \<and> from_bytes bs = fst (getrandbits (8 * length bs) r) \<and>
    r' = advance ((8 * length bs + 31) div 32) r"
proof (cases "n = 0")
  case True
  then show ?thesis
    using assms by (auto simp: seeded_urandom_def from_bytes_def getrandbits.simps [of 0])
next
  case False
  with assms obtain v where n: "0 < n" and g: "getrandbits (nat n * 8) r = (v, r')"
    and bs: "bs = to_bytes (nat n) v"
    by (auto simp: seeded_urandom_def split: if_splits prod.splits)
  have len: "length bs = nat n" by (simp add: bs)
  have "v < 2 ^ (nat n * 8)" using getrandbits_bound [of "nat n * 8" r] g by simp
  also have "(2 :: nat) ^ (nat n * 8) = (2 ^ 8) ^ nat n" by (metis mult.commute power_mult)
  also have "\<dots> = 256 ^ nat n" by simp
  finally have "from_bytes bs = v" by (simp add: bs from_to_bytes)
  moreover have "list_all (\<lambda>b. b < 256) bs" by (auto simp: bs list_all_iff dest: to_bytes_range)
  moreover have "rng_tape r' = rng_tape r" "rng_pos r' = rng_pos r + (nat n * 8 + 31) div 32"
    using rng_getrandbits [of "nat n * 8" r] g by simp_all
  then have "r' = advance ((8 * length bs + 31) div 32) r"
    by (simp add: len advance_def mult.commute)
  ultimately show ?thesis using n g len by (simp add: mult.commute)
qed

lemma urandom_bytes_witness:
  "seeded_urandom 1 \<lparr>rng_tape = (\<lambda>_. 0x12345678), rng_pos = 0\<rparr> =
    (Inr [0x12], \<lparr>rng_tape = (\<lambda>_. 0x12345678), rng_pos = 1\<rparr>) \<and>
   from_bytes [0x12] = fst (getrandbits 8 \<lparr>rng_tape = (\<lambda>_. 0x12345678), rng_pos = 0\<rparr>)"
proof -
  have "seeded_urandom 1 \<lparr>rng_tape = (\<lambda>_. 0x12345678), rng_pos = 0\<rparr> =
    (Inr [0x12], \<lparr>rng_tape = (\<lambda>_. 0x12345678), rng_pos = 1\<rparr>)"
    by (simp add: seeded_urandom_def getrandbits.simps [of 8] genrand_def unat_shift)
  from this urandom_bytes [OF this] show ?thesis by simp
qed

section \<open>The hash seed\<close>

type_synonym env = "string \<Rightarrow> string option"

datatype launch = Proceed | Execve string "string list" env | SpawnAndExit "string list" env

definition REEXEC_GUARD :: string where
  "REEXEC_GUARD = ''_SEEDLOOP_HASHSEED_REEXEC''"

definition ensure_hash_seed ::
    "(string \<Rightarrow> nat \<Rightarrow> nat list) \<Rightarrow> bool \<Rightarrow> string \<Rightarrow> string list \<Rightarrow> env \<Rightarrow> int \<Rightarrow> launch" where
  "ensure_hash_seed blake2b posix executable orig_argv environ root_seed =
     (let target = str_nat (hash_seed_for blake2b root_seed) in
      if environ REEXEC_GUARD = Some target \<or> environ ''PYTHONHASHSEED'' = Some target then Proceed
      else
        let child_env = environ(''PYTHONHASHSEED'' \<mapsto> target, REEXEC_GUARD \<mapsto> target);
            argv = executable # tl orig_argv
        in if posix then Execve executable argv child_env else SpawnAndExit argv child_env)"

text \<open>The environment of the child a launch starts.\<close>

fun child_env :: "launch \<Rightarrow> env option" where
  "child_env Proceed = None"
| "child_env (Execve exe argv env) = Some env"
| "child_env (SpawnAndExit argv env) = Some env"

text \<open>What BLAKE2b promises: a digest of the requested size.\<close>

definition digest_size_ok :: "(string \<Rightarrow> nat \<Rightarrow> nat list) \<Rightarrow> bool" where
  "digest_size_ok blake2b = (\<forall>t n. length (blake2b t n) = n \<and> list_all (\<lambda>b. b < 256) (blake2b t n))"

lemma hash_seed_range: "digest_size_ok blake2b \<Longrightarrow> hash_seed_for blake2b root_seed < 2 ^ 32"
  using from_bytes_less [of "blake2b (label_text root_seed ''hashseed'') 4"]
  by (simp add: digest_size_ok_def hash_seed_for_def)

text \<open>The launcher re-runs the interpreter at most once, on every platform: the child it starts finds
  itself pinned and proceeds, with \<open>PYTHONHASHSEED\<close> set to the seed's own value, a number the
  interpreter accepts, and every other variable as it was.\<close>

lemma launch_once:
  assumes "child_env (ensure_hash_seed blake2b posix executable argv environ root_seed) = Some env"
    and "digest_size_ok blake2b"
  shows "ensure_hash_seed blake2b posix' executable' argv' env root_seed = Proceed \<and>
    (\<exists>n. env ''PYTHONHASHSEED'' = Some (str_nat n) \<and> n = hash_seed_for blake2b root_seed \<and> n \<le> 4294967295) \<and>
    (\<forall>x. x \<noteq> ''PYTHONHASHSEED'' \<longrightarrow> x \<noteq> REEXEC_GUARD \<longrightarrow> env x = environ x)"
proof -
  let ?t = "str_nat (hash_seed_for blake2b root_seed)"
  have "env = environ(''PYTHONHASHSEED'' \<mapsto> ?t, REEXEC_GUARD \<mapsto> ?t)"
    using assms(1) by (auto simp: ensure_hash_seed_def Let_def split: if_splits)
  moreover have "REEXEC_GUARD \<noteq> ''PYTHONHASHSEED''" by (simp add: REEXEC_GUARD_def)
  ultimately show ?thesis
    using hash_seed_range [OF assms(2), of root_seed] by (simp add: ensure_hash_seed_def Let_def)
qed

text \<open>The guard is trusted on its own: a process that inherits it with another hash seed is not re-run.\<close>

lemma guard_is_trusted:
  assumes "environ REEXEC_GUARD = Some (str_nat (hash_seed_for blake2b root_seed))"
  shows "ensure_hash_seed blake2b posix executable argv environ root_seed = Proceed"
  using assms by (simp add: ensure_hash_seed_def)

end
