(* ===== verification/Patches.thy ===== *)
theory Patches
  imports Errors
begin

text \<open>
  Process-wide patches (\<open>csprng_shim\<close> of \<open>src/seedloop/_entropy.py\<close> and \<open>src/seedloop/_audit.py\<close>): the
  module attributes that are replaced while a run is active, what a call of a replaced function
  does, and how the originals come back. The process is a table of attributes; a function object
  is what it does together with its identity, so that \<open>is\<close> is equality. An interrupt may
  stop the installation before any of its steps.
\<close>

section \<open>Functions\<close>

datatype attr = Attr (attr_owner: string) (attr_name: string)

datatype pyfun =
    Builtin string
  | UserFun nat
  | ScopedUrandom nat pyfun nat
  | EntropyTripwire nat string pyfun nat
  | CurrentTimeTripwire nat string pyfun nat nat
  | ThreadTripwire nat pyfun nat

type_synonym attrs = "attr \<Rightarrow> pyfun option"

text \<open>What a call comes to: the function it ends in, seeded bytes, or an error.\<close>

datatype call_end = Ran string | RanUser nat | SeededBytes | CallRaised exn_kind

text \<open>A call on a thread with positional arguments; \<open>None\<close> is Python's \<open>None\<close>.\<close>

fun call_fun :: "nat \<Rightarrow> 'a option list \<Rightarrow> pyfun \<Rightarrow> call_end" where
  "call_fun thread args (Builtin name) = Ran name"
| "call_fun thread args (UserFun n) = RanUser n"
| "call_fun thread args (ScopedUrandom i original owner) =
     (if thread = owner then SeededBytes else call_fun thread args original)"
| "call_fun thread args (EntropyTripwire i source original owner) =
     (if thread \<noteq> owner then call_fun thread args original else CallRaised (EntropyLeakError source))"
| "call_fun thread args (CurrentTimeTripwire i source original ts_index owner) =
     (if thread = owner \<and> (length args \<le> ts_index \<or> args ! ts_index = None)
      then CallRaised (EntropyLeakError source)
      else call_fun thread args original)"
| "call_fun thread args (ThreadTripwire i original owner) =
     (if thread \<noteq> owner then call_fun thread args original
      else CallRaised (BoundaryError ''threading.Thread (a real thread)''))"

section \<open>Installing and restoring\<close>

datatype undo = Undo (undo_attr: attr) (undo_ours: pyfun) (undo_original: pyfun)

definition attribute_error :: exn where
  "attribute_error = exn (PyError ''AttributeError'')"

definition install :: "attr \<Rightarrow> pyfun \<Rightarrow> attrs \<Rightarrow> attrs" where
  "install a f t = t(a \<mapsto> f)"

text \<open>\<open>getattr\<close> raises when the attribute is gone.\<close>

fun restore_if_ours :: "undo \<Rightarrow> attrs \<Rightarrow> attrs \<times> outcome" where
  "restore_if_ours (Undo a ours original) t = (case t a of
     None \<Rightarrow> (t, Raised attribute_error)
   | Some f \<Rightarrow> (if f = ours then t(a \<mapsto> original) else t, Done))"

text \<open>Closing the stack runs every callback, the last registered first; an error replaces the one in flight.\<close>

fun close_stack :: "undo list \<Rightarrow> attrs \<Rightarrow> outcome \<Rightarrow> attrs \<times> outcome" where
  "close_stack [] t e = (t, e)"
| "close_stack (u # us) t e = (case restore_if_ours u t of
     (t', Done) \<Rightarrow> close_stack us t' e
   | (t', e') \<Rightarrow> close_stack us t' e')"

text \<open>The steps of an installation. \<open>Absent\<close> is a \<open>getattr\<close> of an attribute that is not there.\<close>

datatype patch_step = Register undo | Install attr pyfun | Absent

fun run_steps :: "nat \<Rightarrow> patch_step list \<Rightarrow> attrs \<Rightarrow> undo list \<Rightarrow> attrs \<times> undo list \<times> outcome" where
  "run_steps k [] t us = (t, us, Done)"
| "run_steps 0 (s # ss) t us = (t, us, Raised (exn (Interrupt 0)))"
| "run_steps (Suc k) (Register u # ss) t us = run_steps k ss t (u # us)"
| "run_steps (Suc k) (Install a f # ss) t us = run_steps k ss (install a f t) us"
| "run_steps (Suc k) (Absent # ss) t us = (t, us, Raised attribute_error)"

text \<open>
  The context manager: the steps, with an interrupt before step \<open>k\<close> (none when \<open>k\<close> is past the
  last), then the body, then the restores, whatever happened.
\<close>

definition with_patches ::
    "nat \<Rightarrow> patch_step list \<Rightarrow> (attrs \<Rightarrow> attrs \<times> outcome) \<Rightarrow> attrs \<Rightarrow> attrs \<times> outcome" where
  "with_patches k steps body t = (case run_steps k steps t [] of
     (t1, us, Done) \<Rightarrow> (case body t1 of
         (t2, Diverged) \<Rightarrow> (t2, Diverged)
       | (t2, e) \<Rightarrow> close_stack us t2 e)
   | (t1, us, e) \<Rightarrow> close_stack us t1 e)"

section \<open>The CSPRNG shim\<close>

definition os_urandom :: attr where "os_urandom = Attr ''os'' ''urandom''"
definition random_urandom :: attr where "random_urandom = Attr ''random'' ''_urandom''"

text \<open>Both originals are read first; object identities are numbered from \<open>n\<close>.\<close>

definition shim_steps :: "nat \<Rightarrow> nat \<Rightarrow> attrs \<Rightarrow> patch_step list" where
  "shim_steps owner n t = (case (t os_urandom, t random_urandom) of
     (Some orig_os, Some orig_random) \<Rightarrow>
       (let scoped_os = ScopedUrandom n orig_os owner;
            scoped_random = ScopedUrandom (Suc n) orig_random owner
        in [Register (Undo os_urandom scoped_os orig_os),
            Register (Undo random_urandom scoped_random orig_random),
            Install os_urandom scoped_os, Install random_urandom scoped_random])
   | _ \<Rightarrow> [Absent])"

definition csprng_shim ::
    "nat \<Rightarrow> nat \<Rightarrow> nat \<Rightarrow> (attrs \<Rightarrow> attrs \<times> outcome) \<Rightarrow> attrs \<Rightarrow> attrs \<times> outcome" where
  "csprng_shim owner n k body t = with_patches k (shim_steps owner n t) body t"

section \<open>Audit mode\<close>

definition REAL_TIME :: "string list" where
  "REAL_TIME = [''time'', ''time_ns'', ''monotonic'', ''monotonic_ns'', ''perf_counter'', ''perf_counter_ns'',
     ''process_time'', ''process_time_ns'', ''thread_time'', ''thread_time_ns'', ''clock_gettime'',
     ''clock_gettime_ns'']"

definition CURRENT_TIME_FUNCS :: "(string \<times> nat) list" where
  "CURRENT_TIME_FUNCS = [(''gmtime'', 0), (''localtime'', 0), (''ctime'', 0), (''asctime'', 0), (''strftime'', 1)]"

definition RANDOM_FUNCS :: "string list" where
  "RANDOM_FUNCS = [''random'', ''uniform'', ''triangular'', ''randint'', ''randrange'', ''choice'', ''choices'',
     ''shuffle'', ''sample'', ''getrandbits'', ''randbytes'', ''betavariate'', ''expovariate'', ''gammavariate'',
     ''gauss'', ''lognormvariate'', ''normalvariate'', ''vonmisesvariate'', ''paretovariate'', ''weibullvariate'',
     ''binomialvariate'']"

text \<open>The surfaces present when the module is imported, with the name a tripwire shows.\<close>

definition entropy_surfaces :: "attrs \<Rightarrow> (attr \<times> string) list" where
  "entropy_surfaces imported =
     map (\<lambda>n. (Attr ''time'' n, ''time.'' @ n)) (filter (\<lambda>n. imported (Attr ''time'' n) \<noteq> None) REAL_TIME) @
     [(os_urandom, ''os.urandom''), (random_urandom, ''secrets/os.urandom'')] @
     map (\<lambda>n. (Attr ''random'' n, ''random.'' @ n)) (filter (\<lambda>n. imported (Attr ''random'' n) \<noteq> None) RANDOM_FUNCS)"

text \<open>A pass of the installing loop: read, make the tripwire, register, install; \<open>make\<close> numbers the object.\<close>

fun patch_each :: "(attr \<times> (nat \<Rightarrow> pyfun \<Rightarrow> pyfun)) list \<Rightarrow> nat \<Rightarrow> attrs \<Rightarrow> patch_step list" where
  "patch_each [] n t = []"
| "patch_each ((a, make) # ps) n t = (case t a of
     None \<Rightarrow> [Absent]
   | Some original \<Rightarrow> Register (Undo a (make n original) original) # Install a (make n original) #
       patch_each ps (Suc n) (install a (make n original) t))"

definition entropy_patch :: "nat \<Rightarrow> attr \<times> string \<Rightarrow> attr \<times> (nat \<Rightarrow> pyfun \<Rightarrow> pyfun)" where
  "entropy_patch owner s = (fst s, \<lambda>n original. EntropyTripwire n (snd s) original owner)"

definition time_patch :: "nat \<Rightarrow> string \<times> nat \<Rightarrow> attr \<times> (nat \<Rightarrow> pyfun \<Rightarrow> pyfun)" where
  "time_patch owner f = (Attr ''time'' (fst f), \<lambda>n original.
     CurrentTimeTripwire n (''time.'' @ fst f) original (snd f) owner)"

definition thread_start :: attr where "thread_start = Attr ''threading.Thread'' ''start''"

text \<open>
  Everything audit mode patches, in order. A calendar function that is absent is skipped; the table
  \<open>hasattr\<close> sees is the one at the start, since no earlier patch adds or removes a name.
\<close>

definition audit_patches :: "nat \<Rightarrow> attrs \<Rightarrow> attrs \<Rightarrow> (attr \<times> (nat \<Rightarrow> pyfun \<Rightarrow> pyfun)) list" where
  "audit_patches owner imported t =
     map (entropy_patch owner) (entropy_surfaces imported) @
     map (time_patch owner) (filter (\<lambda>f. t (Attr ''time'' (fst f)) \<noteq> None) CURRENT_TIME_FUNCS) @
     [(thread_start, \<lambda>n original. ThreadTripwire n original owner)]"

definition audit_mode ::
    "nat \<Rightarrow> attrs \<Rightarrow> nat \<Rightarrow> nat \<Rightarrow> (attrs \<Rightarrow> attrs \<times> outcome) \<Rightarrow> attrs \<Rightarrow> attrs \<times> outcome" where
  "audit_mode owner imported n k body t =
     with_patches k (patch_each (audit_patches owner imported t) n t) body t"

section \<open>Undoing\<close>

text \<open>Closing a stack of distinct attributes puts back every original that is still replaced by ours.\<close>

lemma restore_if_ours_table:
  "fst (restore_if_ours u t) =
    t(undo_attr u := if t (undo_attr u) = Some (undo_ours u) then Some (undo_original u) else t (undo_attr u))"
  by (cases u) (auto split: option.splits)

lemma close_stack_Cons: "\<exists>e'. close_stack (u # us) t e = close_stack us (fst (restore_if_ours u t)) e'"
  by (cases "restore_if_ours u t"; cases "snd (restore_if_ours u t)") auto

lemma close_stack_other: "a \<notin> undo_attr ` set us \<Longrightarrow> fst (close_stack us t e) a = t a"
proof (induction us arbitrary: t e)
  case (Cons u us)
  obtain e' where "close_stack (u # us) t e = close_stack us (fst (restore_if_ours u t)) e'"
    using close_stack_Cons by blast
  with Cons show ?case by (simp add: restore_if_ours_table)
qed simp

lemma close_stack_mine:
  assumes "distinct (map undo_attr us)" and "u \<in> set us"
  shows "fst (close_stack us t e) (undo_attr u) =
    (if t (undo_attr u) = Some (undo_ours u) then Some (undo_original u) else t (undo_attr u))"
  using assms
proof (induction us arbitrary: t e)
  case (Cons v us)
  obtain e' where step: "close_stack (v # us) t e = close_stack us (fst (restore_if_ours v t)) e'"
    using close_stack_Cons by blast
  show ?case
  proof (cases "u = v")
    case True
    with Cons.prems have "undo_attr u \<notin> undo_attr ` set us" by simp
    then show ?thesis
      unfolding step using True by (simp add: close_stack_other restore_if_ours_table)
  next
    case False
    with Cons.prems have "u \<in> set us" "undo_attr u \<noteq> undo_attr v" by (auto simp: image_iff)
    with Cons show ?thesis unfolding step by (simp add: restore_if_ours_table)
  qed
qed simp

text \<open>A stack describes how the current table differs from the one at the start.\<close>

definition stack_ok :: "attrs \<Rightarrow> attrs \<Rightarrow> undo list \<Rightarrow> bool" where
  "stack_ok t0 t us \<longleftrightarrow> distinct (map undo_attr us) \<and>
     (\<forall>u\<in>set us. t0 (undo_attr u) = Some (undo_original u) \<and>
       t (undo_attr u) \<in> {Some (undo_ours u), Some (undo_original u)}) \<and>
     (\<forall>a. a \<notin> undo_attr ` set us \<longrightarrow> t a = t0 a)"

lemma close_stack_restores:
  assumes ok: "stack_ok t0 t us"
  shows "fst (close_stack us t e) = t0"
proof
  fix a
  show "fst (close_stack us t e) a = t0 a"
  proof (cases "a \<in> undo_attr ` set us")
    case True
    then obtain u where "u \<in> set us" "a = undo_attr u" by blast
    with ok close_stack_mine [of us u t e] show ?thesis by (auto simp: stack_ok_def)
  qed (use ok in \<open>simp add: close_stack_other stack_ok_def\<close>)
qed

lemma close_stack_net:
  assumes ok: "stack_ok t0 t1 us" and inst: "\<forall>u\<in>set us. t1 (undo_attr u) = Some (undo_ours u)"
  shows "fst (close_stack us t2 e) = (\<lambda>a. if t2 a = t1 a then t0 a else t2 a)"
proof
  fix a
  show "fst (close_stack us t2 e) a = (if t2 a = t1 a then t0 a else t2 a)"
  proof (cases "a \<in> undo_attr ` set us")
    case True
    then obtain u where "u \<in> set us" "a = undo_attr u" by blast
    with ok inst close_stack_mine [of us u t2 e] show ?thesis by (auto simp: stack_ok_def)
  qed (use ok in \<open>simp add: close_stack_other stack_ok_def\<close>)
qed

section \<open>Installing\<close>

text \<open>Installing over distinct attributes keeps the stack's account, wherever it is interrupted.\<close>

lemma run_patch_each:
  assumes "run_steps k (patch_each ps n t) t us = (t1, us1, e)" and "stack_ok t0 t us"
    and "\<forall>u\<in>set us. t (undo_attr u) = Some (undo_ours u)"
    and "distinct (map fst ps)" and "undo_attr ` set us \<inter> fst ` set ps = {}"
  shows "stack_ok t0 t1 us1 \<and> (e = Done \<longrightarrow> (\<forall>u\<in>set us1. t1 (undo_attr u) = Some (undo_ours u)))"
  using assms
proof (induction ps arbitrary: k n t us)
  case (Cons p ps)
  obtain a make where p: "p = (a, make)" by fastforce
  show ?case
  proof (cases "t a")
    case None
    with Cons.prems p show ?thesis by (cases k) auto
  next
    case (Some original)
    let ?u = "Undo a (make n original) original"
    have a: "a \<notin> undo_attr ` set us" using Cons.prems(5) p by auto
    have t0: "t0 a = Some original" using Cons.prems(2) a Some by (simp add: stack_ok_def)
    have reg: "stack_ok t0 t (?u # us)" using Cons.prems(2) a t0 Some by (auto simp: stack_ok_def)
    consider "k = 0" | "k = Suc 0" | m where "k = Suc (Suc m)" by (cases k; cases "k - 1") auto
    then show ?thesis
    proof cases
      case 3
      let ?t = "install a (make n original) t"
      have run: "run_steps m (patch_each ps (Suc n) ?t) ?t (?u # us) = (t1, us1, e)"
        using Cons.prems(1) p Some 3 by simp
      have ok: "stack_ok t0 ?t (?u # us)" using reg a by (auto simp: stack_ok_def install_def)
      have inst: "\<forall>u\<in>set (?u # us). ?t (undo_attr u) = Some (undo_ours u)"
        using Cons.prems(3) a by (auto simp: install_def)
      show ?thesis using Cons.prems(4,5) p by (intro Cons.IH [OF run ok inst]) auto
    qed (use Cons.prems p Some reg in auto)
  qed
qed simp

lemma run_patch_each_installed:
  assumes "run_steps k (patch_each ps n t) t us = (t1, us1, Done)" and "distinct (map fst ps)"
  shows "\<forall>p\<in>set ps. \<exists>m original. t (fst p) = Some original \<and> t1 (fst p) = Some (snd p m original)"
    and "\<forall>a. a \<notin> fst ` set ps \<longrightarrow> t1 a = t a"
proof -
  have "(\<forall>p\<in>set ps. \<exists>m original. t (fst p) = Some original \<and> t1 (fst p) = Some (snd p m original)) \<and>
    (\<forall>a. a \<notin> fst ` set ps \<longrightarrow> t1 a = t a)"
    using assms
  proof (induction ps arbitrary: k n t us)
    case Nil
    then show ?case by (cases k) auto
  next
    case (Cons p ps)
    obtain a make where p: "p = (a, make)" by fastforce
    obtain original m where "t a = Some original" and "k = Suc (Suc m)"
      using Cons.prems(1) p by (cases k; cases "k - 1") (auto split: option.splits)
    then have "run_steps m (patch_each ps (Suc n) (install a (make n original) t)) (install a (make n original) t)
        (Undo a (make n original) original # us) = (t1, us1, Done)"
      using Cons.prems(1) p by simp
    from Cons.IH [OF this] Cons.prems(2) p
    have ih: "\<forall>q\<in>set ps. \<exists>m orig. install a (make n original) t (fst q) = Some orig \<and> t1 (fst q) = Some (snd q m orig)"
      and rest: "\<forall>b. b \<notin> fst ` set ps \<longrightarrow> t1 b = install a (make n original) t b" by simp_all
    have a: "a \<notin> fst ` set ps" using Cons.prems(2) p by simp
    then have "t1 a = Some (make n original)" using rest by (simp add: install_def)
    moreover have "install a (make n original) t (fst q) = t (fst q)" if "q \<in> set ps" for q
      using a that by (auto simp: install_def)
    ultimately show ?case using ih rest p \<open>t a = Some original\<close> by (auto simp: install_def)
  qed
  then show "\<forall>p\<in>set ps. \<exists>m original. t (fst p) = Some original \<and> t1 (fst p) = Some (snd p m original)"
    "\<forall>a. a \<notin> fst ` set ps \<longrightarrow> t1 a = t a" by auto
qed

lemma run_shim_steps:
  assumes "run_steps k (shim_steps owner n t) t [] = (t1, us1, e)"
  shows "stack_ok t t1 us1 \<and> (e = Done \<longrightarrow> (\<forall>u\<in>set us1. t1 (undo_attr u) = Some (undo_ours u)))"
proof (cases "t os_urandom = None \<or> t random_urandom = None")
  case True
  then have "shim_steps owner n t = [Absent]" by (auto simp: shim_steps_def split: option.splits)
  with assms show ?thesis by (cases k) (auto simp: stack_ok_def)
next
  case False
  then obtain f g where fg: "t os_urandom = Some f" "t random_urandom = Some g" by auto
  have ne: "os_urandom \<noteq> random_urandom" by (simp add: os_urandom_def random_urandom_def)
  consider "k = 0" | "k = 1" | "k = 2" | "k = 3" | m where "k = Suc (Suc (Suc (Suc m)))"
    by (metis One_nat_def Suc_1 not0_implies_Suc numeral_3_eq_3)
  then show ?thesis
    using assms fg ne
    by cases (auto simp: shim_steps_def Let_def stack_ok_def install_def numeral_2_eq_2 numeral_3_eq_3)
qed

section \<open>What audit mode patches\<close>

lemma distinct_surfaces: "distinct (map fst (entropy_surfaces imported))"
proof -
  have "distinct REAL_TIME" "distinct RANDOM_FUNCS" "''_urandom'' \<notin> set RANDOM_FUNCS"
    by (simp_all add: REAL_TIME_def RANDOM_FUNCS_def)
  then show ?thesis
    by (auto simp: entropy_surfaces_def os_urandom_def random_urandom_def distinct_map inj_on_def o_def)
qed

lemma surface_attrs:
  "fst ` set (entropy_surfaces imported) \<subseteq>
    Attr ''time'' ` set REAL_TIME \<union> Attr ''random'' ` set RANDOM_FUNCS \<union> {os_urandom, random_urandom}"
  by (auto simp: entropy_surfaces_def)

lemma distinct_audit_patches: "distinct (map fst (audit_patches owner imported t))"
proof -
  have fsts: "fst \<circ> entropy_patch owner = fst" "fst \<circ> time_patch owner = (\<lambda>f. Attr ''time'' (fst f))"
    by (auto simp: entropy_patch_def time_patch_def)
  let ?times = "map (\<lambda>f. Attr ''time'' (fst f)) (filter (\<lambda>f. t (Attr ''time'' (fst f)) \<noteq> None) CURRENT_TIME_FUNCS)"
  have "distinct (map fst CURRENT_TIME_FUNCS)" by (simp add: CURRENT_TIME_FUNCS_def)
  then have 1: "distinct ?times" by (auto simp: distinct_map inj_on_def)
  have disj: "set REAL_TIME \<inter> fst ` set CURRENT_TIME_FUNCS = {}"
    by (simp add: REAL_TIME_def CURRENT_TIME_FUNCS_def)
  have times: "set ?times \<subseteq> Attr ''time'' ` fst ` set CURRENT_TIME_FUNCS" by auto
  have 2: "fst ` set (entropy_surfaces imported) \<inter> set ?times = {}"
  proof (intro equalityI subsetI)
    fix a assume "a \<in> fst ` set (entropy_surfaces imported) \<inter> set ?times"
    with times obtain n where n: "a = Attr ''time'' n" "n \<in> fst ` set CURRENT_TIME_FUNCS"
      and "a \<in> fst ` set (entropy_surfaces imported)" by blast
    with surface_attrs [of imported] have "n \<in> set REAL_TIME"
      by (auto simp: os_urandom_def random_urandom_def)
    with n disj show "a \<in> {}" by blast
  qed simp
  have 3: "thread_start \<notin> fst ` set (entropy_surfaces imported)" "thread_start \<notin> set ?times"
    using surface_attrs [of imported] by (auto simp: thread_start_def os_urandom_def random_urandom_def)
  show ?thesis
    using distinct_surfaces [of imported] 1 2 3 by (simp add: audit_patches_def fsts)
qed

section \<open>What the patches guarantee\<close>

text \<open>C21: The patches of a run are always undone: whether the installation is interrupted before any of its
  steps, fails because an attribute is missing, or the body returns, raises, or is interrupted, every
  attribute is afterwards what it was before, except one the body itself replaced (or removed),
  which keeps the body's value. This holds for the CSPRNG shim and for audit mode, and an error of
  the body or of the installation is not swallowed.\<close>

theorem patches_undone:
  assumes steps: "steps \<in> {shim_steps owner n t, patch_each (audit_patches owner imported t) n t}"
    and inst: "run_steps k steps t [] = (t1, us, e)" and body: "body t1 = (t2, b)" and "b \<noteq> Diverged"
  shows "fst (with_patches k steps body t) =
      (if e = Done then (\<lambda>a. if t2 a = t1 a then t a else t2 a) else t) \<and>
    (snd (with_patches k steps body t) = Done \<longrightarrow> e = Done \<and> b = Done)"
proof
  have nil: "stack_ok t t []" by (simp add: stack_ok_def)
  have ok: "stack_ok t t1 us \<and> (e = Done \<longrightarrow> (\<forall>u\<in>set us. t1 (undo_attr u) = Some (undo_ours u)))"
  proof (cases "steps = shim_steps owner n t")
    case True
    with inst show ?thesis using run_shim_steps by metis
  next
    case False
    with steps inst run_patch_each [OF _ nil _ distinct_audit_patches] show ?thesis by simp
  qed
  then show "fst (with_patches k steps body t) =
      (if e = Done then (\<lambda>a. if t2 a = t1 a then t a else t2 a) else t)"
    using inst body \<open>b \<noteq> Diverged\<close> close_stack_restores close_stack_net
    by (cases e; cases b) (simp_all add: with_patches_def)
  have raised: "x \<noteq> Done \<Longrightarrow> snd (close_stack vs s x) \<noteq> Done" for vs s x
    by (induction vs arbitrary: s x) (auto split: prod.splits outcome.splits)
  show "snd (with_patches k steps body t) = Done \<longrightarrow> e = Done \<and> b = Done"
    using inst body \<open>b \<noteq> Diverged\<close> raised
    by (cases e; cases b) (auto simp: with_patches_def)
qed

text \<open>A run in audit mode whose body replaces \<open>time.time\<close> by a function of its own.\<close>

definition demo_attrs :: attrs where
  "demo_attrs = [os_urandom \<mapsto> Builtin ''os.urandom'', random_urandom \<mapsto> Builtin ''os.urandom'',
     Attr ''time'' ''time'' \<mapsto> Builtin ''time.time'', Attr ''time'' ''ctime'' \<mapsto> Builtin ''time.ctime'',
     thread_start \<mapsto> Builtin ''Thread.start'']"

definition demo_body :: "attrs \<Rightarrow> attrs \<times> outcome" where
  "demo_body t = (t(Attr ''time'' ''time'' \<mapsto> UserFun 7), Raised (exn (UserError 1)))"

lemma demo_surfaces: "audit_patches 1 demo_attrs demo_attrs =
    [entropy_patch 1 (Attr ''time'' ''time'', ''time.time''), entropy_patch 1 (os_urandom, ''os.urandom''),
     entropy_patch 1 (random_urandom, ''secrets/os.urandom''), time_patch 1 (''ctime'', 0),
     (thread_start, \<lambda>n original. ThreadTripwire n original 1)]"
  by (simp add: audit_patches_def entropy_surfaces_def demo_attrs_def REAL_TIME_def RANDOM_FUNCS_def
      CURRENT_TIME_FUNCS_def os_urandom_def random_urandom_def thread_start_def)

lemma demo_installed: "\<exists>t1 us. run_steps 10 (patch_each (audit_patches 1 demo_attrs demo_attrs) 0 demo_attrs) demo_attrs [] = (t1, us, Done) \<and>
    t1 (Attr ''time'' ''time'') \<noteq> Some (UserFun 7)"
  unfolding demo_surfaces
  by (simp add: entropy_patch_def time_patch_def demo_attrs_def install_def os_urandom_def random_urandom_def
      thread_start_def numeral_eq_Suc)

theorem patches_undone_witness:
  "fst (audit_mode 1 demo_attrs 0 10 demo_body demo_attrs) =
    demo_attrs(Attr ''time'' ''time'' \<mapsto> UserFun 7)"
proof -
  let ?steps = "patch_each (audit_patches 1 demo_attrs demo_attrs) 0 demo_attrs"
  obtain t1 us where inst: "run_steps 10 ?steps demo_attrs [] = (t1, us, Done)"
    and mine: "t1 (Attr ''time'' ''time'') \<noteq> Some (UserFun 7)"
    using demo_installed by blast
  have "fst (with_patches 10 ?steps demo_body demo_attrs) =
    (\<lambda>a. if (t1(Attr ''time'' ''time'' \<mapsto> UserFun 7)) a = t1 a then demo_attrs a
      else (t1(Attr ''time'' ''time'' \<mapsto> UserFun 7)) a)"
    using patches_undone [where owner = 1 and n = 0 and imported = demo_attrs, OF _ inst,
        where body = demo_body and b = "Raised (exn (UserError 1))"]
    by (simp add: demo_body_def)
  also have "\<dots> = demo_attrs(Attr ''time'' ''time'' \<mapsto> UserFun 7)" using mine by (auto simp: fun_eq_iff)
  finally show ?thesis by (simp add: audit_mode_def)
qed



end
