(* ===== verification/Patch_Lock.thy ===== *)
theory Patch_Lock
  imports Patches
begin

text \<open>
  Patched runs on several threads (\<open>exclusive_patching\<close> of \<open>src/seedloop/_entropy.py\<close>, a re-entrant lock).
  Every thread enters \<open>csprng_shim\<close> or \<open>audit_mode\<close> any number of times, one after the other or one inside
  the other (a replay inside \<open>audit_mode()\<close>, say); the steps of the threads interleave in any way. Entering
  takes the lock and then reads the originals; leaving restores and then releases. An interrupt may
  end an installation at any point, and so does the end of the body. The body itself patches
  nothing but through further contexts. The relation is also defined without the lock, to show what
  the lock is for.
\<close>

section \<open>Threads\<close>

text \<open>The contexts a thread is in, the innermost first, each with the steps and restores it has left.\<close>

datatype layer = Installing "patch_step list" "undo list" | Restoring "undo list"

record process =
  table :: attrs
  owner :: "nat option"
  lock_depth :: nat
  layers :: "nat \<Rightarrow> layer list"
  next_obj :: nat

definition unpatched :: "attrs \<Rightarrow> process" where
  "unpatched t = \<lparr>table = t, owner = None, lock_depth = 0, layers = (\<lambda>_. []), next_obj = 0\<rparr>"

text \<open>What a context of thread \<open>i\<close> installs: audit mode or the shim.\<close>

definition thread_steps :: "attrs \<Rightarrow> bool \<Rightarrow> nat \<Rightarrow> nat \<Rightarrow> attrs \<Rightarrow> patch_step list" where
  "thread_steps imported audit i n t =
     (if audit then patch_each (audit_patches i imported t) n t else shim_steps i n t)"

definition set_layers :: "nat \<Rightarrow> layer list \<Rightarrow> process \<Rightarrow> process" where
  "set_layers i ls s = s\<lparr>layers := (layers s)(i := ls)\<rparr>"

text \<open>A thread runs code of its own (and may enter a context) outside all contexts or in the body of one.\<close>

fun in_body :: "layer list \<Rightarrow> bool" where
  "in_body [] = True"
| "in_body (Installing [] us # ls) = True"
| "in_body _ = False"

text \<open>The lock: its holder may take it again; it is free when it has been released as often as taken.\<close>

definition acquire_lock :: "nat \<Rightarrow> process \<Rightarrow> process" where
  "acquire_lock i s = s\<lparr>owner := Some i, lock_depth := Suc (lock_depth s)\<rparr>"

definition release_lock :: "process \<Rightarrow> process" where
  "release_lock s = s\<lparr>owner := if lock_depth s \<le> 1 then None else owner s, lock_depth := lock_depth s - 1\<rparr>"

inductive patch_next :: "bool \<Rightarrow> attrs \<Rightarrow> process \<Rightarrow> process \<Rightarrow> bool"
  for locked imported where
  acquire: "in_body (layers s i) \<Longrightarrow> locked \<longrightarrow> owner s \<in> {None, Some i} \<Longrightarrow>
    steps = thread_steps imported audit i (next_obj s) (table s) \<Longrightarrow>
    patch_next locked imported s
      (set_layers i (Installing steps [] # layers s i) (acquire_lock i (s\<lparr>next_obj := next_obj s + length steps\<rparr>)))"
| register: "layers s i = Installing (Register u # ss) us # ls \<Longrightarrow>
    patch_next locked imported s (set_layers i (Installing ss (u # us) # ls) s)"
| patch: "layers s i = Installing (Install a f # ss) us # ls \<Longrightarrow>
    patch_next locked imported s (set_layers i (Installing ss us # ls) (s\<lparr>table := install a f (table s)\<rparr>))"
| leave: "layers s i = Installing ss us # ls \<Longrightarrow>
    patch_next locked imported s (set_layers i (Restoring us # ls) s)"
| restore: "layers s i = Restoring (u # us) # ls \<Longrightarrow>
    patch_next locked imported s
      (set_layers i (Restoring us # ls) (s\<lparr>table := fst (restore_if_ours u (table s))\<rparr>))"
| release: "layers s i = Restoring [] # ls \<Longrightarrow>
    patch_next locked imported s (set_layers i ls (release_lock s))"

definition active :: "process \<Rightarrow> nat \<Rightarrow> bool" where
  "active s i = (layers s i \<noteq> [])"

section \<open>The invariant under the lock\<close>

text \<open>A wrapper on thread \<open>i\<close> leaves every other thread's calls alone.\<close>

definition wraps :: "nat \<Rightarrow> 'a option list \<Rightarrow> undo \<Rightarrow> bool" where
  "wraps i args u = (\<forall>j. j \<noteq> i \<longrightarrow> call_fun j args (undo_ours u) = call_fun j args (undo_original u))"

fun registered :: "patch_step list \<Rightarrow> undo list" where
  "registered [] = []"
| "registered (Register u # ss) = u # registered ss"
| "registered (_ # ss) = registered ss"

text \<open>A context keeps the account of what it changes since the table \<open>b\<close> it was entered with.\<close>

fun layer_ok :: "'a option list \<Rightarrow> nat \<Rightarrow> attrs \<Rightarrow> attrs \<Rightarrow> layer \<Rightarrow> bool" where
  "layer_ok args i b t (Installing ss us) =
     ((\<forall>k. let (t1, us1, e) = run_steps k ss t us in stack_ok b t1 us1) \<and>
      (\<forall>u\<in>set us \<union> set (registered ss). wraps i args u))"
| "layer_ok args i b t (Restoring us) = (stack_ok b t us \<and> (\<forall>u\<in>set us. wraps i args u))"

fun layers_ok :: "'a option list \<Rightarrow> nat \<Rightarrow> attrs \<Rightarrow> attrs \<Rightarrow> layer list \<Rightarrow> bool" where
  "layers_ok args i t0 t [] = (t = t0)"
| "layers_ok args i t0 t (l # ls) = (in_body ls \<and> (\<exists>b. layer_ok args i b t l \<and> layers_ok args i t0 b ls))"

definition process_ok :: "'a option list \<Rightarrow> attrs \<Rightarrow> process \<Rightarrow> bool" where
  "process_ok args t0 s = (case owner s of
     None \<Rightarrow> lock_depth s = 0 \<and> table s = t0 \<and> (\<forall>i. layers s i = [])
   | Some i \<Rightarrow> layers s i \<noteq> [] \<and> lock_depth s = length (layers s i) \<and>
       layers_ok args i t0 (table s) (layers s i) \<and> (\<forall>j. j \<noteq> i \<longrightarrow> layers s j = []))"

lemma registered_patch_each:
  "u \<in> set (registered (patch_each ps n t)) \<Longrightarrow>
    \<forall>p\<in>set ps. \<forall>m original j. j \<noteq> i \<longrightarrow> call_fun j args (snd p m original) = call_fun j args original \<Longrightarrow>
    wraps i args u"
proof (induction ps arbitrary: n t)
  case (Cons p ps)
  obtain a make where p: "p = (a, make)" by fastforce
  show ?case
  proof (cases "t a")
    case (Some original)
    with Cons.prems(1) p consider "u = Undo a (make n original) original"
      | "u \<in> set (registered (patch_each ps (Suc n) (install a (make n original) t)))" by auto
    then show ?thesis
    proof cases
      case 1
      then show ?thesis using Cons.prems(2) p by (auto simp: wraps_def)
    next
      case 2
      then show ?thesis using Cons.prems(2) by (intro Cons.IH) auto
    qed
  qed (use Cons.prems p in auto)
qed simp

lemma thread_steps_wrap: "u \<in> set (registered (thread_steps imported audit i n t)) \<Longrightarrow> wraps i args u"
proof (cases audit)
  case True
  moreover assume "u \<in> set (registered (thread_steps imported audit i n t))"
  ultimately show ?thesis
    by (intro registered_patch_each [of u "audit_patches i imported t" n t])
      (auto simp: thread_steps_def audit_patches_def entropy_patch_def time_patch_def)
next
  case False
  moreover assume "u \<in> set (registered (thread_steps imported audit i n t))"
  ultimately show ?thesis
    by (auto simp: thread_steps_def shim_steps_def wraps_def Let_def split: option.splits)
qed

lemma thread_steps_stack: "run_steps k (thread_steps imported audit i n t) t [] = (t1, us1, e) \<Longrightarrow> stack_ok t t1 us1"
proof (cases audit)
  case True
  moreover assume "run_steps k (thread_steps imported audit i n t) t [] = (t1, us1, e)"
  moreover have "stack_ok t t []" by (simp add: stack_ok_def)
  ultimately show ?thesis
    using run_patch_each [OF _ _ _ distinct_audit_patches, of k i imported t n t "[]" t1 us1 e t] by (simp add: thread_steps_def)
next
  case False
  moreover assume "run_steps k (thread_steps imported audit i n t) t [] = (t1, us1, e)"
  ultimately show ?thesis using run_shim_steps [of k i n t t1 us1 e] by (simp add: thread_steps_def)
qed

lemma stack_ok_restore: "stack_ok t0 t (u # us) \<Longrightarrow> stack_ok t0 (fst (restore_if_ours u t)) us"
  by (auto simp: stack_ok_def restore_if_ours_table image_iff)

text \<open>One lemma per step of the innermost context.\<close>

lemma layer_enter: "layer_ok args i t t (Installing (thread_steps imported audit i n t) [])"
  using thread_steps_stack [of _ imported audit i n t] thread_steps_wrap [of _ imported audit i n t args]
  by (auto split: prod.splits)

lemma layer_register:
  assumes ok: "layer_ok args i b t (Installing (Register u # ss) us)"
  shows "layer_ok args i b t (Installing ss (u # us))"
proof -
  have "let (t1, us1, e) = run_steps k ss t (u # us) in stack_ok b t1 us1" for k
    using ok by (auto dest!: spec [of _ "Suc k"])
  with ok show ?thesis by simp
qed

lemma layer_patch:
  assumes ok: "layer_ok args i b t (Installing (Install a f # ss) us)"
  shows "layer_ok args i b (install a f t) (Installing ss us)"
proof -
  have "let (t1, us1, e) = run_steps k ss (install a f t) us in stack_ok b t1 us1" for k
    using ok by (auto dest!: spec [of _ "Suc k"])
  with ok show ?thesis by simp
qed

lemma layer_leave: "layer_ok args i b t (Installing ss us) \<Longrightarrow> layer_ok args i b t (Restoring us)"
  by (cases ss) (auto dest!: spec [of _ 0])

lemma layer_restore:
  "layer_ok args i b t (Restoring (u # us)) \<Longrightarrow> layer_ok args i b (fst (restore_if_ours u t)) (Restoring us)"
  using stack_ok_restore by auto

lemma layer_done: "layer_ok args i b t (Restoring []) \<Longrightarrow> t = b"
  by (auto simp: stack_ok_def)

lemma context_holds_lock: "process_ok args t0 s \<Longrightarrow> layers s i \<noteq> [] \<Longrightarrow> owner s = Some i"
  unfolding process_ok_def by (cases "owner s") (auto, metis)

text \<open>A step of a thread that is in a context is a step of the thread that holds the lock.\<close>

lemma process_ok_layer:
  assumes ok: "process_ok args t0 s" and i: "layers s i = l # ls"
    and new: "\<And>b. layer_ok args i b (table s) l \<Longrightarrow> layer_ok args i b t l'"
  shows "process_ok args t0 (set_layers i (l' # ls) (s\<lparr>table := t\<rparr>))"
proof -
  have "owner s = Some i" using context_holds_lock [OF ok] i by simp
  with ok i show ?thesis by (auto simp: process_ok_def set_layers_def intro: new)
qed

lemma process_ok_enter:
  assumes ok: "process_ok args t0 s" and "in_body (layers s i)" and "owner s \<in> {None, Some i}"
  shows "process_ok args t0 (set_layers i (Installing (thread_steps imported audit i n (table s)) [] # layers s i)
    (acquire_lock i (s\<lparr>next_obj := m\<rparr>)))"
proof -
  have "layers_ok args i t0 (table s) (layers s i)" "lock_depth s = length (layers s i)" "\<forall>j. j \<noteq> i \<longrightarrow> layers s j = []"
    using ok assms(3) by (auto simp: process_ok_def split: option.splits)
  then show ?thesis
    using layer_enter [of args i "table s" imported audit n] assms(2)
    by (auto simp: process_ok_def set_layers_def acquire_lock_def simp del: layer_ok.simps intro!: exI [of _ "table s"])
qed

lemma process_ok_release:
  assumes ok: "process_ok args t0 s" and i: "layers s i = Restoring [] # ls"
  shows "process_ok args t0 (set_layers i ls (release_lock s))"
proof -
  have o: "owner s = Some i" using context_holds_lock [OF ok] i by simp
  with ok i have "layers_ok args i t0 (table s) ls" using layer_done by (fastforce simp: process_ok_def)
  with ok i o show ?thesis by (cases ls) (auto simp: process_ok_def set_layers_def release_lock_def)
qed

lemma process_ok_step: "patch_next True imported s s' \<Longrightarrow> process_ok args t0 s \<Longrightarrow> process_ok args t0 s'"
proof (induction rule: patch_next.induct)
  case (acquire s i steps audit)
  then show ?case using process_ok_enter by blast
next
  case (register s i u ss us ls)
  then show ?case using process_ok_layer [OF _ _ layer_register] by fastforce
next
  case (patch s i a f ss us ls)
  then show ?case using process_ok_layer [OF _ _ layer_patch] by blast
next
  case (leave s i ss us ls)
  then show ?case using process_ok_layer [OF _ _ layer_leave] by fastforce
next
  case (restore s i u us ls)
  then show ?case using process_ok_layer [OF _ _ layer_restore] by blast
next
  case (release s i ls)
  then show ?case by (intro process_ok_release)
qed

lemma process_ok_reachable:
  assumes "(patch_next True imported)\<^sup>*\<^sup>* (unpatched t0) s"
  shows "process_ok args t0 s"
  using assms
proof (induction rule: rtranclp_induct)
  case base
  show ?case by (simp add: unpatched_def process_ok_def)
qed (rule process_ok_step)

lemma stack_ok_calls:
  assumes "stack_ok t0 t us" and "\<forall>u\<in>set us. wraps i args u" and "j \<noteq> i"
  shows "map_option (call_fun j args) (t a) = map_option (call_fun j args) (t0 a)"
proof (cases "a \<in> undo_attr ` set us")
  case True
  then obtain u where "u \<in> set us" "a = undo_attr u" by blast
  with assms show ?thesis by (auto simp: stack_ok_def wraps_def)
qed (use assms in \<open>simp add: stack_ok_def\<close>)

lemma layers_calls:
  "layers_ok args i t0 t ls \<Longrightarrow> j \<noteq> i \<Longrightarrow>
    map_option (call_fun j args) (t a) = map_option (call_fun j args) (t0 a)"
proof (induction ls arbitrary: t)
  case (Cons l ls)
  then obtain b where b: "layer_ok args i b t l" "layers_ok args i t0 b ls" by auto
  have "\<exists>us. layer_ok args i b t (Restoring us)" using b(1) layer_leave by (cases l) blast+
  then have "map_option (call_fun j args) (t a) = map_option (call_fun j args) (b a)"
    using stack_ok_calls Cons.prems(2) by fastforce
  with Cons.IH [OF b(2) Cons.prems(2)] show ?case by simp
qed simp

text \<open>C22: Runs on several threads never leave the process patched and never disturb each other: however
  their entering (also one context inside another), installing, interrupts, bodies and restores
  interleave, at most one thread is in a context at a time, and it holds the lock as many times as
  it has contexts; whenever none is, every attribute is what it was at the start; and at every
  moment every call on a thread that is in no context (the host's event loop included) does what it
  would have done in the unpatched process.\<close>

theorem runs_take_turns:
  fixes args :: "'a option list"
  assumes "(patch_next True imported)\<^sup>*\<^sup>* (unpatched t0) s"
  shows "(\<forall>i. active s i \<longrightarrow> owner s = Some i \<and> lock_depth s = length (layers s i)) \<and>
    ((\<forall>i. \<not> active s i) \<longrightarrow> table s = t0 \<and> owner s = None) \<and>
    (\<forall>j a. \<not> active s j \<longrightarrow>
      map_option (call_fun j args) (table s a) = map_option (call_fun j args) (t0 a))"
proof -
  have ok: "process_ok args t0 s" using process_ok_reachable [OF assms] .
  show ?thesis
  proof (cases "owner s")
    case None
    with ok show ?thesis by (simp add: process_ok_def active_def)
  next
    case (Some i)
    with ok have "layers s i \<noteq> []" "lock_depth s = length (layers s i)" "layers_ok args i t0 (table s) (layers s i)"
      and rest: "\<forall>j. j \<noteq> i \<longrightarrow> layers s j = []" by (simp_all add: process_ok_def)
    then show ?thesis using Some layers_calls unfolding active_def by metis
  qed
qed

text \<open>A thread's next step: entering a shim when it is in a body, or the next step of its installation; leaving is apart.\<close>

definition fire :: "attrs \<Rightarrow> nat \<Rightarrow> process \<Rightarrow> process" where
  "fire imported i s = (case layers s i of
     Installing (Register u # ss) us # ls \<Rightarrow> set_layers i (Installing ss (u # us) # ls) s
   | Installing (Install a f # ss) us # ls \<Rightarrow> set_layers i (Installing ss us # ls) (s\<lparr>table := install a f (table s)\<rparr>)
   | Restoring (u # us) # ls \<Rightarrow> set_layers i (Restoring us # ls) (s\<lparr>table := fst (restore_if_ours u (table s))\<rparr>)
   | Restoring [] # ls \<Rightarrow> set_layers i ls (release_lock s)
   | ls \<Rightarrow> if in_body ls
        then (let steps = thread_steps imported False i (next_obj s) (table s)
          in set_layers i (Installing steps [] # ls) (acquire_lock i (s\<lparr>next_obj := next_obj s + length steps\<rparr>)))
        else s)"

definition quit_body :: "nat \<Rightarrow> process \<Rightarrow> process" where
  "quit_body i s = (case layers s i of Installing ss us # ls \<Rightarrow> set_layers i (Restoring us # ls) s | _ \<Rightarrow> s)"

lemma fire_next:
  assumes "locked \<Longrightarrow> owner s \<in> {None, Some i}"
  shows "(patch_next locked imported)\<^sup>*\<^sup>* s (fire imported i s)"
proof (cases "in_body (layers s i)")
  case True
  then have "fire imported i s = (let steps = thread_steps imported False i (next_obj s) (table s)
      in set_layers i (Installing steps [] # layers s i) (acquire_lock i (s\<lparr>next_obj := next_obj s + length steps\<rparr>)))"
    by (auto simp: fire_def split: list.split layer.split)
  then show ?thesis using patch_next.acquire [OF True] assms by (auto simp: Let_def)
next
  case False
  then obtain l ls where "layers s i = l # ls" by (cases "layers s i") auto
  with False show ?thesis
    by (cases "(l # ls)" rule: in_body.cases)
      (auto simp: fire_def split: patch_step.split list.split intro: patch_next.intros)
qed

lemma quit_next: "(patch_next locked imported)\<^sup>*\<^sup>* s (quit_body i s)"
  by (auto simp: quit_body_def split: list.split layer.split intro: patch_next.leave)

text \<open>Thread 1 in a shim inside a shim.\<close>

definition demo_table :: attrs where
  "demo_table = [os_urandom \<mapsto> Builtin ''os.urandom'', random_urandom \<mapsto> Builtin ''os.urandom'']"

lemmas fire_eval = fire_def quit_body_def unpatched_def demo_table_def thread_steps_def shim_steps_def set_layers_def install_def
  acquire_lock_def release_lock_def active_def os_urandom_def random_urandom_def Let_def

theorem runs_take_turns_witness:
  "\<exists>s :: process. length (layers s 1) = 2 \<and> lock_depth s = 2 \<and>
    map_option (call_fun 1 [Some (4 :: nat)]) (table s os_urandom) = Some SeededBytes \<and>
    map_option (call_fun 2 [Some (4 :: nat)]) (table s os_urandom) = Some (Ran ''os.urandom'')"
proof -
  let ?next = "patch_next True Map.empty"
  let ?f = "fire Map.empty 1"
  have step: "?next\<^sup>*\<^sup>* s (?f t)" if "?next\<^sup>*\<^sup>* s t" "owner t \<in> {None, Some 1}" for s t
    using that fire_next rtranclp_trans by meson
  define s where "s = ?f (?f (?f (?f (?f (?f (?f (?f (?f (?f (unpatched demo_table))))))))))"
  have "?next\<^sup>*\<^sup>* (unpatched demo_table) s"
    unfolding s_def by (intro step rtranclp.rtrancl_refl) (simp_all add: fire_eval)
  moreover have now: "\<not> active s 2" "active s 1" "length (layers s 1) = 2" "demo_table os_urandom = Some (Builtin ''os.urandom'')"
    "map_option (call_fun 1 [Some (4 :: nat)]) (table s os_urandom) = Some SeededBytes"
    by (simp_all add: s_def fire_eval)
  ultimately have "lock_depth s = 2 \<and> map_option (call_fun 2 [Some (4 :: nat)]) (table s os_urandom) = Some (Ran ''os.urandom'')"
    using runs_take_turns [of Map.empty demo_table s "[Some (4 :: nat)]"] by simp
  with now show ?thesis by blast
qed

text \<open>Without the lock, two threads in the shim can leave the process patched for good.\<close>

lemma unlocked_leak:
  "\<exists>s. (patch_next False Map.empty)\<^sup>*\<^sup>* (unpatched demo_table) s \<and> (\<forall>i. \<not> active s i) \<and> table s \<noteq> demo_table"
proof -
  let ?run = "fold (\<lambda>(quits, i). if quits then quit_body i else fire Map.empty i)"
  have run: "(patch_next False Map.empty)\<^sup>*\<^sup>* s (?run ks s)" for ks s
  proof (induction ks arbitrary: s)
    case (Cons k ks)
    have "(patch_next False Map.empty)\<^sup>*\<^sup>* s ((\<lambda>(quits, i). if quits then quit_body i else fire Map.empty i) k s)"
      by (cases k) (auto intro: fire_next quit_next)
    with Cons show ?case by (simp add: rtranclp_trans)
  qed simp
  define s where "s = ?run
    (replicate 5 (False, 1) @ replicate 5 (False, 2) @ (True, 1) # replicate 3 (False, 1) @ (True, 2) # replicate 3 (False, 2))
    (unpatched demo_table)"
  have "\<not> active s i" for i by (simp add: s_def fire_eval numeral_eq_Suc)
  moreover have "table s os_urandom = Some (ScopedUrandom 0 (Builtin ''os.urandom'') 1)"
    "demo_table os_urandom = Some (Builtin ''os.urandom'')" by (simp_all add: s_def fire_eval numeral_eq_Suc)
  then have "table s \<noteq> demo_table" by auto
  ultimately show ?thesis using run s_def by blast
qed

end
