(* ===== verification/Describe.thy ===== *)
theory Describe
  imports PyFloat PyText "HOL-Library.List_Lexorder" "HOL-Library.Char_ord" "HOL-Library.Multiset"
begin

text \<open>
  The text that names the tasks of a deadlocked or unfinished run (\<open>describe_tasks\<close> of
  \<open>src/seedloop/_loop.py\<close>). The tasks come from a set whose iteration order follows memory addresses;
  the text does not depend on that order.
\<close>

record task_info =
  ti_done :: bool
  ti_seq :: "int option"
  ti_name :: string
  ti_waiter :: "string option"

definition LISTED_TASKS :: nat where
  "LISTED_TASKS = 20"

definition describe_task :: "task_info \<Rightarrow> string" where
  "describe_task t =
     (let index = (case ti_seq t of None \<Rightarrow> ''?'' | Some i \<Rightarrow> str_int i);
          waits = (case ti_waiter t of None \<Rightarrow> [] | Some w \<Rightarrow> '' awaiting '' @ w)
      in ''#'' @ index @ '' '' @ ti_name t @ waits)"

fun join_with :: "string \<Rightarrow> string list \<Rightarrow> string" where
  "join_with sep [] = []"
| "join_with sep [p] = p"
| "join_with sep (p # ps) = p @ sep @ join_with sep ps"

definition describe_tasks :: "task_info list \<Rightarrow> nat \<Rightarrow> string" where
  "describe_tasks ts limit =
     (let live = filter (\<lambda>t. \<not> ti_done t) ts;
          indexed = sort_key (\<lambda>t. the (ti_seq t)) (filter (\<lambda>t. ti_seq t \<noteq> None) live);
          unindexed = sort (map describe_task (filter (\<lambda>t. ti_seq t = None) live));
          parts = unindexed @ map describe_task indexed;
          shown = take limit parts @
            (if limit < length parts
             then [''and '' @ str_nat (length parts - limit) @ '' more''] else [])
      in if shown = [] then ''none'' else join_with ''; '' shown)"

text \<open>The messages of the two step limits; \<open>repr\<close> writes a float.\<close>

definition livelock_text :: "(pyfloat \<Rightarrow> string) \<Rightarrow> nat option \<Rightarrow> pyfloat \<Rightarrow> task_info list \<Rightarrow> string" where
  "livelock_text repr limit t ts =
     ''the run did not finish within '' @ (case limit of None \<Rightarrow> ''None'' | Some n \<Rightarrow> str_nat n) @
     '' steps (t='' @ repr t @ ''); a task that never waits keeps the clock from advancing. Running tasks: '' @
     describe_tasks ts LISTED_TASKS"

definition teardown_text :: "task_info list \<Rightarrow> string" where
  "teardown_text ts =
     ''teardown did not finish: a task ignores cancellation, or cleanup never ends. Tasks still running: '' @
     describe_tasks ts LISTED_TASKS"

text \<open>The text about a run's tasks is the same on every run of a seed: it does not depend on the order
  in which the set of tasks is iterated, as long as no two live tasks share an index (the loop
  numbers them from a counter).\<close>

lemma describe_order_free:
  assumes perm: "mset ts = mset ts'"
    and seqs: "inj_on ti_seq {t \<in> set ts. \<not> ti_done t \<and> ti_seq t \<noteq> None}"
  shows "describe_tasks ts limit = describe_tasks ts' limit"
proof -
  let ?ix = "\<lambda>ts. filter (\<lambda>t. ti_seq t \<noteq> None) (filter (\<lambda>t. \<not> ti_done t) ts)"
  let ?un = "\<lambda>ts. map describe_task (filter (\<lambda>t. ti_seq t = None) (filter (\<lambda>t. \<not> ti_done t) ts))"
  have same: "mset (?ix ts) = mset (?ix ts')" "mset (?un ts) = mset (?un ts')"
    using perm by (simp_all only: mset_filter mset_map)
  have "sort_key (\<lambda>t. the (ti_seq t)) (?ix ts) = sort_key (\<lambda>t. the (ti_seq t)) (?ix ts')"
  proof (rule sort_key_inj_key_eq)
    show "mset (?ix ts) = mset (sort_key (\<lambda>t. the (ti_seq t)) (?ix ts'))" using same(1) by simp
    show "inj_on (\<lambda>t. the (ti_seq t)) (set (?ix ts))"
      using seqs by (auto simp: inj_on_def)
  qed simp
  moreover have "sort (?un ts) = sort (?un ts')"
    using same(2) by (intro properties_for_sort) simp_all
  ultimately show ?thesis by (simp only: describe_tasks_def Let_def)
qed

definition demo_tasks :: "task_info list" where
  "demo_tasks =
     [\<lparr>ti_done = False, ti_seq = Some 2, ti_name = ''server'', ti_waiter = Some ''Future''\<rparr>,
      \<lparr>ti_done = False, ti_seq = None, ti_name = ''loose'', ti_waiter = None\<rparr>,
      \<lparr>ti_done = False, ti_seq = Some 0, ti_name = ''main'', ti_waiter = None\<rparr>]"

lemma demo_described: "describe_tasks demo_tasks 2 = ''#? loose; #0 main; and 1 more''"
  by (simp add: describe_tasks_def demo_tasks_def describe_task_def str_int_def str_nat.simps
      Let_def numeral_2_eq_2)

end
