(* ===== verification/Mutator.thy ===== *)
theory Mutator
  imports Prelude PyText
begin

text \<open>
  Finding and applying mutations (\<open>_Mutator\<close> and \<open>enumerate_mutants\<close> of
  \<open>src/scripts/mutation_sweep.py\<close>). The syntax tree library calls the transformer back in an order
  of its own: a traversal is the sequence of those calls, a parameter, like the text a visited tree
  prints as and the line hash. A node is its kind with the operator or literal that decides.
\<close>

section \<open>The mutation tables\<close>

definition COMPARISON :: "string \<Rightarrow> string option" where
  "COMPARISON = map_of [(''LessThan'', ''LessThanEqual''), (''LessThanEqual'', ''LessThan''),
     (''GreaterThan'', ''GreaterThanEqual''), (''GreaterThanEqual'', ''GreaterThan''),
     (''Equal'', ''NotEqual''), (''NotEqual'', ''Equal''), (''Is'', ''IsNot''), (''IsNot'', ''Is'')]"

definition BOOLEAN :: "string \<Rightarrow> string option" where
  "BOOLEAN = map_of [(''And'', ''Or''), (''Or'', ''And'')]"

definition BINARY :: "string \<Rightarrow> string option" where
  "BINARY = map_of [(''Add'', ''Subtract''), (''Subtract'', ''Add''), (''Multiply'', ''Divide''), (''Divide'', ''Multiply'')]"

datatype node =
    Comparison string
  | BooleanOp string
  | UnaryOp string
  | BinaryOp string
  | IntegerLit string
  | NameLit string
  | Operand  \<comment> \<open>what is left of a unary operation without its operator\<close>

text \<open>The \<open>leave_\<close> methods: the opportunity a node is, if any, and what it becomes when it is the target.\<close>

fun opportunity :: "node \<Rightarrow> (string \<times> node) option" where
  "opportunity (Comparison op) = (case COMPARISON op of None \<Rightarrow> None
     | Some new \<Rightarrow> Some (''cmp '' @ op @ ''->'' @ new, Comparison new))"
| "opportunity (BooleanOp op) = (case BOOLEAN op of None \<Rightarrow> None
     | Some new \<Rightarrow> Some (''bool '' @ op @ ''->'' @ new, BooleanOp new))"
| "opportunity (UnaryOp op) = (if op = ''Not'' then Some (''drop '' @ [CHR 0x27] @ ''not'' @ [CHR 0x27], Operand) else None)"
| "opportunity (BinaryOp op) = (case BINARY op of None \<Rightarrow> None
     | Some new \<Rightarrow> Some (''binop '' @ op @ ''->'' @ new, BinaryOp new))"
| "opportunity (IntegerLit v) =
     (if v = ''0'' \<or> v = ''1''
      then let new = (if v = ''0'' then ''1'' else ''0'') in Some (''int '' @ v @ ''->'' @ new, IntegerLit new)
      else None)"
| "opportunity (NameLit v) =
     (if v = ''True'' \<or> v = ''False''
      then let new = (if v = ''True'' then ''False'' else ''True'') in Some (''bool '' @ v @ ''->'' @ new, NameLit new)
      else None)"
| "opportunity Operand = None"

section \<open>The transformer\<close>

datatype visit = Enter string | Exit | LeaveNode node

record mutator =
  target :: int
  counter :: int
  desc :: "string option"
  scope :: "string list"
  sites :: "(string \<times> nat \<times> string) list"
  per_scope :: "(string \<times> nat) list"
  transformed :: "node list"

definition mutator_init :: "int \<Rightarrow> mutator" where
  "mutator_init t = \<lparr>target = t, counter = -1, desc = None, scope = [], sites = [], per_scope = [], transformed = []\<rparr>"

fun dotted :: "string list \<Rightarrow> string" where
  "dotted [] = []"
| "dotted [n] = n"
| "dotted (n # ns) = n @ ''.'' @ dotted ns"

definition qualname :: "mutator \<Rightarrow> string" where
  "qualname m = (if dotted (scope m) = [] then ''<module>'' else dotted (scope m))"

definition hit :: "string \<Rightarrow> mutator \<Rightarrow> mutator \<times> bool" where
  "hit description m =
     (let m1 = m\<lparr>counter := counter m + 1\<rparr>;
          q = qualname m1;
          ordinal = (case map_of (per_scope m1) q of None \<Rightarrow> 0 | Some n \<Rightarrow> n);
          m2 = m1\<lparr>per_scope := AList.update q (ordinal + 1) (per_scope m1),
            sites := sites m1 @ [(q, ordinal, description)]\<rparr>
      in if counter m2 = target m2 then (m2\<lparr>desc := Some description\<rparr>, True) else (m2, False))"

fun visit_step :: "visit \<Rightarrow> mutator \<Rightarrow> mutator" where
  "visit_step (Enter n) m = m\<lparr>scope := scope m @ [n]\<rparr>"
| "visit_step Exit m = m\<lparr>scope := butlast (scope m)\<rparr>"
| "visit_step (LeaveNode n) m = (case opportunity n of
     None \<Rightarrow> m\<lparr>transformed := transformed m @ [n]\<rparr>
   | Some (d, new) \<Rightarrow> (let (m', b) = hit d m in m'\<lparr>transformed := transformed m' @ [if b then new else n]\<rparr>))"

definition visit_all :: "int \<Rightarrow> visit list \<Rightarrow> mutator" where
  "visit_all t vs = fold visit_step vs (mutator_init t)"

section \<open>Enumerating\<close>

text \<open>The first line that differs, counted from 1; 0 when none does.\<close>

fun first_difference :: "nat \<Rightarrow> string list \<Rightarrow> string list \<Rightarrow> nat" where
  "first_difference n (a # as) (b # bs) = (if a \<noteq> b then n else first_difference (Suc n) as bs)"
| "first_difference n _ _ = 0"

definition changed_line :: "string \<Rightarrow> string \<Rightarrow> nat" where
  "changed_line original mutated = first_difference 1 (splitlines original) (splitlines mutated)"

definition line_hash :: "(string \<Rightarrow> string) \<Rightarrow> string \<Rightarrow> string" where
  "line_hash sha1hex text = take 8 (sha1hex (strip text))"

record mutant =
  m_path :: string
  m_target :: nat
  m_key :: string

definition mutant_key :: "string \<Rightarrow> string \<Rightarrow> nat \<Rightarrow> string \<Rightarrow> string \<Rightarrow> string" where
  "mutant_key rel q ordinal description h =
     rel @ ''::'' @ q @ ''#'' @ str_nat ordinal @ '' '' @ description @ '' ['' @ h @ '']''"

text \<open>A source file: its path, its text, and the calls its tree makes. \<open>rewrite\<close> visits with a target and prints.\<close>

record source_file =
  sf_path :: string
  sf_text :: string
  sf_visits :: "visit list"

fun file_mutants ::
    "(string \<Rightarrow> string) \<Rightarrow> (source_file \<Rightarrow> nat \<Rightarrow> string) \<Rightarrow> source_file \<Rightarrow> nat \<Rightarrow>
     (string \<times> nat \<times> string) list \<Rightarrow> mutant list" where
  "file_mutants sha1hex rewrite sf t [] = []"
| "file_mutants sha1hex rewrite sf t ((q, ordinal, description) # ss) =
     (let mutated = rewrite sf t; rest = file_mutants sha1hex rewrite sf (Suc t) ss in
      if mutated = sf_text sf then rest
      else
        let line = changed_line (sf_text sf) mutated; lines = splitlines (sf_text sf);
            text = (if 0 < line \<and> line \<le> length lines then lines ! (line - 1) else [])
        in \<lparr>m_path = sf_path sf, m_target = t,
            m_key = mutant_key (sf_path sf) q ordinal description (line_hash sha1hex text)\<rparr> # rest)"

text \<open>\<open>None\<close> is the internal error about keys that are not unique.\<close>

definition enumerate_mutants ::
    "(string \<Rightarrow> string) \<Rightarrow> (source_file \<Rightarrow> nat \<Rightarrow> string) \<Rightarrow> source_file list \<Rightarrow> mutant list option" where
  "enumerate_mutants sha1hex rewrite files =
     (let ms = concat (map (\<lambda>sf. file_mutants sha1hex rewrite sf 0 (sites (visit_all (-2) (sf_visits sf)))) files)
      in if distinct (map m_key ms) then Some ms else None)"

section \<open>One mutation at a time\<close>

text \<open>The nodes of a traversal in the order they are left, and the positions that are opportunities.\<close>

fun node_of :: "visit \<Rightarrow> node option" where
  "node_of (LeaveNode n) = Some n"
| "node_of _ = None"

definition nodes_of :: "visit list \<Rightarrow> node list" where
  "nodes_of vs = List.map_filter node_of vs"

definition chances :: "node list \<Rightarrow> nat list" where
  "chances ns = filter (\<lambda>i. opportunity (ns ! i) \<noteq> None) [0..<length ns]"

lemma chances_snoc:
  "chances (ns @ [n]) = chances ns @ (if opportunity n = None then [] else [length ns])"
  by (auto simp: chances_def nth_append intro!: filter_cong)

lemma chances_less: "i \<in> set (chances ns) \<Longrightarrow> i < length ns"
  by (auto simp: chances_def)

definition mutated_nodes :: "int \<Rightarrow> node list \<Rightarrow> node list" where
  "mutated_nodes t ns =
     (if 0 \<le> t \<and> nat t < length (chances ns)
      then let i = chances ns ! nat t in ns[i := snd (the (opportunity (ns ! i)))]
      else ns)"

lemma mutated_nodes_other: "opportunity n = None \<Longrightarrow> mutated_nodes t (ns @ [n]) = mutated_nodes t ns @ [n]"
  by (auto simp: mutated_nodes_def chances_snoc Let_def list_update_append nth_append dest!: nth_mem chances_less)

lemma mutated_nodes_chance:
  assumes "opportunity n = Some (d, new)"
  shows "mutated_nodes t (ns @ [n]) = mutated_nodes t ns @ [if t = int (length (chances ns)) then new else n]"
proof -
  have "nat t < length (chances ns) \<Longrightarrow> chances ns ! nat t < length ns" using chances_less nth_mem by blast
  then show ?thesis
    using assms by (auto simp: mutated_nodes_def chances_snoc Let_def list_update_append nth_append)
qed

lemma visit_all_snoc: "visit_all t (vs @ [v]) = visit_step v (visit_all t vs)"
  by (simp add: visit_all_def)

lemma visit_all_state:
  "target (visit_all t vs) = t \<and> counter (visit_all t vs) = int (length (sites (visit_all t vs))) - 1 \<and>
   length (sites (visit_all t vs)) = length (chances (nodes_of vs)) \<and>
   transformed (visit_all t vs) = mutated_nodes t (nodes_of vs)"
proof (induction vs rule: rev_induct)
  case Nil
  show ?case by (simp add: visit_all_def mutator_init_def nodes_of_def chances_def mutated_nodes_def map_filter_simps)
next
  case (snoc v vs)
  show ?case
  proof (cases v)
    case (LeaveNode n)
    then have ns: "nodes_of (vs @ [v]) = nodes_of vs @ [n]" by (simp add: nodes_of_def map_filter_def)
    show ?thesis
    proof (cases "opportunity n")
      case None
      with snoc LeaveNode ns show ?thesis by (simp add: visit_all_snoc chances_snoc mutated_nodes_other)
    next
      case (Some p)
      obtain d new where "p = (d, new)" by fastforce
      with snoc LeaveNode ns Some show ?thesis
        by (simp add: visit_all_snoc chances_snoc mutated_nodes_chance hit_def Let_def)
    qed
  qed (use snoc in \<open>simp_all add: visit_all_snoc nodes_of_def map_filter_def\<close>)
qed

text \<open>C31: A mutant is one mutation: visiting a tree with target \<open>t\<close> changes exactly the node of the \<open>t\<close>-th
  mutation opportunity, in the order nodes are left, to what its operator's table says, and nothing
  else; a target that is no opportunity (such as the one that only counts) changes nothing; and the
  opportunities recorded are exactly those nodes, whatever the target.\<close>

theorem one_mutation:
  "transformed (visit_all t vs) = mutated_nodes t (nodes_of vs) \<and>
    length (sites (visit_all t vs)) = length (chances (nodes_of vs)) \<and>
    sites (visit_all t vs) = sites (visit_all t' vs)"
proof -
  have "sites (visit_all t vs) = sites (visit_all t' vs) \<and> scope (visit_all t vs) = scope (visit_all t' vs) \<and>
    per_scope (visit_all t vs) = per_scope (visit_all t' vs)"
  proof (induction vs rule: rev_induct)
    case (snoc v vs)
    then show ?case
      by (cases v) (auto simp: visit_all_snoc hit_def Let_def qualname_def split: option.splits)
  qed (simp add: visit_all_def mutator_init_def)
  then show ?thesis using visit_all_state by blast
qed

section \<open>Keys\<close>

definition site_id :: "string \<times> nat \<times> string \<Rightarrow> string \<times> nat" where
  "site_id s = (fst s, fst (snd s))"

lemma site_id_simp [simp]: "site_id (q, n, d) = (q, n)"
  by (simp add: site_id_def)

lemma sites_distinct:
  "distinct (map site_id (sites (visit_all t vs))) \<and>
   (\<forall>s\<in>set (sites (visit_all t vs)). \<exists>k. map_of (per_scope (visit_all t vs)) (fst s) = Some k \<and> fst (snd s) < k)"
proof (induction vs rule: rev_induct)
  case (snoc v vs)
  let ?m = "visit_all t vs"
  show ?case
  proof (cases v)
    case (LeaveNode n)
    show ?thesis
    proof (cases "opportunity n")
      case (Some p)
      obtain d new where p: "p = (d, new)" by fastforce
      let ?q = "qualname ?m" and ?o = "case map_of (per_scope ?m) (qualname ?m) of None \<Rightarrow> 0 | Some n \<Rightarrow> n"
      have m': "sites (visit_all t (vs @ [v])) = sites ?m @ [(?q, ?o, d)]"
        "map_of (per_scope (visit_all t (vs @ [v]))) = (map_of (per_scope ?m))(?q \<mapsto> ?o + 1)"
        using LeaveNode Some p by (simp_all add: visit_all_snoc hit_def Let_def qualname_def)
      have "(?q, ?o) \<notin> set (map site_id (sites ?m))"
        using snoc by (fastforce simp: site_id_def)
      then have "distinct (map site_id (sites ?m @ [(?q, ?o, d)]))" using snoc by simp
      moreover have "\<exists>k. ((map_of (per_scope ?m))(?q \<mapsto> ?o + 1)) (fst s) = Some k \<and> fst (snd s) < k"
        if "s \<in> set (sites ?m @ [(?q, ?o, d)])" for s
        using that snoc by (cases "fst s = ?q") fastforce+
      ultimately show ?thesis unfolding m' by blast
    qed (use snoc LeaveNode in \<open>simp add: visit_all_snoc\<close>)
  qed (use snoc in \<open>simp_all add: visit_all_snoc\<close>)
qed (simp add: visit_all_def mutator_init_def)

lemma sites_plain:
  assumes "\<forall>n. Enter n \<in> set vs \<longrightarrow> CHR ''#'' \<notin> set n"
  shows "\<forall>s\<in>set (sites (visit_all t vs)). CHR ''#'' \<notin> set (fst s)"
proof -
  have dotted: "CHR ''#'' \<notin> set (dotted ns)" if "\<forall>n\<in>set ns. CHR ''#'' \<notin> set n" for ns
    using that by (induction ns rule: dotted.induct) auto
  have "(\<forall>s\<in>set (sites (visit_all t vs)). CHR ''#'' \<notin> set (fst s)) \<and>
    (\<forall>n\<in>set (scope (visit_all t vs)). CHR ''#'' \<notin> set n)"
    using assms
  proof (induction vs rule: rev_induct)
    case (snoc v vs)
    then show ?case
      using dotted [of "scope (visit_all t vs)"]
      by (cases v) (auto simp: visit_all_snoc hit_def Let_def qualname_def split: option.splits dest: in_set_butlastD)
  qed (simp add: visit_all_def mutator_init_def)
  then show ?thesis ..
qed

definition key_safe :: "source_file \<Rightarrow> bool" where
  "key_safe sf \<longleftrightarrow> CHR '':'' \<notin> set (sf_path sf) \<and> (\<forall>n. Enter n \<in> set (sf_visits sf) \<longrightarrow> CHR ''#'' \<notin> set n)"

lemma safe_sites: "key_safe sf \<Longrightarrow> \<forall>s\<in>set (sites (visit_all t (sf_visits sf))). CHR ''#'' \<notin> set (fst s)"
  unfolding key_safe_def by (rule sites_plain) blast

lemma mutant_key_inj:
  assumes eq: "mutant_key r q n d h = mutant_key r' q' n' d' h'"
    and colon: "CHR '':'' \<notin> set r" "CHR '':'' \<notin> set r'" and hash: "CHR ''#'' \<notin> set q" "CHR ''#'' \<notin> set q'"
  shows "r = r' \<and> q = q' \<and> n = n'"
proof -
  let ?tail = "\<lambda>n d h. CHR '' '' # d @ '' ['' @ h @ '']''"
  have "r @ CHR '':'' # (CHR '':'' # q @ CHR ''#'' # str_nat n @ ?tail n d h) =
      r' @ CHR '':'' # (CHR '':'' # q' @ CHR ''#'' # str_nat n' @ ?tail n' d' h')"
    using eq by (simp add: mutant_key_def)
  from split_at_unique [OF this colon] have 1: "r = r'"
    and 2: "q @ CHR ''#'' # (str_nat n @ ?tail n d h) = q' @ CHR ''#'' # (str_nat n' @ ?tail n' d' h')" by simp_all
  from split_at_unique [OF 2 hash] have 3: "q = q'"
    and 4: "str_nat n @ CHR '' '' # (d @ '' ['' @ h @ '']'') = str_nat n' @ CHR '' '' # (d' @ '' ['' @ h' @ '']'')"
    by simp_all
  have "CHR '' '' \<notin> set (str_nat k)" for k
    using digits_str_nat [of "CHR '' ''" k] by (auto simp: is_digit_def)
  from split_at_unique [OF 4 this this] have "n = n'" using str_nat_inj by blast
  with 1 3 show ?thesis by simp
qed

lemma file_mutants_keys:
  "m \<in> set (file_mutants sha rewrite sf t ss) \<Longrightarrow>
    m_path m = sf_path sf \<and> (\<exists>s\<in>set ss. \<exists>h. m_key m = mutant_key (sf_path sf) (fst s) (fst (snd s)) (snd (snd s)) h)"
  by (induction sha rewrite sf t ss rule: file_mutants.induct) (auto simp: Let_def split: if_splits)

lemma file_mutants_distinct:
  assumes "CHR '':'' \<notin> set (sf_path sf)"
  shows "distinct (map site_id ss) \<Longrightarrow> \<forall>s\<in>set ss. CHR ''#'' \<notin> set (fst s) \<Longrightarrow>
    distinct (map m_key (file_mutants sha rewrite sf t ss))"
proof (induction ss arbitrary: t)
  case (Cons s ss)
  obtain q n d where s: "s = (q, n, d)" by (cases s)
  have "mutant_key (sf_path sf) q n d h \<notin> m_key ` set (file_mutants sha rewrite sf (Suc t) ss)" for h
  proof
    assume "mutant_key (sf_path sf) q n d h \<in> m_key ` set (file_mutants sha rewrite sf (Suc t) ss)"
    then obtain m where m: "m \<in> set (file_mutants sha rewrite sf (Suc t) ss)"
      and key: "mutant_key (sf_path sf) q n d h = m_key m" by blast
    from file_mutants_keys [OF m] obtain s' h' where s': "s' \<in> set ss"
      and "mutant_key (sf_path sf) q n d h = mutant_key (sf_path sf) (fst s') (fst (snd s')) (snd (snd s')) h'"
      unfolding key by blast
    from mutant_key_inj [OF this(2) assms assms] Cons.prems(2) s s' have "q = fst s'" "n = fst (snd s')" by auto
    then have "site_id s \<in> site_id ` set ss" using s s' by (auto simp: site_id_def)
    with Cons.prems(1) show False by simp
  qed
  moreover have "distinct (map m_key (file_mutants sha rewrite sf (Suc t) ss))" using Cons by simp
  ultimately show ?case using s by (simp add: Let_def)
qed simp

text \<open>Mutant keys identify mutants: as long as no source path contains a colon and no class or function
  name a number sign, the keys of the whole tree are distinct, so the internal error is never
  raised.\<close>

lemma keys_unique:
  assumes "distinct (map sf_path files)" and "\<forall>sf\<in>set files. key_safe sf"
  shows "\<exists>ms. enumerate_mutants sha rewrite files = Some ms \<and> distinct (map m_key ms)"
proof -
  let ?ms = "\<lambda>sf. file_mutants sha rewrite sf 0 (sites (visit_all (-2) (sf_visits sf)))"
  have "distinct (map m_key (concat (map ?ms files)))"
    using assms
  proof (induction files)
    case (Cons sf files)
    have "distinct (map m_key (?ms sf))"
      using Cons.prems(2) by (intro file_mutants_distinct safe_sites) (auto simp: key_safe_def sites_distinct)
    moreover have "m_key m \<noteq> m_key m'" if m: "m \<in> set (?ms sf)" and m': "m' \<in> set (?ms sf')" "sf' \<in> set files" for m m' sf'
    proof
      assume eq: "m_key m = m_key m'"
      have safe: "key_safe sf" "key_safe sf'" using Cons.prems(2) m'(2) by auto
      obtain s h where s: "s \<in> set (sites (visit_all (-2) (sf_visits sf)))"
        "m_key m = mutant_key (sf_path sf) (fst s) (fst (snd s)) (snd (snd s)) h"
        using file_mutants_keys [OF m] by blast
      obtain s' h' where s': "s' \<in> set (sites (visit_all (-2) (sf_visits sf')))"
        "m_key m' = mutant_key (sf_path sf') (fst s') (fst (snd s')) (snd (snd s')) h'"
        using file_mutants_keys [OF m'(1)] by blast
      have "sf_path sf = sf_path sf'"
        using mutant_key_inj [OF eq [unfolded s(2) s'(2)]] safe_sites [OF safe(1)] safe_sites [OF safe(2)] s(1) s'(1) safe
        by (simp add: key_safe_def)
      with Cons.prems(1) m'(2) show False by auto
    qed
    moreover have "distinct (map m_key (concat (map ?ms files)))" using Cons by simp
    ultimately show ?case by fastforce
  qed simp
  then show ?thesis by (simp add: enumerate_mutants_def Let_def)
qed

end
