(* ===== verification/Mutation_Sweep.thy ===== *)
theory Mutation_Sweep
  imports Mutator "HOL-Library.Multiset" "HOL-Library.Sublist" "HOL-Library.List_Lexorder" "HOL-Library.Char_ord"
begin

text \<open>
  The mutation gate (\<open>src/scripts/mutation_sweep.py\<close>): each mutant runs in a throw-away copy of the
  sources, survivors are compared with the reviewed baseline, and a run may be one shard of several.
  The copy is a map from path to text; what the test suite makes of a copy (an exit code or a
  timeout) and what the import probe prints are parameters.
\<close>

section \<open>Running the suite\<close>

datatype suite_end = TimedOut | Exited int

definition HARNESS_ERROR_CODES :: "int list" where
  "HARNESS_ERROR_CODES = [3, 4, 5]"

text \<open>\<open>True\<close>: the suite passed and the mutant survived. \<open>None\<close>: the harness is broken.\<close>

definition run_suite :: "suite_end \<Rightarrow> bool option" where
  "run_suite r = (case r of
     TimedOut \<Rightarrow> Some False
   | Exited code \<Rightarrow>
       if code = 0 then Some True
       else if code \<in> set HARNESS_ERROR_CODES then None
       else Some False)"

datatype probe = ProbeTimedOut | Probe int string

definition check_import_source :: "string \<Rightarrow> probe \<Rightarrow> bool" where
  "check_import_source copy_src p = (case p of
     ProbeTimedOut \<Rightarrow> False
   | Probe code imported \<Rightarrow> code = 0 \<and> sublist copy_src (strip imported))"

type_synonym tree = "string \<Rightarrow> string option"

text \<open>The mutants of one file, one after the other; the original is written back after each, whatever happens.\<close>

fun sweep_file ::
    "(tree \<Rightarrow> suite_end) \<Rightarrow> (string \<Rightarrow> nat \<Rightarrow> string) \<Rightarrow> string \<Rightarrow> string \<Rightarrow> mutant list \<Rightarrow>
     tree \<Rightarrow> string list \<Rightarrow> tree \<times> string list option" where
  "sweep_file suite mutated_text rel original [] copy survivors = (copy, Some survivors)"
| "sweep_file suite mutated_text rel original (m # ms) copy survivors =
     (let copy1 = copy(rel \<mapsto> mutated_text original (m_target m));
          copy2 = copy1(rel \<mapsto> original)
      in case run_suite (suite copy1) of
           None \<Rightarrow> (copy2, None)
         | Some b \<Rightarrow> sweep_file suite mutated_text rel original ms copy2
             (if b then survivors @ [m_key m] else survivors))"

fun sweep_groups ::
    "(tree \<Rightarrow> suite_end) \<Rightarrow> (string \<Rightarrow> nat \<Rightarrow> string) \<Rightarrow> tree \<Rightarrow> (string \<times> mutant list) list \<Rightarrow>
     tree \<Rightarrow> string list \<Rightarrow> tree \<times> string list option" where
  "sweep_groups suite mutated_text root_files [] copy survivors = (copy, Some survivors)"
| "sweep_groups suite mutated_text root_files ((rel, items) # gs) copy survivors =
     (case root_files rel of
        None \<Rightarrow> (copy, None)
      | Some original \<Rightarrow> (case sweep_file suite mutated_text rel original items copy survivors of
          (copy1, None) \<Rightarrow> (copy1, None)
        | (copy1, Some survivors1) \<Rightarrow> sweep_groups suite mutated_text root_files gs copy1 survivors1))"

definition add_to_group :: "mutant \<Rightarrow> (string \<times> mutant list) list \<Rightarrow> (string \<times> mutant list) list" where
  "add_to_group m d =
     AList.update (m_path m) ((case map_of d (m_path m) of None \<Rightarrow> [] | Some ms \<Rightarrow> ms) @ [m]) d"

definition by_path :: "mutant list \<Rightarrow> (string \<times> mutant list) list" where
  "by_path ms = fold add_to_group ms []"

text \<open>The copy a sweep leaves behind and the keys of the survivors; \<open>None\<close> is a harness error.\<close>

definition sweep ::
    "(tree \<Rightarrow> suite_end) \<Rightarrow> (string \<Rightarrow> nat \<Rightarrow> string) \<Rightarrow> string \<Rightarrow> probe \<Rightarrow> tree \<Rightarrow> mutant list \<Rightarrow>
     tree \<times> string list option" where
  "sweep suite mutated_text copy_src p root_files ms =
     (if \<not> check_import_source copy_src p then (root_files, None)
      else if run_suite (suite root_files) \<noteq> Some True then (root_files, None)
      else sweep_groups suite mutated_text root_files (by_path ms) root_files [])"

section \<open>Shards\<close>

definition shard_of :: "mutant list \<Rightarrow> nat \<Rightarrow> nat \<Rightarrow> mutant list" where
  "shard_of ms index shards =
     (let ordered = sort_key m_key ms
      in map snd (filter (\<lambda>(position, m). position mod shards = index - 1) (List.enumerate 0 ordered)))"

definition parse_shard :: "string \<Rightarrow> (nat \<times> nat) option" where
  "parse_shard text = (case partition_at ''/'' text of (index, _, shards) \<Rightarrow>
     if isdigit index \<and> isdigit shards \<and> 1 \<le> parse_nat index \<and> parse_nat index \<le> parse_nat shards
     then Some (parse_nat index, parse_nat shards) else None)"

section \<open>The baseline\<close>

type_synonym baseline = "(string \<times> string) list"

definition SEPARATOR :: string where
  "SEPARATOR = ''  # ''"

fun parse_baseline_lines :: "string list \<Rightarrow> baseline \<Rightarrow> baseline" where
  "parse_baseline_lines [] d = d"
| "parse_baseline_lines (raw # raws) d =
     (let line = rstrip raw in
      if strip line = [] \<or> take 1 (lstrip line) = ''#'' then parse_baseline_lines raws d
      else case partition_at SEPARATOR line of (key, _, reason) \<Rightarrow>
        parse_baseline_lines raws (AList.update (strip key) (strip reason) d))"

definition parse_baseline :: "string \<Rightarrow> baseline" where
  "parse_baseline text = parse_baseline_lines (splitlines text) []"

definition baseline_header :: "string list" where
  "baseline_header =
     [''# Equivalent mutants: each changes no observable behaviour, so no test can (or should)'',
      ''# catch it. The gate fails on any survivor NOT listed here (a new one is a real coverage'',
      ''# gap, not a free pass), and on any entry that no longer exists or no longer survives.'',
      ''# Each line is `key  # why it is equivalent`; the key is'',
      ''# path::function#n description [hash of the original line].'',
      ''# Regenerate with `python scripts/mutation_sweep.py --update`, then write the reasons.'']"

definition TODO :: string where
  "TODO = ''TODO: write why this mutant is equivalent''"

definition reason_for :: "baseline \<Rightarrow> string \<Rightarrow> string" where
  "reason_for reasons key = (case map_of reasons key of None \<Rightarrow> TODO | Some r \<Rightarrow> if r = [] then TODO else r)"

definition terminated :: "string list \<Rightarrow> string" where
  "terminated ls = concat (map (\<lambda>l. l @ [CHR 0x0A]) ls)"

definition format_baseline :: "string list \<Rightarrow> baseline \<Rightarrow> string" where
  "format_baseline survivors reasons =
     terminated baseline_header @
     terminated (map (\<lambda>key. key @ SEPARATOR @ reason_for reasons key) (sort survivors))"

text \<open>New survivors, baselined mutants that now die, baseline keys that no longer exist.\<close>

definition compare ::
    "string list \<Rightarrow> baseline \<Rightarrow> string set \<Rightarrow> string set \<Rightarrow> string list \<times> string list \<times> string list" where
  "compare survivors base shard_keys all_keys =
     (let keys = remdups (map fst base) in
      (sort (filter (\<lambda>k. k \<notin> set keys) (remdups survivors)),
       sort (filter (\<lambda>k. k \<in> shard_keys \<and> k \<notin> set survivors) keys),
       sort (filter (\<lambda>k. k \<notin> all_keys) keys)))"

section \<open>The command\<close>

record sweep_args =
  a_update :: bool
  a_list :: bool
  a_shard :: "(nat \<times> nat) option"

text \<open>Exit code and new baseline. \<open>parser.error\<close> exits with 2, a harness or internal error with 1.\<close>

definition sweep_main ::
    "sweep_args \<Rightarrow> mutant list option \<Rightarrow> (mutant list \<Rightarrow> string list option) \<Rightarrow> string option \<Rightarrow> nat \<times> string option" where
  "sweep_main args enumerated run baseline_file =
     (if a_update args \<and> a_shard args \<noteq> None then (2, None)
      else case enumerated of
        None \<Rightarrow> (1, None)
      | Some ms \<Rightarrow>
          if a_list args then (0, None)
          else
            let chosen = (case a_shard args of None \<Rightarrow> ms | Some (i, n) \<Rightarrow> shard_of ms i n);
                base = parse_baseline (case baseline_file of None \<Rightarrow> [] | Some t \<Rightarrow> t)
            in case run chosen of
                 None \<Rightarrow> (1, None)
               | Some survivors \<Rightarrow>
                   if a_update args then (0, Some (format_baseline survivors base))
                   else if compare survivors base (m_key ` set chosen) (m_key ` set ms) = ([], [], [])
                        then (0, None) else (1, None))"

section \<open>What a sweep finds\<close>

text \<open>A mutant survives when the suite passes on the sources with only that mutation applied.\<close>

definition survives :: "(tree \<Rightarrow> suite_end) \<Rightarrow> (string \<Rightarrow> nat \<Rightarrow> string) \<Rightarrow> tree \<Rightarrow> mutant \<Rightarrow> bool" where
  "survives suite mutated_text root_files m =
     (suite (root_files(m_path m \<mapsto> mutated_text (the (root_files (m_path m))) (m_target m))) = Exited 0)"

lemma run_suite_survived: "run_suite r = Some b \<Longrightarrow> b = (r = Exited 0)"
  by (auto simp: run_suite_def split: suite_end.splits if_splits)

lemma sweep_file_result:
  assumes "copy rel = Some original" and "\<forall>m\<in>set ms. m_path m = rel"
  shows "fst (sweep_file suite mutated_text rel original ms copy acc) = copy \<and>
    (\<forall>found. snd (sweep_file suite mutated_text rel original ms copy acc) = Some found \<longrightarrow>
      found = acc @ map m_key (filter (survives suite mutated_text copy) ms))"
  using assms(2)
proof (induction ms arbitrary: acc)
  case (Cons m ms)
  have undone: "(copy(rel \<mapsto> mutated_text original (m_target m)))(rel \<mapsto> original) = copy"
    using assms(1) by (auto simp: fun_eq_iff)
  let ?copy1 = "copy(rel \<mapsto> mutated_text original (m_target m))"
  have step: "sweep_file suite mutated_text rel original (m # ms) copy acc =
    (case run_suite (suite ?copy1) of
       None \<Rightarrow> (copy, None)
     | Some b \<Rightarrow> sweep_file suite mutated_text rel original ms copy (if b then acc @ [m_key m] else acc))"
    by (simp only: sweep_file.simps Let_def undone)
  have surv: "survives suite mutated_text copy m = (suite ?copy1 = Exited 0)"
    using Cons.prems assms(1) by (simp add: survives_def)
  have IH: "fst (sweep_file suite mutated_text rel original ms copy acc') = copy"
    "snd (sweep_file suite mutated_text rel original ms copy acc') = Some found \<Longrightarrow>
      found = acc' @ map m_key (filter (survives suite mutated_text copy) ms)" for acc' found
    using Cons by auto
  show ?case
  proof (cases "run_suite (suite ?copy1)")
    case (Some b)
    with run_suite_survived surv have "b = survives suite mutated_text copy m" by simp
    with IH(1) show ?thesis unfolding step Some by (cases b) (auto dest!: IH(2))
  qed (simp add: step del: sweep_file.simps)
qed simp

definition grouped :: "(string \<times> mutant list) list \<Rightarrow> bool" where
  "grouped d = (\<forall>g\<in>set d. \<forall>m\<in>set (snd g). m_path m = fst g)"

lemma sweep_groups_result:
  "grouped gs \<Longrightarrow>
    fst (sweep_groups suite mutated_text files gs files acc) = files \<and>
    (\<forall>found. snd (sweep_groups suite mutated_text files gs files acc) = Some found \<longrightarrow>
      found = acc @ map m_key (filter (survives suite mutated_text files) (concat (map snd gs))))"
proof (induction gs arbitrary: acc)
  case (Cons g gs)
  obtain rel items where g: "g = (rel, items)" by fastforce
  show ?case
  proof (cases "files rel")
    case (Some original)
    have items: "\<forall>m\<in>set items. m_path m = rel" and gs: "grouped gs"
      using Cons.prems g by (simp_all add: grouped_def)
    note one = sweep_file_result [where copy = files, OF Some items, of suite mutated_text acc]
    obtain copy1 r where r: "sweep_file suite mutated_text rel original items files acc = (copy1, r)" by fastforce
    then have "copy1 = files" using one by simp
    have IH: "fst (sweep_groups suite mutated_text files gs files acc') = files"
      "snd (sweep_groups suite mutated_text files gs files acc') = Some found \<Longrightarrow>
        found = acc' @ map m_key (filter (survives suite mutated_text files) (concat (map snd gs)))" for acc' found
      using Cons.IH [OF gs] by auto
    from r one Some g IH(1) show ?thesis by (cases r) (auto dest!: IH(2))
  qed (use g in simp)
qed simp

lemma grouped_update: "grouped d \<Longrightarrow> \<forall>m\<in>set ms. m_path m = k \<Longrightarrow> grouped (AList.update k ms d)"
  using set_update_subset [of k ms d] by (fastforce simp: grouped_def)

lemma mset_update:
  "mset (concat (map snd (AList.update k ((case map_of d k of None \<Rightarrow> [] | Some ms \<Rightarrow> ms) @ [m]) d))) =
    add_mset m (mset (concat (map snd d)))"
  by (induction d) auto

lemma by_path_groups: "grouped (by_path ms) \<and> mset (concat (map snd (by_path ms))) = mset ms"
proof -
  have "grouped (fold add_to_group ms d) \<and>
      mset (concat (map snd (fold add_to_group ms d))) = mset (concat (map snd d)) + mset ms" if "grouped d" for d
    using that
  proof (induction ms arbitrary: d)
    case (Cons m ms)
    have "m_path x = m_path m" if "map_of d (m_path m) = Some xs" "x \<in> set xs" for x xs
      using Cons.prems map_of_SomeD [OF that(1)] that(2) by (fastforce simp: grouped_def)
    then have "grouped (add_to_group m d)"
      unfolding add_to_group_def using Cons.prems by (intro grouped_update; cases "map_of d (m_path m)"; simp)
    from Cons.IH [OF this] show ?case by (simp add: add_to_group_def mset_update)
  qed simp
  from this [of "[]"] show ?thesis by (simp add: by_path_def grouped_def)
qed

text \<open>C27: A sweep leaves the copy of the sources as it found it, whatever mutants it ran and even when the
  harness fails in the middle; and when it reports, the suite passed on the unmutated copy and the
  survivors are exactly the mutants on whose own mutation, applied alone, the suite passes, each
  reported once.\<close>

theorem sweep_exact:
  assumes "sweep suite mutated_text copy_src p files ms = (copy, r)"
  shows "copy = files \<and> (\<forall>found. r = Some found \<longrightarrow> suite files = Exited 0 \<and>
    mset found = mset (map m_key (filter (survives suite mutated_text files) ms)))"
proof (cases "check_import_source copy_src p \<and> run_suite (suite files) = Some True")
  case True
  then have run: "sweep_groups suite mutated_text files (by_path ms) files [] = (copy, r)"
    using assms by (simp add: sweep_def)
  have "suite files = Exited 0" using True run_suite_survived by blast
  moreover have "mset found = mset (map m_key (filter (survives suite mutated_text files) ms))"
    if "r = Some found" for found
  proof -
    have "found = map m_key (filter (survives suite mutated_text files) (concat (map snd (by_path ms))))"
      using sweep_groups_result [OF conjunct1 [OF by_path_groups], of suite mutated_text files ms "[]"] run that by simp
    moreover have "mset (concat (map snd (by_path ms))) = mset ms" using by_path_groups by blast
    ultimately show ?thesis by (simp only: mset_map mset_filter)
  qed
  moreover have "copy = files"
    using sweep_groups_result [OF conjunct1 [OF by_path_groups], of suite mutated_text files ms "[]"] run by simp
  ultimately show ?thesis by blast
qed (use assms in \<open>auto simp: sweep_def split: if_splits\<close>)

section \<open>Sharding\<close>

lemma compare_passes:
  "compare survivors base shard_keys all_keys = ([], [], []) \<longleftrightarrow>
    set survivors \<subseteq> fst ` set base \<and> (fst ` set base \<inter> shard_keys \<subseteq> set survivors) \<and> fst ` set base \<subseteq> all_keys"
proof -
  have nil: "sort xs = [] \<longleftrightarrow> xs = []" for xs :: "string list" by (metis length_0_conv length_sort)
  show ?thesis
    by (auto simp: compare_def Let_def nil filter_empty_conv)
qed

lemma set_shard_of:
  "m \<in> set (shard_of ms i n) \<longleftrightarrow>
    (\<exists>p<length ms. sort_key m_key ms ! p = m \<and> p mod n = i - 1)"
  by (force simp: shard_of_def Let_def in_set_enumerate_eq image_iff)

lemma shards_cover: "0 < n \<Longrightarrow> (\<Union>i\<in>{1..n}. set (shard_of ms i n)) = set ms"
proof (intro equalityI subsetI)
  fix m assume n: "0 < n" and "m \<in> set ms"
  then obtain p where p: "p < length ms" "sort_key m_key ms ! p = m"
    by (metis in_set_conv_nth length_sort set_sort)
  have "m \<in> set (shard_of ms (Suc (p mod n)) n)" unfolding set_shard_of using p by auto
  moreover have "Suc (p mod n) \<in> {1..n}" using n by (simp add: Suc_leI)
  ultimately show "m \<in> (\<Union>i\<in>{1..n}. set (shard_of ms i n))" by blast
next
  fix m assume "m \<in> (\<Union>i\<in>{1..n}. set (shard_of ms i n))"
  then obtain i p where "p < length ms" "sort_key m_key ms ! p = m" by (auto simp: set_shard_of)
  then show "m \<in> set ms" by (metis length_sort nth_mem set_sort)
qed

text \<open>The gate on one shard, in terms of its survivors.\<close>

lemma shard_passes:
  "compare (map m_key (filter surviving sh)) base (m_key ` set sh) (m_key ` set ms) = ([], [], []) \<longleftrightarrow>
    m_key ` {m \<in> set sh. surviving m} \<subseteq> fst ` set base \<and>
    fst ` set base \<inter> m_key ` set sh \<subseteq> m_key ` {m \<in> set sh. surviving m} \<and> fst ` set base \<subseteq> m_key ` set ms"
  unfolding compare_passes by auto

lemma shards_hold_baseline:
  assumes cover: "(\<Union>i\<in>I. S i) = M" and "I \<noteq> {}" and inj: "inj_on key M"
  shows "(\<forall>i\<in>I. key ` {m \<in> S i. P m} \<subseteq> B \<and> B \<inter> key ` S i \<subseteq> key ` {m \<in> S i. P m} \<and> B \<subseteq> key ` M) \<longleftrightarrow>
    key ` {m \<in> M. P m} = B"
proof
  assume all: "\<forall>i\<in>I. key ` {m \<in> S i. P m} \<subseteq> B \<and> B \<inter> key ` S i \<subseteq> key ` {m \<in> S i. P m} \<and> B \<subseteq> key ` M"
  show "key ` {m \<in> M. P m} = B"
  proof (intro equalityI subsetI)
    fix k assume "k \<in> B"
    then obtain m i where "m \<in> S i" "i \<in> I" "k = key m" using all cover \<open>I \<noteq> {}\<close> by blast
    then have "k \<in> key ` {m \<in> S i. P m}" using all \<open>k \<in> B\<close> by blast
    then show "k \<in> key ` {m \<in> M. P m}" using cover \<open>i \<in> I\<close> by blast
  qed (use all cover in blast)
next
  assume eq: "key ` {m \<in> M. P m} = B"
  show "\<forall>i\<in>I. key ` {m \<in> S i. P m} \<subseteq> B \<and> B \<inter> key ` S i \<subseteq> key ` {m \<in> S i. P m} \<and> B \<subseteq> key ` M"
  proof (intro ballI conjI)
    fix i assume "i \<in> I"
    then have sub: "S i \<subseteq> M" using cover by blast
    with eq show "key ` {m \<in> S i. P m} \<subseteq> B" "B \<subseteq> key ` M" by blast+
    show "B \<inter> key ` S i \<subseteq> key ` {m \<in> S i. P m}"
      using sub inj unfolding eq [symmetric] inj_on_def by blast
  qed
qed

text \<open>C32: Sharding does not change the verdict: the gate passes on every one of the \<open>n\<close> shards exactly when the
  surviving mutants of the whole tree are exactly the mutants the baseline lists.\<close>

theorem shards_agree:
  fixes surviving :: "mutant \<Rightarrow> bool"
  assumes "0 < n" and "distinct (map m_key ms)"
  shows "(\<forall>i\<in>{1..n}. compare (map m_key (filter surviving (shard_of ms i n))) base
      (m_key ` set (shard_of ms i n)) (m_key ` set ms) = ([], [], [])) \<longleftrightarrow>
    m_key ` {m \<in> set ms. surviving m} = fst ` set base"
proof -
  have "{1..n} \<noteq> {}" "inj_on m_key (set ms)" using assms by (simp_all add: distinct_map)
  from shards_hold_baseline [where P = surviving and B = "fst ` set base", OF shards_cover [OF assms(1)] this]
  show ?thesis unfolding shard_passes .
qed

section \<open>The baseline file reads back\<close>

lemma partition_at_end:
  "partition_at sep (k @ sep) = (k, True, []) \<Longrightarrow> partition_at sep (k @ sep @ r) = (k, True, r)"
proof (induction k)
  case Nil
  show ?case by (cases sep; cases r) auto
next
  case (Cons c k)
  have neq: "take (length sep) (c # k @ sep) \<noteq> sep"
    using Cons.prems by (auto split: if_splits)
  then have "partition_at sep (k @ sep) = (k, True, [])"
    using Cons.prems by (auto split: prod.splits)
  moreover have "take (length sep) (c # k @ sep @ r) = take (length sep) (c # k @ sep)"
    using take_append [of "length sep" "c # k @ sep" r] by simp
  ultimately show ?case using neq Cons.IH by simp
qed

definition key_ok :: "string \<Rightarrow> bool" where
  "key_ok k = (k \<noteq> [] \<and> \<not> is_space (hd k) \<and> hd k \<noteq> CHR ''#'' \<and> \<not> is_space (last k) \<and>
     list_all (\<lambda>c. \<not> line_break c) k \<and> partition_at SEPARATOR (k @ SEPARATOR) = (k, True, []))"

definition reason_ok :: "string \<Rightarrow> bool" where
  "reason_ok r = (r \<noteq> [] \<and> \<not> is_space (hd r) \<and> \<not> is_space (last r) \<and> list_all (\<lambda>c. \<not> line_break c) r)"

lemma splitlines_terminated:
  "list_all (list_all (\<lambda>c. \<not> line_break c)) ls \<Longrightarrow> splitlines (terminated ls @ s) = ls @ splitlines s"
  by (induction ls) (simp_all add: terminated_def splitlines_def splitlines_from_line)

lemma rstrip_plain: "s \<noteq> [] \<Longrightarrow> \<not> is_space (last s) \<Longrightarrow> rstrip s = s"
  by (cases s rule: rev_cases) (simp_all add: rstrip_def)

lemma lstrip_plain: "s \<noteq> [] \<Longrightarrow> \<not> is_space (hd s) \<Longrightarrow> lstrip s = s"
  by (cases s) (simp_all add: lstrip_def)

lemma parse_entry:
  assumes "key_ok k" and "reason_ok r"
  shows "parse_baseline_lines ((k @ SEPARATOR @ r) # raws) d = parse_baseline_lines raws (AList.update k r d)"
proof -
  let ?l = "k @ SEPARATOR @ r"
  have strips: "rstrip ?l = ?l" "lstrip ?l = ?l" "strip ?l = ?l" "strip k = k" "strip r = r"
    using assms by (auto simp: key_ok_def reason_ok_def intro!: rstrip_plain lstrip_plain strip_plain)
  have entry: "take 1 ?l \<noteq> ''#''" "?l \<noteq> []" using assms(1) by (cases k; simp add: key_ok_def)+
  have parts: "partition_at SEPARATOR ?l = (k, True, r)"
    using assms(1) by (intro partition_at_end) (simp add: key_ok_def)
  show ?thesis
    unfolding parse_baseline_lines.simps Let_def strips parts
    by (simp only: entry strips simp_thms if_False prod.case)
qed

lemma parse_entries:
  "\<forall>k\<in>set ks. key_ok k \<and> reason_ok (f k) \<Longrightarrow> distinct (map fst d @ ks) \<Longrightarrow>
    parse_baseline_lines (map (\<lambda>k. k @ SEPARATOR @ f k) ks) d = d @ map (\<lambda>k. (k, f k)) ks"
proof (induction ks arbitrary: d)
  case (Cons k ks)
  have "AList.update k (f k) d = d @ [(k, f k)]" using Cons.prems(2) by (intro update_fresh) auto
  moreover have "parse_baseline_lines (map (\<lambda>k. k @ SEPARATOR @ f k) ks) (d @ [(k, f k)]) =
    (d @ [(k, f k)]) @ map (\<lambda>k. (k, f k)) ks"
    using Cons.prems by (intro Cons.IH) auto
  ultimately show ?case using Cons.prems(1) by (simp add: parse_entry del: parse_baseline_lines.simps)
qed simp

lemma parse_header: "parse_baseline_lines (baseline_header @ raws) d = parse_baseline_lines raws d"
proof -
  have skip: "parse_baseline_lines ((CHR ''#'' # l) # ls) d = parse_baseline_lines ls d"
    if "l \<noteq> []" "\<not> is_space (last l)" for l ls
  proof -
    have "rstrip (CHR ''#'' # l) = CHR ''#'' # l" using that by (intro rstrip_plain) auto
    moreover have "lstrip (CHR ''#'' # l) = CHR ''#'' # l" by (intro lstrip_plain) (auto simp: is_space_def)
    ultimately show ?thesis by (simp add: Let_def)
  qed
  show ?thesis unfolding baseline_header_def
    by (simp add: skip is_space_def del: parse_baseline_lines.simps)
qed

lemma reason_for_ok: "\<forall>r\<in>snd ` set reasons. r = [] \<or> reason_ok r \<Longrightarrow> reason_ok (reason_for reasons k)"
proof -
  assume ok: "\<forall>r\<in>snd ` set reasons. r = [] \<or> reason_ok r"
  have "reason_ok TODO" by (simp add: reason_ok_def TODO_def is_space_def line_break_def)
  then show ?thesis using ok
    by (auto simp: reason_for_def split: option.splits dest!: map_of_SomeD)
qed

text \<open>C37: An updated baseline is accepted as it stands: the file \<open>--update\<close> writes reads back as exactly the
  survivors, in order, each with its old reason or the reminder to write one, and the gate passes
  on it.\<close>

theorem baseline_roundtrip:
  assumes "distinct survivors" and "\<forall>k\<in>set survivors. key_ok k"
    and "\<forall>r\<in>snd ` set reasons. r = [] \<or> reason_ok r" and "set survivors \<subseteq> all_keys"
  shows "parse_baseline (format_baseline survivors reasons) = map (\<lambda>k. (k, reason_for reasons k)) (sort survivors) \<and>
    compare survivors (parse_baseline (format_baseline survivors reasons)) shard_keys all_keys = ([], [], [])"
proof -
  let ?lines = "map (\<lambda>k. k @ SEPARATOR @ reason_for reasons k) (sort survivors)"
  have reason: "reason_ok (reason_for reasons k)" for k using reason_for_ok [OF assms(3)] .
  have "list_all (\<lambda>c. \<not> line_break c) SEPARATOR" by (simp add: SEPARATOR_def line_break_def)
  then have clean: "list_all (list_all (\<lambda>c. \<not> line_break c)) ?lines"
    using assms(2) reason by (auto simp: list_all_iff key_ok_def reason_ok_def)
  have head: "list_all (list_all (\<lambda>c. \<not> line_break c)) baseline_header"
    by (simp add: baseline_header_def line_break_def)
  have "splitlines (format_baseline survivors reasons) = baseline_header @ ?lines @ splitlines []"
    unfolding format_baseline_def using splitlines_terminated [OF head] splitlines_terminated [OF clean, of "[]"] by simp
  then have parsed: "parse_baseline (format_baseline survivors reasons) =
      map (\<lambda>k. (k, reason_for reasons k)) (sort survivors)"
    unfolding parse_baseline_def
    using parse_entries [of "sort survivors" "reason_for reasons" "[]"] assms(1,2) reason
    by (simp add: parse_header splitlines_def)
  moreover have "fst ` set (map (\<lambda>k. (k, reason_for reasons k)) (sort survivors)) = set survivors" by force
  ultimately show ?thesis using assms(4) by (simp add: compare_passes)
qed

theorem baseline_roundtrip_witness:
  "parse_baseline (format_baseline [''b#0'', ''a#0''] [(''a#0'', ''same value'')]) =
    [(''a#0'', ''same value''), (''b#0'', TODO)]"
proof -
  have keys: "key_ok ''a#0''" "key_ok ''b#0''"
    by (simp_all add: key_ok_def is_space_def line_break_def SEPARATOR_def)
  have "reason_ok ''same value''" by (simp add: reason_ok_def is_space_def line_break_def)
  with keys have "parse_baseline (format_baseline [''b#0'', ''a#0''] [(''a#0'', ''same value'')]) =
    map (\<lambda>k. (k, reason_for [(''a#0'', ''same value'')] k)) (sort [''b#0'', ''a#0''])"
    using baseline_roundtrip [of "[''b#0'', ''a#0'']" "[(''a#0'', ''same value'')]" UNIV] by simp
  then show ?thesis by (simp add: reason_for_def)
qed

text \<open>Two mutants of one file; the suite notices the first only.\<close>

definition demo_mutants :: "mutant list" where
  "demo_mutants = [\<lparr>m_path = ''src/a.py'', m_target = 0, m_key = ''a#0''\<rparr>, \<lparr>m_path = ''src/a.py'', m_target = 1, m_key = ''a#1''\<rparr>]"

definition demo_suite :: "tree \<Rightarrow> suite_end" where
  "demo_suite t = (if t ''src/a.py'' = Some ''bad'' then Exited 1 else Exited 0)"

theorem sweep_exact_witness:
  "mset [''a#1''] = mset (map m_key (filter
      (survives demo_suite (\<lambda>text t. if t = 0 then ''bad'' else ''same'') [''src/a.py'' \<mapsto> ''good'']) demo_mutants))"
proof -
  let ?files = "[''src/a.py'' \<mapsto> ''good'']"
  have "sublist ''tmp'' ''/tmp/src''" by (simp add: sublist_code)
  then have "sweep demo_suite (\<lambda>text t. if t = 0 then ''bad'' else ''same'') ''tmp'' (Probe 0 ''/tmp/src'')
      ?files demo_mutants = (?files, Some [''a#1''])"
    by (simp add: sweep_def check_import_source_def strip_def lstrip_def rstrip_def is_space_def run_suite_def
        HARNESS_ERROR_CODES_def demo_suite_def demo_mutants_def by_path_def add_to_group_def)
  from sweep_exact [OF this] show ?thesis by simp
qed

theorem shards_agree_witness:
  "compare (map m_key (filter (\<lambda>m. m_target m = 1) (shard_of demo_mutants 2 2))) [(''a#1'', ''why'')]
      (m_key ` set (shard_of demo_mutants 2 2)) (m_key ` set demo_mutants) = ([], [], [])"
proof -
  have "m_key ` {m \<in> set demo_mutants. m_target m = 1} = fst ` set [(''a#1'', ''why'')]"
  proof -
    have "{m \<in> set demo_mutants. m_target m = 1} = {\<lparr>m_path = ''src/a.py'', m_target = 1, m_key = ''a#1''\<rparr>}"
      by (auto simp: demo_mutants_def)
    then show ?thesis by simp
  qed
  with shards_agree [of 2 demo_mutants "\<lambda>m. m_target m = 1" "[(''a#1'', ''why'')]"]
  have "\<forall>i\<in>{1..2}. compare (map m_key (filter (\<lambda>m. m_target m = 1) (shard_of demo_mutants i 2))) [(''a#1'', ''why'')]
      (m_key ` set (shard_of demo_mutants i 2)) (m_key ` set demo_mutants) = ([], [], [])"
    by (simp add: demo_mutants_def)
  from bspec [OF this, of 2] show ?thesis by simp
qed

end
