(* ===== verification/Proctree.thy ===== *)
theory Proctree
  imports Errors
begin

text \<open>
  Running a command and killing what it started (\<open>src/scripts/proctree.py\<close>). What the operating system
  and the child do is the environment: whether calls succeed, when the child ends, where an
  interrupt falls. A run is the sequence of its actions and its result. On POSIX the child leads its
  own process group; on Windows it is in a job object that kills its members when it is terminated
  or closed.
\<close>

section \<open>The environment\<close>

datatype wait_end = Finished int string string | Expired string string | Interrupted exn

record environment =
  win32 :: bool
  job_created :: bool  \<comment> \<open>\<open>CreateJobObjectW\<close> returns a handle\<close>
  job_limited :: bool  \<comment> \<open>\<open>SetInformationJobObject\<close> succeeds\<close>
  popen_error :: "exn option"
  exited_before_adopt :: bool
  assign_error :: "exn option"  \<comment> \<open>an \<open>OSError\<close> of \<open>_assign\<close>\<close>
  exited_after_assign :: bool
  first_wait :: wait_end
  second_wait :: wait_end

datatype action =
    OpenHandle | CloseHandle | Warn | StartProcess | AssignToJob | Wait | ShortWait
  | TerminateJob | KillGroup | KillChild | Reap | ClosePipe nat

datatype run_end = Completed int string string | TimeoutExpired string string | RunRaised exn

section \<open>Job objects\<close>

text \<open>\<open>Job.__init__\<close> and \<open>_create_kill_on_close_job\<close>: the actions and whether the job has a handle.\<close>

definition new_job :: "environment \<Rightarrow> action list \<times> bool" where
  "new_job env =
     (if \<not> win32 env then ([], False)
      else if \<not> job_created env then ([Warn], False)
      else if \<not> job_limited env then ([OpenHandle, Warn, CloseHandle], False)
      else ([OpenHandle], True))"

definition adopt :: "environment \<Rightarrow> bool \<Rightarrow> action list \<times> exn option" where
  "adopt env handle =
     (if win32 env \<and> handle then
        if exited_before_adopt env then ([], None)
        else ([AssignToJob], case assign_error env of
            None \<Rightarrow> None
          | Some e \<Rightarrow> if exited_after_assign env then None else Some e)
      else ([], None))"

definition kill :: "environment \<Rightarrow> bool \<Rightarrow> action list" where
  "kill env handle =
     (if win32 env then if handle then [TerminateJob] else [] else [KillGroup]) @ [KillChild]"

definition close_job :: "environment \<Rightarrow> bool \<Rightarrow> action list" where
  "close_job env handle = (if win32 env \<and> handle then [CloseHandle] else [])"

section \<open>Running\<close>

text \<open>\<open>communicate\<close>, and the handling of a timeout or an interruption of it.\<close>

definition or_else :: "string \<Rightarrow> string \<Rightarrow> string" where
  "or_else a b = (if a \<noteq> [] then a else b)"

definition supervise :: "environment \<Rightarrow> bool \<Rightarrow> action list \<times> run_end" where
  "supervise env handle = (case first_wait env of
     Finished code out err \<Rightarrow> ([Wait], Completed code out err)
   | Interrupted e \<Rightarrow> ([Wait] @ kill env handle @ [Reap], RunRaised e)
   | Expired out err \<Rightarrow> (case second_wait env of
       Finished code out2 err2 \<Rightarrow>
         ([Wait] @ kill env handle @ [ShortWait, Reap], TimeoutExpired out2 err2)
     | Expired out2 err2 \<Rightarrow>
         ([Wait] @ kill env handle @ [ShortWait, Reap], TimeoutExpired (or_else out2 out) (or_else err2 err))
     | Interrupted e \<Rightarrow> ([Wait] @ kill env handle @ [ShortWait], RunRaised e)))"

definition cleanup :: "environment \<Rightarrow> bool \<Rightarrow> action list" where
  "cleanup env handle = kill env handle @ [Reap, ClosePipe 1, ClosePipe 2] @ close_job env handle"

definition run :: "environment \<Rightarrow> action list \<times> run_end" where
  "run env = (let (opens, handle) = new_job env in case popen_error env of
     Some e \<Rightarrow> (opens @ close_job env handle, RunRaised e)
   | None \<Rightarrow> (case adopt env handle of
       (adopting, Some e) \<Rightarrow> (opens @ [StartProcess] @ adopting @ cleanup env handle, RunRaised e)
     | (adopting, None) \<Rightarrow> (case supervise env handle of
         (supervising, r) \<Rightarrow>
           (opens @ [StartProcess] @ adopting @ supervising @ cleanup env handle, r))))"

section \<open>What is left running\<close>

text \<open>
  What the actions mean for the processes the command started, as documented: killing the group
  (POSIX), terminating a job and closing its last handle (Windows) end every member.
\<close>

fun alive_after :: "action list \<Rightarrow> bool \<Rightarrow> bool" where
  "alive_after [] alive = alive"
| "alive_after (StartProcess # as) alive = alive_after as True"
| "alive_after (KillGroup # as) alive = alive_after as False"
| "alive_after (TerminateJob # as) alive = alive_after as False"
| "alive_after (_ # as) alive = alive_after as alive"

lemma alive_after_append: "alive_after (xs @ ys) b = alive_after ys (alive_after xs b)"
  by (induction xs b rule: alive_after.induct) auto

lemma cleanup_kills: "\<not> win32 env \<or> handle \<Longrightarrow> \<not> alive_after (cleanup env handle) b"
  by (auto simp: cleanup_def kill_def close_job_def)

lemma handles_balanced:
  "count_list (fst (run env)) OpenHandle = count_list (fst (run env)) CloseHandle"
  by (auto simp: run_def new_job_def adopt_def supervise_def cleanup_def kill_def close_job_def
      count_list_append split: option.splits wait_end.splits)

lemma supervise_short:
  "ShortWait \<in> set (fst (supervise env handle)) \<Longrightarrow>
    \<exists>rest. fst (supervise env handle) = [Wait] @ kill env handle @ ShortWait # rest \<and> ShortWait \<notin> set rest"
  by (auto simp: supervise_def kill_def split: wait_end.splits if_splits)

lemma kill_kills: "\<not> win32 env \<or> handle \<Longrightarrow> \<not> alive_after (kill env handle) b"
  by (auto simp: kill_def)

lemma quiet_ends:
  "ShortWait \<notin> set (fst (new_job env))" "ShortWait \<notin> set (close_job env handle)" "ShortWait \<notin> set (cleanup env handle)"
  "ShortWait \<notin> set (kill env handle)" "ShortWait \<notin> set (fst (adopt env handle))"
  "\<not> alive_after (fst (new_job env)) False" "\<not> alive_after (close_job env handle) False"
  by (auto simp: new_job_def close_job_def cleanup_def kill_def adopt_def split: option.splits)

text \<open>Nothing is waited for again before the tree is killed.\<close>

lemma short_wait_after_kill:
  assumes "new_job env = (opens, handle)" "fst (run env) = before @ ShortWait # after" "\<not> win32 env \<or> handle"
  shows "\<not> alive_after before False"
proof -
  have quiet: "ShortWait \<notin> set opens" using quiet_ends(1) [of env] assms(1) by simp
  have "ShortWait \<in> set (fst (run env))" using assms(2) by simp
  then obtain adopting where no: "adopt env handle = (adopting, None)" "ShortWait \<in> set (fst (supervise env handle))"
    and act: "fst (run env) = opens @ [StartProcess] @ adopting @ fst (supervise env handle) @ cleanup env handle"
    using assms(1) quiet quiet_ends(2,3) [of env handle] quiet_ends(5) [of env handle]
    by (auto simp: run_def split: option.splits prod.splits)
  obtain rest where sup: "fst (supervise env handle) = [Wait] @ kill env handle @ ShortWait # rest"
    and rest: "ShortWait \<notin> set rest" using supervise_short [OF no(2)] by blast
  let ?p = "opens @ [StartProcess] @ adopting @ [Wait] @ kill env handle"
  have "ShortWait \<notin> set ?p" using quiet no(1) quiet_ends(4) [of env handle] quiet_ends(5) [of env handle] by auto
  moreover have "?p @ ShortWait # (rest @ cleanup env handle) = before @ ShortWait # after"
    using assms(2) act sup by simp
  moreover have "ShortWait \<notin> set (rest @ cleanup env handle)" using rest quiet_ends(3) [of env handle] by simp
  ultimately have "before = ?p" by (metis append_Cons_eq_iff)
  then show ?thesis using kill_kills [OF assms(3)] by (simp add: alive_after_append)
qed


text \<open>A POSIX run whose command times out and whose pipes stay open.\<close>

definition demo_env :: environment where
  "demo_env = \<lparr>win32 = False, job_created = False, job_limited = False, popen_error = None,
     exited_before_adopt = False, assign_error = None, exited_after_assign = False,
     first_wait = Expired ''out'' [], second_wait = Expired [] ''err''\<rparr>"


end
