(* ===== verification/Sweep_Setup.thy ===== *)
theory Sweep_Setup
  imports Mutation_Sweep Proctree
begin

text \<open>
  What surrounds a sweep of the mutation gate (\<open>src/scripts/mutation_sweep.py\<close>): which sources it mutates, the
  environment the tests run in, and how a supervised run (\<open>Proctree\<close>) becomes the answer of the suite or of the
  import probe. A path is its list of parts; the process environment is a map; which directories
  hold the package and the listing of the package's directory are arguments.
\<close>

section \<open>The project\<close>

type_synonym path = "string list"

record project =
  pr_root :: path
  pr_package :: string
  pr_exclude :: "string list"
  pr_test_args :: "string list"
  pr_timeout :: pyfloat

definition TEST_ARGS :: "string list" where
  "TEST_ARGS = [''-q'', ''-x'', ''-p'', ''no:cacheprovider'', ''-p'', ''no:randomly'', ''-m'', ''not meta and not differential'']"

definition default_project :: "path \<Rightarrow> project" where
  "default_project ROOT =
     \<lparr>pr_root = ROOT, pr_package = ''seedloop'', pr_exclude = [''demos''], pr_test_args = TEST_ARGS,
      pr_timeout = Fin 300\<rparr>"

definition package_dir :: "project \<Rightarrow> path" where
  "package_dir pr = pr_root pr @ [''src'', pr_package pr]"

text \<open>\<open>found\<close> is what \<open>rglob("*.py")\<close> yields below the package directory.\<close>

definition sources :: "project \<Rightarrow> path list \<Rightarrow> path list" where
  "sources pr found = sort (filter (\<lambda>p. ''__pycache__'' \<notin> set p \<and>
     \<not> list_ex (\<lambda>part. part \<in> set (pr_exclude pr)) (drop (length (package_dir pr)) p)) found)"

section \<open>The copy\<close>

text \<open>
  A directory is its files by their path below it. \<open>copytree\<close> leaves out what matches an ignored pattern, at every
  level; before each run the caches are removed with everything in them.
\<close>

type_synonym directory = "path \<Rightarrow> string option"

definition ignored :: "string \<Rightarrow> bool" where
  "ignored name = (name = ''__pycache__'' \<or> suffix ''.egg-info'' name)"

definition copied :: "directory \<Rightarrow> directory" where
  "copied files p = (if list_ex ignored p then None else files p)"

definition without_caches :: "directory \<Rightarrow> directory" where
  "without_caches files p = (if ''__pycache__'' \<in> set (butlast p) then None else files p)"

text \<open>The copy starts without caches, so removing them changes nothing but what a run has written; and every
  source that is mutated is in the copy as it is in the project.\<close>

lemma without_caches_copied: "without_caches (copied files) = copied files"
proof
  fix p
  show "without_caches (copied files) p = copied files p"
    by (cases p rule: rev_cases) (auto simp: without_caches_def copied_def ignored_def list_ex_iff)
qed

lemma sources_copied:
  assumes "pr_root pr @ [''src''] @ q \<in> set (sources pr found)" and "\<forall>part\<in>set q. \<not> suffix ''.egg-info'' part"
  shows "without_caches (copied files) q = files q"
  using assms unfolding without_caches_copied by (auto simp: copied_def sources_def ignored_def list_ex_iff)

section \<open>The environment of the tests\<close>

type_synonym environ = "string \<Rightarrow> string option"

definition rstrip_of :: "char \<Rightarrow> string \<Rightarrow> string" where
  "rstrip_of c s = rev (dropWhile (\<lambda>x. x = c) (rev s))"

definition env_for :: "char \<Rightarrow> string \<Rightarrow> environ \<Rightarrow> environ" where
  "env_for pathsep copy_src environ =
     (let inherited = (case environ ''PYTHONPATH'' of None \<Rightarrow> [] | Some p \<Rightarrow> p)
      in environ(''PYTHONPATH'' \<mapsto> rstrip_of pathsep (copy_src @ [pathsep] @ inherited),
         ''PYTHONHASHSEED'' \<mapsto> ''0'', ''SEEDLOOP_MUTATION_COPY'' \<mapsto> copy_src,
         ''PYTHONDONTWRITEBYTECODE'' \<mapsto> ''1''))"

section \<open>From a supervised run to an answer\<close>

text \<open>A timeout is an answer of both; any other exception of the run propagates.\<close>

definition suite_of :: "run_end \<Rightarrow> exn + suite_end" where
  "suite_of r = (case r of
     Completed code out err \<Rightarrow> Inr (Exited code)
   | TimeoutExpired out err \<Rightarrow> Inr TimedOut
   | RunRaised e \<Rightarrow> Inl e)"

definition probe_of :: "run_end \<Rightarrow> exn + probe" where
  "probe_of r = (case r of
     Completed code out err \<Rightarrow> Inr (Probe code out)
   | TimeoutExpired out err \<Rightarrow> Inr ProbeTimedOut
   | RunRaised e \<Rightarrow> Inl e)"

definition suite_run :: "environment \<Rightarrow> action list \<times> (exn + suite_end)" where
  "suite_run env = map_prod id suite_of (run env)"

definition import_probe :: "environment \<Rightarrow> action list \<times> (exn + probe)" where
  "import_probe env = map_prod id probe_of (run env)"

section \<open>What is measured is the copy\<close>

text \<open>
  Python imports a package from the first directory of \<open>PYTHONPATH\<close> that holds it (the current directory comes
  before them; it is the project's root, whose packages are below its \<open>src\<close>).
\<close>

fun split_on :: "char \<Rightarrow> string \<Rightarrow> string list" where
  "split_on c [] = [[]]"
| "split_on c (x # xs) = (if x = c then [] # split_on c xs
     else case split_on c xs of [] \<Rightarrow> [[x]] | d # ds \<Rightarrow> (x # d) # ds)"

definition imported_from :: "char \<Rightarrow> (string \<Rightarrow> bool) \<Rightarrow> environ \<Rightarrow> string option" where
  "imported_from pathsep holds_package env = (case env ''PYTHONPATH'' of
     None \<Rightarrow> None | Some p \<Rightarrow> find holds_package (split_on pathsep p))"

lemma split_on_plain: "c \<notin> set xs \<Longrightarrow> split_on c xs = [xs]"
  by (induction xs) auto

lemma split_on_append: "c \<notin> set xs \<Longrightarrow> split_on c (xs @ c # ys) = xs # split_on c ys"
  by (induction xs) auto

lemma rstrip_of_snoc: "x \<noteq> c \<Longrightarrow> rstrip_of c (xs @ [x]) = xs @ [x]"
  by (simp add: rstrip_of_def)

lemma rstrip_of_sep: "rstrip_of c (xs @ [c]) = rstrip_of c xs"
  by (simp add: rstrip_of_def)

lemma rstrip_of_append:
  assumes "xs \<noteq> []" "c \<notin> set xs"
  shows "rstrip_of c (xs @ [c] @ ys) = (if rstrip_of c ys = [] then xs else xs @ [c] @ rstrip_of c ys)"
proof (induction ys rule: rev_induct)
  case Nil
  obtain zs z where "xs = zs @ [z]" "z \<noteq> c" using assms by (cases xs rule: rev_cases) auto
  then show ?case using rstrip_of_snoc [of z c zs] rstrip_of_sep [of c xs] by (simp add: rstrip_of_def)
next
  case (snoc y ys)
  then show ?case
    using rstrip_of_snoc [of y c ys] rstrip_of_snoc [of y c "xs @ c # ys"]
      rstrip_of_sep [of c ys] rstrip_of_sep [of c "xs @ c # ys"]
    by (cases "y = c") auto
qed

lemma tests_import_copy:
  assumes "copy_src \<noteq> []" "pathsep \<notin> set copy_src" "holds_package copy_src"
  shows "imported_from pathsep holds_package (env_for pathsep copy_src environ) = Some copy_src"
  using assms rstrip_of_append [of copy_src pathsep, simplified]
  by (auto simp: imported_from_def env_for_def Let_def split_on_plain split_on_append)

lemma other_variables:
  "name \<notin> {''PYTHONPATH'', ''PYTHONHASHSEED'', ''SEEDLOOP_MUTATION_COPY'', ''PYTHONDONTWRITEBYTECODE''} \<Longrightarrow>
    env_for pathsep copy_src environ name = environ name"
  by (simp add: env_for_def Let_def)

end
