(* ===== verification/Coverage_Gate.thy ===== *)
theory Coverage_Gate
  imports Prelude PyFloat PyText "HOL-Library.List_Lexorder" "HOL-Library.Char_ord"
begin

text \<open>
  The per-file coverage floors (\<open>src/scripts/check_coverage.py\<close>): the floors file is parsed, compared with
  a report, and rewritten with \<open>--raise\<close>. A report maps a file to a finite binary64 percentage; floors
  are whole numbers. The error messages are values, and \<open>SystemExit\<close> with a message is exit code 1.
\<close>

type_synonym floors = "(string \<times> nat) list"
type_synonym report = "(string \<times> real) list"

definition RAISE_MARGIN :: real where
  "RAISE_MARGIN = 2"

section \<open>The floors file\<close>

text \<open>The lines from number \<open>n\<close> on; \<open>Inl n\<close> is the complaint about line \<open>n\<close>.\<close>

fun read_floor_lines :: "nat \<Rightarrow> string list \<Rightarrow> string list \<Rightarrow> floors \<Rightarrow> nat + (string list \<times> floors)" where
  "read_floor_lines n [] header fl = Inr (header, fl)"
| "read_floor_lines n (raw # raws) header fl =
     (let line = strip (takeWhile (\<lambda>c. c \<noteq> CHR ''#'') raw) in
      if line = [] then
        read_floor_lines (Suc n) raws
          (if take 1 raw = ''#'' \<and> fl = [] then header @ [raw] else header) fl
      else case split_words line of
        [name, value] \<Rightarrow>
          if isdigit value \<and> parse_nat value \<le> 100
          then read_floor_lines (Suc n) raws header (AList.update name (parse_nat value) fl)
          else Inl n
      | _ \<Rightarrow> Inl n)"

definition read_floors :: "string \<Rightarrow> nat + (string list \<times> floors)" where
  "read_floors text = read_floor_lines 1 (splitlines text) [] []"

section \<open>The report\<close>

text \<open>The decoded JSON: a percentage for each file as it was measured; a separator may be a backslash.\<close>

definition posix_name :: "string \<Rightarrow> string" where
  "posix_name name = map (\<lambda>c. if c = CHR 0x5C then CHR ''/'' else c) name"

definition read_report :: "(string \<times> real) list \<Rightarrow> report" where
  "read_report files = fold (\<lambda>(name, percent) report. AList.update (posix_name name) percent report) files []"

lemma map_of_read_report:
  "map_of (read_report files) = map_of (rev (map (\<lambda>(name, percent). (posix_name name, percent)) files))"
proof -
  have "map_of (fold (\<lambda>(name, percent) report. AList.update (posix_name name) percent report) files r) =
      map_of r ++ map_of (rev (map (\<lambda>(name, percent). (posix_name name, percent)) files))" for r
    by (induction files arbitrary: r) (auto simp: update_conv' map_add_assoc)
  then show ?thesis by (simp add: read_report_def)
qed

section \<open>The check\<close>

datatype problem = NoFloor string real | BelowFloor string real nat | NotMeasured string

datatype hint = RaiseFloor string real nat int

definition report_names :: "('a :: linorder \<times> 'b) list \<Rightarrow> 'a list" where
  "report_names report = sort (remdups (map fst report))"

text \<open>\<open>percent + 1e-9 < floor\<close> and \<open>percent >= floor + RAISE_MARGIN\<close>, in floats.\<close>

definition below_floor :: "real \<Rightarrow> nat \<Rightarrow> bool" where
  "below_floor percent fl = (rnd (percent + rnd (1 / 10 ^ 9)) < real fl)"

definition well_above :: "real \<Rightarrow> nat \<Rightarrow> bool" where
  "well_above percent fl = (rnd (real fl + RAISE_MARGIN) \<le> percent)"

fun check_files :: "string list \<Rightarrow> report \<Rightarrow> floors \<Rightarrow> problem list \<times> hint list" where
  "check_files [] report fl = ([], [])"
| "check_files (name # names) report fl =
     (let percent = the (map_of report name); (errors, notes) = check_files names report fl in
      case map_of fl name of
        None \<Rightarrow> (NoFloor name percent # errors, notes)
      | Some f \<Rightarrow>
          if below_floor percent f then (BelowFloor name percent f # errors, notes)
          else if well_above percent f then (errors, RaiseFloor name percent f \<lfloor>percent\<rfloor> # notes)
          else (errors, notes))"

definition check_report :: "report \<Rightarrow> floors \<Rightarrow> problem list \<times> hint list" where
  "check_report report fl =
     (let (errors, notes) = check_files (report_names report) report fl
      in (errors @ map NotMeasured (filter (\<lambda>n. map_of report n = None) (report_names fl)), notes))"

definition raised :: "report \<Rightarrow> floors \<Rightarrow> floors" where
  "raised report fl = map (\<lambda>name.
     (name, max (case map_of fl name of None \<Rightarrow> 0 | Some f \<Rightarrow> f) (nat \<lfloor>the (map_of report name)\<rfloor>)))
     (report_names report)"

definition floor_line :: "string \<times> nat \<Rightarrow> string" where
  "floor_line e = fst e @ '' '' @ str_nat (snd e)"

definition floors_text :: "string list \<Rightarrow> floors \<Rightarrow> string" where
  "floors_text header fl = join_lines (header @ map floor_line fl) @ [CHR 0x0A]"

text \<open>The exit code and what is written to the floors file.\<close>

definition coverage_main :: "bool \<Rightarrow> string \<Rightarrow> report \<Rightarrow> nat \<times> string option" where
  "coverage_main raise_floors text report = (case read_floors text of
     Inl n \<Rightarrow> (1, None)
   | Inr (header, fl) \<Rightarrow>
       if raise_floors then (0, Some (floors_text header (raised report fl)))
       else (if fst (check_report report fl) = [] then 0 else 1, None))"

section \<open>What the check accepts\<close>

lemma set_report_names [simp]: "set (report_names xs) = fst ` set xs"
  by (simp add: report_names_def)

lemma check_files_errors:
  "fst (check_files names report fl) = [] \<longleftrightarrow>
    (\<forall>name\<in>set names. \<exists>f. map_of fl name = Some f \<and> \<not> below_floor (the (map_of report name)) f)"
  by (induction names) (auto simp: Let_def split: prod.splits option.splits)

lemma no_problems_iff:
  "fst (check_report report fl) = [] \<longleftrightarrow> fst ` set fl = fst ` set report \<and>
    (\<forall>name f. map_of fl name = Some f \<longrightarrow> \<not> below_floor (the (map_of report name)) f)"
proof -
  let ?ok = "\<lambda>name. \<exists>f. map_of fl name = Some f \<and> \<not> below_floor (the (map_of report name)) f"
  let ?measured = "fst ` set report" and ?listed = "fst ` set fl"
  have measured: "n \<in> ?measured \<longleftrightarrow> map_of report n \<noteq> None" for n by (metis map_of_eq_None_iff)
  have listed: "n \<in> ?listed \<longleftrightarrow> map_of fl n \<noteq> None" for n by (metis map_of_eq_None_iff)
  have "fst (check_report report fl) =
      fst (check_files (report_names report) report fl) @
      map NotMeasured (filter (\<lambda>n. map_of report n = None) (report_names fl))"
    by (simp add: check_report_def split: prod.splits)
  then have A: "fst (check_report report fl) = [] \<longleftrightarrow>
    (\<forall>name\<in>?measured. ?ok name) \<and> (\<forall>n\<in>?listed. map_of report n \<noteq> None)"
    unfolding append_is_Nil_conv map_is_Nil_conv filter_empty_conv check_files_errors set_report_names
    by (simp only: append_is_Nil_conv map_is_Nil_conv filter_empty_conv check_files_errors set_report_names)
  show ?thesis
  proof
    assume "fst (check_report report fl) = []"
    note both = this [unfolded A]
    have ok: "?ok n" if "n \<in> ?measured" for n using conjunct1 [OF both] that by (rule bspec)
    have sub: "n \<in> ?measured" if "n \<in> ?listed" for n
      unfolding measured using conjunct2 [OF both] that by (rule bspec)
    have "?measured \<subseteq> ?listed" using ok listed by (metis option.distinct(1) subsetI)
    moreover have "\<not> below_floor (the (map_of report name)) f" if "map_of fl name = Some f" for name f
      using ok [of name] sub [of name] listed [of name] that by auto
    ultimately show "?listed = ?measured \<and> (\<forall>name f. map_of fl name = Some f \<longrightarrow>
        \<not> below_floor (the (map_of report name)) f)" using sub by blast
  next
    assume R: "?listed = ?measured \<and> (\<forall>name f. map_of fl name = Some f \<longrightarrow>
        \<not> below_floor (the (map_of report name)) f)"
    then have "?ok n" if "n \<in> ?measured" for n using that listed [of n] by auto
    moreover have "map_of report n \<noteq> None" if "n \<in> ?listed" for n using that R measured by simp
    ultimately show "fst (check_report report fl) = []" unfolding A by blast
  qed
qed

text \<open>The coverage check passes exactly when the floors file is well formed, names exactly the measured
  files, and no file is below its floor; and it never writes.\<close>

lemma coverage_gate:
  "coverage_main False text report = (0, None) \<longleftrightarrow>
    (\<exists>header fl. read_floors text = Inr (header, fl) \<and> fst ` set fl = fst ` set report \<and>
      (\<forall>name f. map_of fl name = Some f \<longrightarrow> \<not> below_floor (the (map_of report name)) f))"
  by (auto simp: coverage_main_def no_problems_iff split: sum.splits)

text \<open>A floors file with one comment and one file, and a report that meets it.\<close>

lemma demo_read: "read_floors ''# c\<newline>a 10\<newline>'' = Inr ([''# c''], [(''a'', 10)])"
  by (simp add: read_floors_def splitlines_def line_break_def strip_def lstrip_def rstrip_def is_space_def
      split_words.simps isdigit_def is_digit_def parse_nat_def digit_value_def)

lemma demo_above: "\<not> below_floor 50 10"
proof -
  have "rnd 10 \<le> rnd (50 + rnd (1 / 10 ^ 9))" by (intro rnd_mono) (use rnd_nonneg [of "1 / 10 ^ 9"] in simp)
  moreover have "rnd 10 = 10" using is_double_numeral [of "num.Bit0 (num.Bit1 (num.Bit0 num.One))"] by (simp add: is_double_def)
  ultimately show ?thesis by (simp add: below_floor_def)
qed

lemma coverage_gate_witness: "coverage_main False ''# c\<newline>a 10\<newline>'' [(''a'', 50)] = (0, None)"
  using demo_above by (simp add: coverage_gate demo_read)

section \<open>Raising the floors\<close>

lemma map_of_raised:
  "map_of (raised report fl) name =
    (if name \<in> fst ` set report
     then Some (max (case map_of fl name of None \<Rightarrow> 0 | Some f \<Rightarrow> f) (nat \<lfloor>the (map_of report name)\<rfloor>))
     else None)"
proof -
  have "map_of (map (\<lambda>n. (n, g n)) ns) name = (if name \<in> set ns then Some (g name) else None)"
    for g :: "string \<Rightarrow> nat" and ns by (induction ns) auto
  then show ?thesis by (simp add: raised_def)
qed

lemma below_own_floor:
  assumes "is_double p" and "0 \<le> p"
  shows "\<not> below_floor p (nat \<lfloor>p\<rfloor>)"
proof -
  have "0 \<le> rnd (1 / 10 ^ 9)" by (intro rnd_nonneg) simp
  then have "rnd p \<le> rnd (p + rnd (1 / 10 ^ 9))" by (intro rnd_mono) simp
  moreover have "rnd p = p" using assms(1) by (simp add: is_double_def)
  moreover have "real (nat \<lfloor>p\<rfloor>) \<le> p" using assms(2) by linarith
  ultimately show ?thesis by (simp add: below_floor_def)
qed

lemma read_header:
  "list_all (\<lambda>h. take 1 h = ''#'') hs \<Longrightarrow>
    read_floor_lines n (hs @ rest) header [] = read_floor_lines (n + length hs) rest (header @ hs) []"
proof (induction hs arbitrary: n header)
  case (Cons h hs)
  then obtain cs where h: "h = CHR ''#'' # cs" by (cases h) auto
  have "strip [] = []" by (simp add: strip_def lstrip_def rstrip_def)
  with Cons h show ?case by simp
qed simp

definition floor_ok :: "string \<times> nat \<Rightarrow> bool" where
  "floor_ok e = (plain_word (fst e) \<and> CHR ''#'' \<notin> set (fst e) \<and> snd e \<le> 100)"

lemma read_floor_line:
  assumes "floor_ok (name, v)"
  shows "read_floor_lines n (floor_line (name, v) # rest) header fl =
    read_floor_lines (Suc n) rest header (AList.update name v fl)"
proof -
  have "\<not> is_digit (CHR ''#'')" by (simp add: is_digit_def)
  then have "CHR ''#'' \<notin> set (str_nat v)" using digits_str_nat by blast
  then have tw: "takeWhile (\<lambda>c. c \<noteq> CHR ''#'') (floor_line (name, v)) = floor_line (name, v)"
    using assms by (auto simp: takeWhile_eq_all_conv floor_line_def floor_ok_def)
  have line: "strip (floor_line (name, v)) = floor_line (name, v)"
    "split_words (floor_line (name, v)) = [name, str_nat v]" "floor_line (name, v) \<noteq> []"
    using assms by (simp_all add: floor_line_def floor_ok_def strip_two_words split_two_words)
  show ?thesis
    unfolding read_floor_lines.simps Let_def tw line(1,2) using line(3) assms by (simp add: floor_ok_def)
qed

lemma read_floors_body:
  "list_all floor_ok es \<Longrightarrow> distinct (map fst (fl @ es)) \<Longrightarrow>
    read_floor_lines n (map floor_line es) header fl = Inr (header, fl @ es)"
proof (induction es arbitrary: n fl)
  case (Cons e es)
  obtain name v where e: "e = (name, v)" by fastforce
  have "AList.update name v fl = fl @ [(name, v)]" using Cons.prems(2) e by (intro update_fresh) auto
  moreover have "read_floor_lines (Suc n) (map floor_line es) header ((fl @ [e])) = Inr (header, (fl @ [e]) @ es)"
    using Cons.prems by (intro Cons.IH) auto
  ultimately show ?case using Cons.prems(1) e by (simp add: read_floor_line del: read_floor_lines.simps)
qed simp

text \<open>A header that is read consists of comment lines of the text, and floors are whole percents.\<close>

lemma read_floor_lines_ok:
  "read_floor_lines n raws header fl = Inr (header', fl') \<Longrightarrow>
    list_all (\<lambda>h. take 1 h = ''#'' \<and> h \<in> R) header \<Longrightarrow> set raws \<subseteq> R \<Longrightarrow> (\<forall>e\<in>set fl. snd e \<le> 100) \<Longrightarrow>
    list_all (\<lambda>h. take 1 h = ''#'' \<and> h \<in> R) header' \<and> (\<forall>e\<in>set fl'. snd e \<le> 100)"
proof (induction n raws header fl rule: read_floor_lines.induct)
  case (2 n raw raws header fl)
  let ?line = "strip (takeWhile (\<lambda>c. c \<noteq> CHR ''#'') raw)"
  show ?case
  proof (cases "?line = []")
    case True
    with 2 show ?thesis by (cases "take 1 raw = ''#'' \<and> fl = []") auto
  next
    case False
    with "2.prems"(1) obtain name v where w: "split_words ?line = [name, v]" "isdigit v" "parse_nat v \<le> 100"
      by (auto simp: Let_def split: list.splits if_splits)
    have "\<forall>e\<in>set (AList.update name (parse_nat v) fl). snd e \<le> 100"
      using "2.prems"(4) w(3) set_update_subset [of name "parse_nat v" fl] by auto
    with False w 2 show ?thesis by (simp add: Let_def)
  qed
qed simp

text \<open>What a raise writes is read back as it was.\<close>

lemma raised_keys: "fst ` set (raised report fl) = fst ` set report" "distinct (map fst (raised report fl))"
  by (simp_all add: raised_def image_image o_def report_names_def)

lemma raised_floors_ok:
  assumes names: "\<And>name. name \<in> fst ` set report \<Longrightarrow> plain_word name \<and> CHR ''#'' \<notin> set name"
    and percents: "\<And>p. p \<in> snd ` set report \<Longrightarrow> p \<le> 100" and small: "\<forall>e\<in>set fl. snd e \<le> 100"
  shows "list_all floor_ok (raised report fl)"
proof -
  have "floor_ok e" if "e \<in> set (raised report fl)" for e
  proof -
    let ?old = "case map_of fl (fst e) of None \<Rightarrow> 0 | Some f \<Rightarrow> f" and ?p = "the (map_of report (fst e))"
    from that have k: "fst e \<in> fst ` set report" and v: "snd e = max ?old (nat \<lfloor>?p\<rfloor>)"
      by (auto simp: raised_def rev_image_eqI)
    then obtain p where p: "map_of report (fst e) = Some p" by (metis map_of_eq_None_iff option.exhaust)
    then have "p \<in> snd ` set report" by (metis map_of_SomeD rev_image_eqI snd_conv)
    then have "nat \<lfloor>p\<rfloor> \<le> 100" using percents [of p] by linarith
    moreover have "?old \<le> 100" using small by (auto split: option.splits dest!: map_of_SomeD)
    ultimately show ?thesis using names [OF k] v p by (simp add: floor_ok_def)
  qed
  then show ?thesis by (simp add: list_all_iff)
qed

lemma floor_lines_clean:
  assumes "list_all floor_ok fl"
  shows "list_all (list_all (\<lambda>c. \<not> line_break c)) (map floor_line fl)"
proof -
  have "\<not> is_space c \<Longrightarrow> \<not> line_break c" for c using line_break_space by blast
  moreover have "\<not> line_break (CHR '' '')" by (simp add: line_break_def)
  ultimately show ?thesis
    using assms plain_word_str_nat by (fastforce simp: list_all_iff floor_ok_def floor_line_def plain_word_def)
qed

lemma floors_read_back:
  assumes header: "list_all (\<lambda>h. take 1 h = ''#'') header" "list_all (list_all (\<lambda>c. \<not> line_break c)) header"
    and fl: "list_all floor_ok fl" "distinct (map fst fl)"
  shows "read_floors (floors_text header fl) = Inr (header, fl)"
proof (cases "header @ map floor_line fl = []")
  case True
  then show ?thesis
    by (simp add: floors_text_def read_floors_def splitlines_def line_break_def strip_def lstrip_def rstrip_def)
next
  case False
  have "splitlines (floors_text header fl) = header @ map floor_line fl"
    unfolding floors_text_def using splitlines_join header(2) floor_lines_clean [OF fl(1)] False by simp
  moreover have "read_floor_lines n (map floor_line fl) header [] = Inr (header, fl)" for n
    using read_floors_body [OF fl(1), of "[]"] fl(2) by simp
  ultimately show ?thesis using read_header [OF header(1), of 1 _ "[]"] by (simp add: read_floors_def)
qed

lemma read_floors_clean:
  assumes "read_floors text = Inr (header, fl)"
  shows "list_all (\<lambda>h. take 1 h = ''#'') header" "list_all (list_all (\<lambda>c. \<not> line_break c)) header"
    "\<forall>e\<in>set fl. snd e \<le> 100"
proof -
  have "list_all (\<lambda>h. take 1 h = ''#'' \<and> h \<in> set (splitlines text)) header \<and> (\<forall>e\<in>set fl. snd e \<le> 100)"
    using assms unfolding read_floors_def by (rule read_floor_lines_ok) simp_all
  then show "list_all (\<lambda>h. take 1 h = ''#'') header" "list_all (list_all (\<lambda>c. \<not> line_break c)) header"
    "\<forall>e\<in>set fl. snd e \<le> 100"
    using splitlines_clean by (auto simp: list_all_iff)
qed

lemma raised_passes:
  assumes percents: "\<And>p. p \<in> snd ` set report \<Longrightarrow> is_double p \<and> 0 \<le> p \<and> p \<le> 100"
    and old: "\<forall>name f. name \<in> fst ` set report \<longrightarrow> map_of fl name = Some f \<longrightarrow> \<not> below_floor (the (map_of report name)) f"
  shows "fst (check_report report (raised report fl)) = []"
proof -
  have "\<not> below_floor (the (map_of report name)) f'" if new: "map_of (raised report fl) name = Some f'" for name f'
  proof -
    from new have k: "name \<in> fst ` set report" by (auto simp: map_of_raised split: if_splits)
    then obtain p where p: "map_of report name = Some p" by (metis map_of_eq_None_iff option.exhaust)
    then have "p \<in> snd ` set report" by (metis map_of_SomeD rev_image_eqI snd_conv)
    then have own: "\<not> below_floor p (nat \<lfloor>p\<rfloor>)" using percents below_own_floor by blast
    have zero: "\<not> below_floor p 0" using own by (simp add: below_floor_def)
    show ?thesis
      using new k p own zero old by (cases "map_of fl name") (auto simp: map_of_raised max_def split: if_splits)
  qed
  then show ?thesis using raised_keys(1) no_problems_iff [of report "raised report fl"] by simp
qed

text \<open>C36: Floors only go up: a raise keeps a floor for exactly the measured files, lowers none, and writes a
  file that reads back as the same comment header and the raised floors; and when no measured file
  was below its floor, the check passes on what was written.\<close>

theorem raise_ratchets:
  assumes main: "coverage_main True text report = (code, Some text')" and read: "read_floors text = Inr (header, fl)"
    and names: "\<And>name. name \<in> fst ` set report \<Longrightarrow> plain_word name \<and> CHR ''#'' \<notin> set name"
    and percents: "\<And>p. p \<in> snd ` set report \<Longrightarrow> is_double p \<and> 0 \<le> p \<and> p \<le> 100"
  shows "code = 0 \<and> read_floors text' = Inr (header, raised report fl) \<and>
    fst ` set (raised report fl) = fst ` set report \<and>
    (\<forall>name f f'. map_of fl name = Some f \<longrightarrow> map_of (raised report fl) name = Some f' \<longrightarrow> f \<le> f') \<and>
    ((\<forall>name f. name \<in> fst ` set report \<longrightarrow> map_of fl name = Some f \<longrightarrow>
        \<not> below_floor (the (map_of report name)) f) \<longrightarrow>
      coverage_main False text' report = (0, None))"
proof -
  have text': "text' = floors_text header (raised report fl)" and code: "code = 0"
    using main read by (auto simp: coverage_main_def)
  note clean = read_floors_clean [OF read]
  have "list_all floor_ok (raised report fl)"
    using raised_floors_ok [of report fl] names percents clean(3) by blast
  then have again: "read_floors text' = Inr (header, raised report fl)"
    unfolding text' using clean(1,2) raised_keys(2) by (intro floors_read_back)
  have ratchet: "f \<le> f'" if "map_of fl name = Some f" "map_of (raised report fl) name = Some f'" for name f f'
    using that by (auto simp: map_of_raised split: if_splits)
  have pass: "coverage_main False text' report = (0, None)"
    if old: "\<forall>name f. name \<in> fst ` set report \<longrightarrow> map_of fl name = Some f \<longrightarrow>
      \<not> below_floor (the (map_of report name)) f"
    using again raised_passes [OF percents old] by (simp add: coverage_main_def)
  show ?thesis using code again raised_keys(1) ratchet pass by blast
qed

theorem raise_ratchets_witness:
  "\<exists>text'. coverage_main True ''# c\<newline>a 10\<newline>'' [(''a'', 50)] = (0, Some text') \<and>
    read_floors text' = Inr ([''# c''], raised [(''a'', 50)] [(''a'', 10)]) \<and>
    coverage_main False text' [(''a'', 50)] = (0, None)"
proof -
  obtain text' where main: "coverage_main True ''# c\<newline>a 10\<newline>'' [(''a'', 50)] = (0, Some text')"
    by (simp add: coverage_main_def demo_read)
  have "is_double (50 :: real)" by (rule is_double_numeral) simp
  moreover have "plain_word ''a''" by (simp add: plain_word_def is_space_def)
  ultimately show ?thesis using raise_ratchets [OF main demo_read] demo_above main by simp
qed

end
