(* ===== verification/Win_Job.thy ===== *)
theory Win_Job
  imports Proctree "HOL-Library.Word"
begin

text \<open>
  The Windows half of \<open>src/scripts/proctree.py\<close>: the structures it declares with \<open>ctypes\<close>, laid out with
  native alignment; the buffer it hands to the kernel; and the kernel calls of a job object, with
  handles as machine words. The kernel's answers are arguments. The job of \<open>Proctree\<close> is what
  these calls amount to.
\<close>

section \<open>Structures\<close>

text \<open>The types of \<open>ctypes\<close> that the source uses; \<open>p\<close> is the size of a pointer.\<close>

datatype ctype =
    C_longlong | C_ulonglong | DWORD | C_size_t | Structure "(string \<times> ctype) list"

definition align_up :: "nat \<Rightarrow> nat \<Rightarrow> nat" where
  "align_up a n = (n + a - 1) div a * a"

fun alignment :: "nat \<Rightarrow> ctype \<Rightarrow> nat"
  and fields_alignment :: "nat \<Rightarrow> (string \<times> ctype) list \<Rightarrow> nat"
  and sizeof :: "nat \<Rightarrow> ctype \<Rightarrow> nat"
  and fields_end :: "nat \<Rightarrow> nat \<Rightarrow> (string \<times> ctype) list \<Rightarrow> nat" where
  "alignment p C_longlong = 8"
| "alignment p C_ulonglong = 8"
| "alignment p DWORD = 4"
| "alignment p C_size_t = p"
| "alignment p (Structure fs) = fields_alignment p fs"
| "fields_alignment p [] = 1"
| "fields_alignment p ((n, t) # fs) = max (alignment p t) (fields_alignment p fs)"
| "sizeof p C_longlong = 8"
| "sizeof p C_ulonglong = 8"
| "sizeof p DWORD = 4"
| "sizeof p C_size_t = p"
| "sizeof p (Structure fs) = align_up (fields_alignment p fs) (fields_end p 0 fs)"
| "fields_end p off [] = off"
| "fields_end p off ((n, t) # fs) = fields_end p (align_up (alignment p t) off + sizeof p t) fs"

text \<open>The offset of a field, from the offset its predecessors end at.\<close>

fun field_offset :: "nat \<Rightarrow> string \<Rightarrow> nat \<Rightarrow> (string \<times> ctype) list \<Rightarrow> nat option" where
  "field_offset p name off [] = None"
| "field_offset p name off ((n, t) # fs) =
     (let start = align_up (alignment p t) off
      in if n = name then Some start else field_offset p name (start + sizeof p t) fs)"

definition IoCounters :: "(string \<times> ctype) list" where
  "IoCounters = map (\<lambda>name. (name, C_ulonglong)) [''r'', ''w'', ''o'', ''rb'', ''wb'', ''ob'']"

definition BasicLimits :: "(string \<times> ctype) list" where
  "BasicLimits =
     [(''PerProcessUserTimeLimit'', C_longlong),
      (''PerJobUserTimeLimit'', C_longlong),
      (''LimitFlags'', DWORD),
      (''MinimumWorkingSetSize'', C_size_t),
      (''MaximumWorkingSetSize'', C_size_t),
      (''ActiveProcessLimit'', DWORD),
      (''Affinity'', C_size_t),
      (''PriorityClass'', DWORD),
      (''SchedulingClass'', DWORD)]"

definition ExtendedLimits :: "(string \<times> ctype) list" where
  "ExtendedLimits =
     [(''BasicLimitInformation'', Structure BasicLimits),
      (''IoInfo'', Structure IoCounters),
      (''ProcessMemoryLimit'', C_size_t),
      (''JobMemoryLimit'', C_size_t),
      (''PeakProcessMemoryUsed'', C_size_t),
      (''PeakJobMemoryUsed'', C_size_t)]"

section \<open>The buffer\<close>

definition JOB_OBJECT_EXTENDED_LIMIT_INFORMATION_CLASS :: int where
  "JOB_OBJECT_EXTENDED_LIMIT_INFORMATION_CLASS = 9"

definition JOB_OBJECT_LIMIT_KILL_ON_JOB_CLOSE :: "32 word" where
  "JOB_OBJECT_LIMIT_KILL_ON_JOB_CLOSE = 0x2000"

text \<open>A \<open>DWORD\<close> in memory, least significant byte first, and read back.\<close>

definition dword_bytes :: "32 word \<Rightarrow> 8 word list" where
  "dword_bytes w = map (\<lambda>i. ucast (drop_bit (8 * i) w)) [0..<4]"

definition dword_at :: "nat \<Rightarrow> 8 word list \<Rightarrow> 32 word" where
  "dword_at off bs = word_rcat (rev (take 4 (drop off bs)))"

definition write_at :: "nat \<Rightarrow> 8 word list \<Rightarrow> 8 word list \<Rightarrow> 8 word list" where
  "write_at off v bs = take off bs @ v @ drop (off + length v) bs"

text \<open>\<open>limits = _ExtendedLimits()\<close> is zeroed; then the flag is assigned.\<close>

definition flags_offset :: "nat \<Rightarrow> nat" where
  "flags_offset p = the (field_offset p ''BasicLimitInformation'' 0 ExtendedLimits) +
     the (field_offset p ''LimitFlags'' 0 BasicLimits)"

definition limits_buffer :: "nat \<Rightarrow> 8 word list" where
  "limits_buffer p = write_at (flags_offset p) (dword_bytes JOB_OBJECT_LIMIT_KILL_ON_JOB_CLOSE)
     (replicate (sizeof p (Structure ExtendedLimits)) 0)"

section \<open>Kernel calls\<close>

text \<open>A call with its arguments, \<open>CreateJobObjectW\<close> with the handle it returned; handles are 64-bit.\<close>

datatype api_call =
    CreateJobObjectW "64 word"
  | SetInformationJobObject "64 word" int "8 word list" nat
  | AssignProcessToJobObject "64 word" "64 word"
  | TerminateJobObject "64 word" "32 word"
  | CloseJobHandle "64 word"
  | WarnFailed string

text \<open>\<open>_create_kill_on_close_job\<close>: a null handle is falsy; the handle is kept as a Python integer.\<close>

definition create_kill_on_close_job :: "64 word \<Rightarrow> bool \<Rightarrow> api_call list \<times> int option" where
  "create_kill_on_close_job handle ok =
     (if handle = 0 then ([CreateJobObjectW handle, WarnFailed ''CreateJobObject''], None)
      else
        let limit = SetInformationJobObject handle JOB_OBJECT_EXTENDED_LIMIT_INFORMATION_CLASS
              (limits_buffer 8) (sizeof 8 (Structure ExtendedLimits))
        in if \<not> ok
           then ([CreateJobObjectW handle, limit, WarnFailed ''SetInformationJobObject'', CloseJobHandle handle], None)
           else ([CreateJobObjectW handle, limit], Some (uint handle)))"

definition assign_call :: "int \<Rightarrow> int \<Rightarrow> api_call list" where
  "assign_call job process_handle = [AssignProcessToJobObject (word_of_int job) (word_of_int process_handle)]"

definition terminate_call :: "int \<Rightarrow> api_call list" where
  "terminate_call job = [TerminateJobObject (word_of_int job) 1]"

definition close_call :: "int \<Rightarrow> api_call list" where
  "close_call job = [CloseJobHandle (word_of_int job)]"

text \<open>What \<open>Job\<close> calls: on adopting a process, on killing, on closing.\<close>

definition job_adopt :: "environment \<Rightarrow> int option \<Rightarrow> int \<Rightarrow> api_call list" where
  "job_adopt env handle process_handle = (case handle of
     None \<Rightarrow> []
   | Some job \<Rightarrow> if exited_before_adopt env then [] else assign_call job process_handle)"

definition job_kill :: "int option \<Rightarrow> api_call list" where
  "job_kill handle = (case handle of None \<Rightarrow> [] | Some job \<Rightarrow> terminate_call job)"

definition job_close :: "int option \<Rightarrow> api_call list" where
  "job_close handle = (case handle of None \<Rightarrow> [] | Some job \<Rightarrow> close_call job)"

section \<open>What the calls amount to\<close>

fun action_of :: "api_call \<Rightarrow> action list" where
  "action_of (CreateJobObjectW h) = (if h = 0 then [] else [OpenHandle])"
| "action_of (SetInformationJobObject h c b n) = []"
| "action_of (AssignProcessToJobObject h q) = [AssignToJob]"
| "action_of (TerminateJobObject h c) = [TerminateJob]"
| "action_of (CloseJobHandle h) = [CloseHandle]"
| "action_of (WarnFailed s) = [Warn]"

definition actions_of :: "api_call list \<Rightarrow> action list" where
  "actions_of calls = concat (map action_of calls)"

fun handle_of :: "api_call \<Rightarrow> 64 word option" where
  "handle_of (CreateJobObjectW h) = Some h"
| "handle_of (SetInformationJobObject h c b n) = Some h"
| "handle_of (AssignProcessToJobObject h q) = Some h"
| "handle_of (TerminateJobObject h c) = Some h"
| "handle_of (CloseJobHandle h) = Some h"
| "handle_of (WarnFailed s) = None"

lemma layout_64:
  "sizeof 8 (Structure ExtendedLimits) = 144" "flags_offset 8 = 16"
  "sizeof 8 (Structure BasicLimits) = 64" "sizeof 8 (Structure IoCounters) = 48"
  by code_simp+

lemma layout_32:
  "sizeof 4 (Structure ExtendedLimits) = 112" "flags_offset 4 = 16"
  by code_simp+

lemma length_dword_bytes: "length (dword_bytes w) = 4"
  by (simp add: dword_bytes_def)

lemma rcat_dword_bytes: "word_rcat (rev (dword_bytes w)) = w"
proof (rule bit_word_eqI)
  fix n assume "n < LENGTH(32)"
  then have "n div 8 < 4" by (simp add: less_mult_imp_div_less)
  moreover have "[0..<4] ! k = k" if "k < 4" for k :: nat using that by simp
  ultimately show "bit (word_rcat (rev (dword_bytes w)) :: 32 word) n = bit w n"
    using \<open>n < LENGTH(32)\<close> bit_horner_sum_uint_exp_iff [of "dword_bytes w" n]
    by (simp add: word_rcat_def bit_word_of_int_iff dword_bytes_def bit_ucast_iff bit_drop_bit_eq del: upt_rec_numeral)
qed

lemma dword_at_write:
  assumes "off \<le> length bs"
  shows "dword_at off (write_at off (dword_bytes w) bs) = w"
  using assms length_dword_bytes [of w] rcat_dword_bytes [of w]
  by (simp add: dword_at_def write_at_def min_def)

lemma flag_bytes: "dword_bytes JOB_OBJECT_LIMIT_KILL_ON_JOB_CLOSE = [0, 0x20, 0, 0]"
  unfolding dword_bytes_def JOB_OBJECT_LIMIT_KILL_ON_JOB_CLOSE_def by code_simp

lemma limits_buffer_64: "limits_buffer 8 = replicate 16 0 @ [0, 0x20, 0, 0] @ replicate 124 0"
  by (simp add: limits_buffer_def layout_64 write_at_def flag_bytes del: sizeof.simps)

lemma limits_flag: "dword_at (flags_offset 8) (limits_buffer 8) = JOB_OBJECT_LIMIT_KILL_ON_JOB_CLOSE"
  by (simp add: limits_buffer_def layout_64 dword_at_write del: sizeof.simps)

lemmas job_defs = create_kill_on_close_job_def job_adopt_def job_kill_def job_close_def
  assign_call_def terminate_call_def close_call_def actions_of_def Let_def

text \<open>C29: The Windows calls implement the job of the supervised run: creating, adopting, killing and closing
  do exactly the abstract actions, warnings and the closing of a half-made job included; every call
  gets the handle the kernel returned, unharmed by its trip through a Python integer; and the one
  limit that is set is passed in a buffer of the declared size (144 bytes on 64-bit Windows) whose
  flags, at the offset native alignment gives them, are kill-on-close, all other bytes being zero.\<close>

theorem windows_job_refines:
  assumes env: "win32 env" "job_created env = (handle \<noteq> 0)" "job_limited env = ok"
    and job: "create_kill_on_close_job handle ok = (calls, job)"
  shows "(actions_of calls, job \<noteq> None) = new_job env \<and>
    actions_of (job_adopt env job process_handle) = fst (adopt env (job \<noteq> None)) \<and>
    actions_of (job_kill job) @ [KillChild] = kill env (job \<noteq> None) \<and>
    actions_of (job_close job) = close_job env (job \<noteq> None) \<and>
    (\<forall>c\<in>set (calls @ job_adopt env job process_handle @ job_kill job @ job_close job).
      handle_of c \<in> {None, Some handle}) \<and>
    (\<forall>h cls buffer n. SetInformationJobObject h cls buffer n \<in> set calls \<longrightarrow>
      cls = 9 \<and> n = 144 \<and> buffer = replicate 16 0 @ [0, 0x20, 0, 0] @ replicate 124 0 \<and>
      dword_at 16 buffer = JOB_OBJECT_LIMIT_KILL_ON_JOB_CLOSE)"
proof -
  have flag: "dword_at 16 (limits_buffer 8) = JOB_OBJECT_LIMIT_KILL_ON_JOB_CLOSE"
    using limits_flag by (simp add: layout_64)
  have "\<forall>h cls buffer n. SetInformationJobObject h cls buffer n \<in> set calls \<longrightarrow>
      cls = 9 \<and> n = 144 \<and> buffer = limits_buffer 8"
    using job by (auto simp: job_defs layout_64 JOB_OBJECT_EXTENDED_LIMIT_INFORMATION_CLASS_def
        simp del: sizeof.simps split: if_splits)
  with flag have "\<forall>h cls buffer n. SetInformationJobObject h cls buffer n \<in> set calls \<longrightarrow>
      cls = 9 \<and> n = 144 \<and> buffer = replicate 16 0 @ [0, 0x20, 0, 0] @ replicate 124 0 \<and>
      dword_at 16 buffer = JOB_OBJECT_LIMIT_KILL_ON_JOB_CLOSE"
    unfolding limits_buffer_64 by blast
  moreover have "(actions_of calls, job \<noteq> None) = new_job env"
    "actions_of (job_adopt env job process_handle) = fst (adopt env (job \<noteq> None))"
    "actions_of (job_kill job) @ [KillChild] = kill env (job \<noteq> None)"
    "actions_of (job_close job) = close_job env (job \<noteq> None)"
    "\<forall>c\<in>set (calls @ job_adopt env job process_handle @ job_kill job @ job_close job). handle_of c \<in> {None, Some handle}"
    using job env
    by (auto simp: job_defs new_job_def adopt_def kill_def close_job_def simp del: sizeof.simps split: if_splits)
  ultimately show ?thesis by blast
qed

text \<open>A job whose handle has its top bit set, adopted and closed.\<close>

theorem windows_job_refines_witness:
  "actions_of (fst (create_kill_on_close_job 0x8000000000000010 True)) = [OpenHandle] \<and>
    actions_of (job_close (snd (create_kill_on_close_job 0x8000000000000010 True))) = [CloseHandle]"
proof -
  let ?env = "demo_env\<lparr>win32 := True, job_created := True, job_limited := True\<rparr>"
  obtain calls where c: "create_kill_on_close_job 0x8000000000000010 True = (calls, Some 0x8000000000000010)"
    by (simp add: create_kill_on_close_job_def Let_def)
  have "(actions_of calls, True) = new_job ?env"
    "actions_of (job_close (Some 0x8000000000000010)) = close_job ?env True"
    using windows_job_refines [of ?env, OF _ _ _ c, of 0] by simp_all
  with c show ?thesis by (simp add: new_job_def close_job_def)
qed

end
