(* ===== verification/Release_Guard.thy ===== *)
theory Release_Guard
  imports Main
begin

text \<open>
  The release guard (\<open>src/scripts/release_guard.py\<close>): which package index a tagged release goes to. Parsing
  a PEP 440 version, and whether it is a pre-release, belong to the \<open>packaging\<close> library: \<open>parse\<close>
  (\<open>None\<close> for \<open>InvalidVersion\<close>) and \<open>is_prerelease\<close> are parameters.
\<close>

datatype guard_error = NotAVersion | TagMismatch string string

definition tag_name :: "string \<Rightarrow> string" where
  "tag_name tag = (if take 1 tag = ''v'' then drop 1 tag else tag)"

definition resolve_channel ::
    "(string \<Rightarrow> 'v option) \<Rightarrow> ('v \<Rightarrow> bool) \<Rightarrow> string \<Rightarrow> string \<Rightarrow> guard_error + string" where
  "resolve_channel parse is_prerelease tag built_version =
     (case (parse (tag_name tag), parse built_version) of
        (Some tag_version, Some built) \<Rightarrow>
          if tag_version \<noteq> built then Inl (TagMismatch tag built_version)
          else Inr (if is_prerelease built then ''testpypi'' else ''pypi'')
      | _ \<Rightarrow> Inl NotAVersion)"

text \<open>Exit code, printed line, and the new contents of the output file when one is configured (and named).\<close>

definition guard_main ::
    "(string \<Rightarrow> 'v option) \<Rightarrow> ('v \<Rightarrow> bool) \<Rightarrow> string list \<Rightarrow> string option \<Rightarrow>
     nat \<times> string option \<times> string option" where
  "guard_main parse is_prerelease argv output_file = (case argv of
     [tag, built_version] \<Rightarrow> (case resolve_channel parse is_prerelease tag built_version of
         Inl _ \<Rightarrow> (1, None, output_file)
       | Inr channel \<Rightarrow> (let line = ''channel='' @ channel in
           (0, Some line, map_option (\<lambda>f. f @ line @ [CHR 0x0A]) output_file)))
   | _ \<Rightarrow> (2, None, output_file))"

text \<open>A release reaches an index only under a tag that names it: the guard succeeds exactly when it gets a
  tag and a version that parse to the same version, the channel is the production index exactly for
  a version that is no pre-release, and only then does it write a line, to the end of the output
  file; otherwise it exits with an error and leaves that file alone.\<close>

lemma release_channel:
  "guard_main parse is_prerelease argv output_file = (code, line, file) \<longleftrightarrow>
    (\<exists>tag built v. argv = [tag, built] \<and> parse (tag_name tag) = Some v \<and> parse built = Some v \<and> code = 0 \<and>
       (\<exists>channel. channel = (if is_prerelease v then ''testpypi'' else ''pypi'') \<and>
          line = Some (''channel='' @ channel) \<and>
          file = map_option (\<lambda>f. f @ ''channel='' @ channel @ [CHR 0x0A]) output_file)) \<or>
    (\<nexists>tag built v. argv = [tag, built] \<and> parse (tag_name tag) = Some v \<and> parse built = Some v) \<and>
       code = (if length argv = 2 then 1 else 2) \<and> line = None \<and> file = output_file"
proof (cases "\<exists>tag built. argv = [tag, built]")
  case True
  then obtain tag built where argv: "argv = [tag, built]" by blast
  show ?thesis
    by (cases "parse (tag_name tag)"; cases "parse built")
      (auto simp: argv guard_main_def resolve_channel_def Let_def)
next
  case False
  then have "guard_main parse is_prerelease argv output_file = (2, None, output_file)" and "length argv \<noteq> 2"
    by (auto simp: guard_main_def length_Suc_conv numeral_2_eq_2 split: list.splits)
  with False show ?thesis by auto
qed

end
