(* ===== verification/Spec2Isabelle.thy ===== *)
theory Spec2Isabelle
  imports Net_Guarantees User_Drive Raft_Run Quick_Eval Golden Given_Seed Seeds Patch_Lock Describe Sweep_Setup Coverage_Gate Win_Job Release_Guard
begin

text \<open>
  A model of \<open>seedloop\<close>, a library that runs \<open>asyncio\<close> programs deterministically: a run is a pure
  function of its seed, so a failure that a sweep over seeds finds is replayed from the seed alone.

  \<^bold>\<open>The program and its parts.\<close> \<open>check\<close> and \<open>replay\<close> (\<open>src/src/seedloop/_run.py\<close>) build a \<open>World\<close> per seed
  and let it drive the scenario (\<open>_world.py\<close>): the scenario is a task on a deterministic event loop
  (\<open>_loop.py\<close>), whose clock is virtual and whose callbacks run in a fixed order. The world offers the
  scenario a simulated network (\<open>_net.py\<close>) with losses, duplicates, partitions and scheduled faults
  (\<open>_faults.py\<close>), invariants, \<open>run_for\<close>, \<open>run_until\<close>, a timeline (\<open>_trace.py\<close>) and seeded entropy
  (\<open>_entropy.py\<close>). The network schedules deliveries as timers of the loop; the world checks
  invariants in the loop's after-step hooks; the drive ends a run through the loop's step-driven
  completion and tears it down with a bounded number of steps. A Raft election (\<open>demos/raft.py\<close>) and the
  README's client and server (\<open>examples/quickstart.py\<close>) are the worked examples, programs run by the library. Beside the library stand the scripts that guard it: the mutation gate, the
  coverage floors, the pinned timelines, the supervised processes, the release guard (\<open>src/scripts\<close>).

  \<^bold>\<open>The theories, in the order they build on each other.\<close>

  \<^item> \<open>Prelude\<close>: shared list and dictionary facts. \<open>PyFloat\<close>: Python floats as binary64 numbers with
    rounding, infinities and NaN. \<open>PyText\<close>: decimal numbers, \<open>strip\<close>, \<open>split\<close>, \<open>partition\<close>,
    \<open>splitlines\<close>, big-endian bytes.
  \<^item> \<open>Entropy\<close>: \<open>random.Random\<close> as the words its generator yields, and what \<open>random\<close>, \<open>uniform\<close>,
    \<open>getrandbits\<close>, \<open>choice\<close> make of them. \<open>Seeds\<close>: \<open>substream\<close>, \<open>_seeded_urandom\<close>, \<open>hash_seed_for\<close>,
    \<open>ensure_hash_seed\<close>. \<open>Patches\<close>: \<open>csprng_shim\<close> and \<open>audit_mode\<close> as changes to a table of module
    attributes. \<open>Patch_Lock\<close>: their steps on several threads, under \<open>exclusive_patching\<close>.
  \<^item> \<open>Errors\<close>: the exception classes, notes and pickling. \<open>Boundary\<close>: the operations the loop rejects.
    \<open>Describe\<close>: the text about tasks.
  \<^item> \<open>Timers\<close> (the heap behind a locale of priority queues), \<open>Loop\<close> (one definition per method of
    \<open>DeterministicLoop\<close>, composed in \<open>run_once\<close>), \<open>Loop_Facts\<close> (the locale \<open>loop_client\<close>: what callbacks and
    hooks must keep so that a step keeps the loop well formed).
  \<^item> \<open>Faults\<close>, \<open>Net\<close> (state and operations of \<open>Transport\<close> and its endpoints), \<open>Net_Facts\<close> (which loop
    operations leave the messages in flight alone), \<open>Net_Inv\<close> (the invariant of the network).
  \<^item> \<open>World\<close> (operations, tasks and futures, user code), \<open>World_Facts\<close> (the world is a \<open>loop_client\<close>).
    \<open>Drive\<close>, \<open>Drive_Facts\<close>: \<open>_drive\<close>, settling, teardown. \<open>Run\<close>: \<open>check\<close>, \<open>replay\<close>. \<open>Given_Seed\<close>: the
    Hypothesis wrapper.
  \<^item> \<open>Loop_Guarantees\<close>, \<open>World_Guarantees\<close>, \<open>Drive_Guarantees\<close>, \<open>Net_Guarantees\<close>: the properties of these parts.
  \<^item> \<open>User_Code\<close>, \<open>User_World\<close>, \<open>User_Drive\<close>: rely and guarantee for user code. \<open>ok J c h M\<close> says that the code
    \<open>c\<close> keeps \<open>J\<close> of the objects and of the pool of messages ever sent, whatever other code that keeps \<open>J\<close> does
    between its operations; the three theories carry this through the operations, the loop and the
    drive, up to a sweep. \<open>User_Calls\<close>: \<open>await\<close>, \<open>try\<close>, \<open>wait_for\<close> as combinators of user code with their rules.
  \<^item> \<open>Raft\<close>: the node and a cluster over a network that loses, duplicates and reorders at will.
    \<open>Raft_Run\<close>: the same handlers as a scenario of the library, its sweeps and the demo's \<open>main\<close>.
    \<open>Quickstart\<close>: the README's example.
  \<^item> \<open>Corpus\<close>: scenarios of \<open>pin_corpus.py\<close> as user code. \<open>Run_Eval\<close>: rules that evaluate a run of the model symbolically,
    one step after the other, from the entry into the drive to the end of teardown. \<open>Golden\<close>: the
    committed outcomes and timelines, evaluated. \<open>Quick_Eval\<close>: the quickstart with its broken server, evaluated on
    every seed, the latencies of the network being symbolic.
  \<^item> \<open>Mutator\<close>, \<open>Mutation_Sweep\<close>, \<open>Sweep_Setup\<close> (\<open>mutation_sweep.py\<close>: the transformer; the sweep and its gate; the sources,
    the copy and the environment of the tests), \<open>Coverage_Gate\<close> (\<open>check_coverage.py\<close>),
    \<open>Proctree\<close>, \<open>Win_Job\<close> (\<open>proctree.py\<close>: the supervised run; the Windows structures and calls), \<open>Pins\<close> (\<open>pin_replay.py\<close>, \<open>pin_corpus.py\<close>), \<open>Release_Guard\<close>
    (\<open>release_guard.py\<close>).

  \<^bold>\<open>How state corresponds.\<close> The attributes of \<open>DeterministicLoop\<close>, \<open>Transport\<close> and \<open>World\<close> are the fields of
  the records \<open>loop\<close>, \<open>net\<close> (which extends \<open>loop\<close>, since the transport schedules on it) and \<open>world\<close>
  (which extends \<open>net\<close>). A Python dictionary is an association list where its order matters and a
  map where it does not. Raised exceptions are values of \<open>outcome\<close>; \<open>Diverged\<close> and \<open>None\<close> are calls that
  do not come back. The code of a scenario, of nodes and of callbacks is a tree of the operations it
  performs, chosen by their replies, over a state of the user's own objects; it is arbitrary in
  every theorem about runs.

  \<^bold>\<open>What the properties say.\<close> Loop: the clock jumps exactly to the earliest live deadline, a deadlock is
  reported exactly when nothing can run, timers fire in order, a batch is first-in first-out, a
  step allowance is exact. World: a violated invariant always ends its step and is checked after
  every step; \<open>run_until\<close> misses nothing; \<open>run_for\<close> validates before it commits. Network: messages
  are conserved, a reliable link is a FIFO channel, a crash is final, windows end, faults do not
  shift latencies. Programs: code that keeps an invariant of its
  objects and messages is never reported; so the correct Raft election and the remembering server pass
  every sweep, the committed golden is what the model computes, a program that does break its invariant is caught
  on every seed, and the forgetful server fails on exactly the seeds whose acknowledgement is late. Drive and sweep: a limited run comes back, never loses its failure and passes
  only if everything in it did; the reported seed replays. Entropy: streams are separate, patches are undone
  wherever a run is interrupted, audit mode catches every surface on its own thread only, patched
  runs on several threads, nested or not, take turns under the lock and leave other threads alone. Raft: election safety with the single-vote rule, split brain without it.
  Scripts: one mutation per mutant, distinct keys, exact survivors, shards agree with the whole,
  baselines and floors read back, the tree of a supervised process is always killed, the Windows calls implement its job, a pin catches
  every change of a timeline.

  \<^bold>\<open>Bounds and loops.\<close> Loops that may not end are \<open>partial_function (option)\<close>: stepping the loop, settling,
  and redrawing below a bound; \<open>drive_returns\<close> and \<open>randbelow_returns\<close> say when they end. The recursion of a
  task's cancellation is bounded by the number of futures, which a chain of waiting tasks cannot
  exceed; the rounds of a teardown are the code's own constant. A \<open>while True\<close> of a scenario's code
  counts its passes in a parameter (\<open>passes\<close>) and hangs the run beyond it: the theorems about sweeps hold for every
  count, and the evaluated runs need no more than the count they state.

  \<^bold>\<open>Hypotheses about code outside the repository.\<close> BLAKE2b returns a digest of the requested length (\<open>digest_size_ok\<close>); the
  generator behind \<open>random.Random\<close>, SHA-1, \<open>repr\<close>, the syntax tree library's order of visits, the
  behaviour of the operating system and of the test suite, and PEP 440 parsing are arguments of
  the definitions that use them.

  \<^bold>\<open>Not modelled.\<close> Threads other than as the caller of a patched function and as a
  patched run under the lock; an interrupt during a restore; the texts of most error messages; printing and argument
  parsing of the command lines; decoding JSON; reading and writing of files, beyond the contents they have; generation and shrinking
  of examples, which are Hypothesis's; the pinned scenarios built on \<open>gather\<close> or queues of asyncio or on \<open>randint\<close>
  of the user's generator (\<open>faults_unpinned\<close>, \<open>faults_pinned\<close>, \<open>wait_for_burst\<close>, \<open>net_basic\<close>,
  \<open>canonical_scenario\<close>) and \<open>csprng_values\<close>; \<open>datetime\<close> reads below the audited surface.
\<close>

end
